(* ===== verification/Rude_Prelude.thy ===== *)
theory Rude_Prelude
  imports Complex_Main "HOL-Library.Word" "HOL-Library.Monad_Syntax" "HOL-Library.Signed_Division"
    "HOL-Library.Multiset"
begin

text \<open>
  Shared vocabulary of the development: the machine integers of the C++ sources as words of
  their width, byte strings, time, and the generic lemmas on words, lists and slot arrays that
  the component theories use.

  \<^item> \<open>std::uint8_t\<close>, \<open>uint16_t\<close>, \<open>uint32_t\<close>, \<open>uint64_t\<close> are \<open>u8\<close>, \<open>u16\<close>, \<open>u32\<close>,
    \<open>u64\<close>; \<open>std::size_t\<close> values that the code increments, decrements or compares with a
    controller's window are \<open>u64\<close> too, so that a decrement below zero would wrap and be seen;
    lengths of containers are \<open>nat\<close>.
  \<^item> \<open>std::byte\<close> is \<open>u8\<close>, a buffer or span is the list of its bytes.
  \<^item> A point or duration of \<open>std::chrono::steady_clock\<close> is an integer number of nanoseconds.
  \<^item> \<open>double\<close> is \<open>real\<close>: rounding is not modelled.
\<close>

unbundle bit_operations_syntax

type_synonym u8 = "8 word"
type_synonym u16 = "16 word"
type_synonym u32 = "32 word"
type_synonym u64 = "64 word"
type_synonym bytes = "u8 list"
type_synonym time_ns = int

named_theorems seq_simps \<open>unsigned readings of 16-bit sequence arithmetic\<close>
named_theorems slot_simps \<open>slot arrays: lookups and occupancy counts\<close>

abbreviation millis :: "int \<Rightarrow> time_ns" where
  "millis n \<equiv> n * 1000000"

section \<open>Slot arrays\<close>

text \<open>
  The number of engaged entries of a \<open>std::vector\<close> or \<open>std::array\<close> of optionals.
\<close>

definition occupied :: "'a option list \<Rightarrow> nat" where
  "occupied xs = length (filter (\<lambda>x. x \<noteq> None) xs)"

text \<open>A memory write of the bytes \<open>bs\<close> at offset \<open>off\<close> of a buffer.\<close>

definition write_at :: "nat \<Rightarrow> bytes \<Rightarrow> bytes \<Rightarrow> bytes" where
  "write_at off bs buf = take off buf @ bs @ drop (off + length bs) buf"

lemma occupied_Nil [simp, slot_simps]: "occupied [] = 0"
  by (simp add: occupied_def)

lemma occupied_Cons [slot_simps]: "occupied (x # xs) = (if x = None then 0 else 1) + occupied xs"
  by (simp add: occupied_def)

lemma occupied_append [slot_simps]: "occupied (xs @ ys) = occupied xs + occupied ys"
  by (simp add: occupied_def)

lemma occupied_replicate_None [simp, slot_simps]: "occupied (replicate n None) = 0"
  by (simp add: occupied_def)

lemma occupied_le_length: "occupied xs \<le> length xs"
  by (simp add: occupied_def)

lemma occupied_update:
  assumes "i < length xs"
  shows "occupied (xs[i := y]) + (if xs ! i = None then 0 else 1)
      = occupied xs + (if y = None then 0 else 1)"
proof -
  have "occupied (xs[i := y]) = occupied (take i xs @ y # drop (Suc i) xs)"
    using assms by (simp add: upd_conv_take_nth_drop)
  moreover have "occupied xs = occupied (take i xs @ xs ! i # drop (Suc i) xs)"
    using assms by (simp flip: id_take_nth_drop)
  ultimately show ?thesis
    by (simp add: occupied_append occupied_Cons)
qed

lemma occupied_clear:
  "i < length xs \<Longrightarrow> xs ! i = Some y \<Longrightarrow> Suc (occupied (xs[i := None])) = occupied xs"
  using occupied_update [of i xs None] by simp

lemma occupied_fill:
  "i < length xs \<Longrightarrow> xs ! i = None \<Longrightarrow> occupied (xs[i := Some y]) = Suc (occupied xs)"
  using occupied_update [of i xs "Some y"] by simp

lemma occupied_pos: "i < length xs \<Longrightarrow> xs ! i = Some y \<Longrightarrow> 0 < occupied xs"
  using occupied_clear by fastforce

lemma occupied_full: "occupied xs = length xs \<Longrightarrow> i < length xs \<Longrightarrow> xs ! i \<noteq> None"
  unfolding occupied_def
  by (metis (mono_tags, lifting) length_filter_less less_irrefl nth_mem)

lemma length_write_at:
  "off + length bs \<le> length buf \<Longrightarrow> length (write_at off bs buf) = length buf"
  by (simp add: write_at_def)

text \<open>Writing two adjacent blocks is one write: the field-by-field encoder builds one frame.\<close>

lemma write_at_append:
  assumes "off + length bs + length cs \<le> length buf"
  shows "write_at (off + length bs) cs (write_at off bs buf) = write_at off (bs @ cs) buf"
proof -
  have "min (length buf) off = off"
    using assms by simp
  then show ?thesis
    by (simp add: write_at_def ac_simps)
qed

lemma take_write_at:
  "off + length bs \<le> length buf \<Longrightarrow> take (off + length bs) (write_at off bs buf) = take off buf @ bs"
  by (simp add: write_at_def)

lemma write_at_0: "write_at 0 bs buf = bs @ drop (length bs) buf"
  by (simp add: write_at_def)

section \<open>Runs\<close>

text \<open>
  A sequence of operations on a state, each returning the new state and what it emitted; and the
  same for operations that may be undefined (\<open>None\<close>).
\<close>

fun runOps :: "('op \<Rightarrow> 's \<Rightarrow> 's \<times> 'e list) \<Rightarrow> 'op list \<Rightarrow> 's \<Rightarrow> 's \<times> 'e list" where
  "runOps f [] s = (s, [])"
| "runOps f (x # xs) s =
     (let (s1, es) = f x s; (s2, fs) = runOps f xs s1 in (s2, es @ fs))"

fun runPartial :: "('op \<Rightarrow> 's \<Rightarrow> ('s \<times> 'e list) option) \<Rightarrow> 'op list \<Rightarrow> 's \<Rightarrow> ('s \<times> 'e list) option"
  where
  "runPartial f [] s = Some (s, [])"
| "runPartial f (x # xs) s =
     do {
       (s1, es) \<leftarrow> f x s;
       (s2, fs) \<leftarrow> runPartial f xs s1;
       Some (s2, es @ fs)
     }"

lemma runOps_inv:
  assumes "\<And>x s. I s \<Longrightarrow> I (fst (f x s))" and "I s"
  shows "I (fst (runOps f xs s))"
  using assms(2)
proof (induction xs arbitrary: s)
  case (Cons x xs)
  from assms(1) [OF Cons.prems] show ?case
    using Cons.IH [of "fst (f x s)"] by (simp add: case_prod_beta)
qed simp

lemma runPartial_Cons_SomeE:
  assumes "runPartial f (x # xs) s = Some (s', es)"
  obtains s1 es1 es2 where "f x s = Some (s1, es1)" and "runPartial f xs s1 = Some (s', es2)"
    and "es = es1 @ es2"
  using assms by (auto simp: bind_eq_Some_conv)

section \<open>16-bit sequence numbers\<close>

lemma unat_u16_less [simp]: "unat (x :: u16) < 65536"
  by (rule order_less_le_trans [OF unsigned_less]) simp

lemma unat_of_nat_u16 [seq_simps]: "unat (of_nat n :: u16) = n mod 65536"
  by (simp add: unat_of_nat)

lemma unat_sub_u16: "unat (a - b :: u16) = (unat a + (65536 - unat b)) mod 65536"
proof (cases "unat b \<le> unat a")
  case True
  have "unat a + (65536 - unat b) = (unat a - unat b) + 65536"
    using True unat_u16_less [of b] by linarith
  moreover have "unat (a - b) = unat a - unat b"
    using True by (simp add: unat_sub word_le_nat_alt)
  moreover have "unat a - unat b < 65536"
    using unat_u16_less [of a] by linarith
  ultimately show ?thesis by simp
next
  case False
  then have "unat (a - b) = 65536 + unat a - unat b"
    by (simp add: unat_sub_if_size size_word.rep_eq)
  moreover have "65536 + unat a - unat b = unat a + (65536 - unat b)"
    using unat_u16_less [of b] by linarith
  moreover have "65536 + unat a - unat b < 65536"
    using False by linarith
  ultimately show ?thesis by simp
qed

text \<open>The wrapped distance from index \<open>m\<close> up to index \<open>n\<close>, whatever the wraps in between.\<close>

lemma unat_diff_of_nat_u16 [seq_simps]:
  "m \<le> n \<Longrightarrow> unat (of_nat n - of_nat m :: u16) = (n - m) mod 65536"
  by (metis of_nat_diff unat_of_nat_u16)

lemma unat_diff_of_nat_u16_back:
  assumes "n < m"
  shows "unat (of_nat n - of_nat m :: u16) = (65536 - (m - n) mod 65536) mod 65536"
proof -
  let ?d = "of_nat m - of_nat n :: u16"
  have "unat ?d = (m - n) mod 65536"
    using assms by (simp add: unat_diff_of_nat_u16)
  moreover have "of_nat n - of_nat m = 0 - ?d" by simp
  ultimately show ?thesis
    using unat_sub_u16 [of 0 ?d] by simp
qed

lemma of_nat_u16_eq_iff: "(of_nat m :: u16) = of_nat n \<longleftrightarrow> m mod 65536 = n mod 65536"
  by (simp add: word_unat_eq_iff unat_of_nat_u16)

lemma of_nat_mod_slot:
  "W dvd 65536 \<Longrightarrow> unat (of_nat n :: u16) mod W = n mod W"
  by (simp add: unat_of_nat_u16 mod_mod_cancel)

end
