(* ===== verification/Rude_Protocol.thy ===== *)
theory Rude_Protocol
  imports Rude_Prelude
begin

text \<open>
  The protocol vocabulary: \<^verbatim>\<open>core/Error.hpp\<close> (the library's error conditions and their error
  codes), \<^verbatim>\<open>protocol/Types.hpp\<close> (the frame discriminator), \<^verbatim>\<open>protocol/Packet.hpp\<close>
  (the decoded packet), and the effects by which an operation acts on the world outside the
  state it owns: datagrams handed to the socket, completion handlers run, timers armed, policy
  callbacks.
\<close>

section \<open>Errors\<close>

datatype Error =
    ConnectionReset | Timeout | BadPacket | SendWindowFull | ChannelClosed
  | VersionMismatch | MessageTooLarge

fun errorValue :: "Error \<Rightarrow> int" where
  "errorValue ConnectionReset = 1"
| "errorValue Timeout = 2"
| "errorValue BadPacket = 3"
| "errorValue SendWindowFull = 4"
| "errorValue ChannelClosed = 5"
| "errorValue VersionMismatch = 6"
| "errorValue MessageTooLarge = 7"

text \<open>\<open>RudpCategory::message\<close>: the switch over the cast value, with its default.\<close>

definition errorMessage :: "int \<Rightarrow> string" where
  "errorMessage ev =
     (if ev = errorValue ConnectionReset then ''connection reset by peer''
      else if ev = errorValue Timeout then ''operation timed out''
      else if ev = errorValue BadPacket then ''bad packet (crc or header)''
      else if ev = errorValue SendWindowFull then ''send window full''
      else if ev = errorValue ChannelClosed then ''channel closed''
      else if ev = errorValue VersionMismatch then ''codec version mismatch''
      else if ev = errorValue MessageTooLarge then ''message exceeds session mtu''
      else ''unknown rude error'')"

text \<open>
  A \<open>boost::system::error_code\<close>: success, a value of the rude category, or an error of the
  transport (Boost.Asio), of which the code names only \<open>operation_aborted\<close>. Testing a code
  in a condition asks whether its value differs from zero.
\<close>

datatype asio_error = operation_aborted | socket_error nat

datatype error_code = NoError | RudeCode int | AsioCode asio_error

fun failed :: "error_code \<Rightarrow> bool" where
  "failed NoError = False"
| "failed (RudeCode v) = (v \<noteq> 0)"
| "failed (AsioCode e) = True"

definition makeErrorCode :: "Error \<Rightarrow> error_code" where
  "makeErrorCode e = RudeCode (errorValue e)"

section \<open>Packets\<close>

text \<open>
  \<open>enum class PacketType : std::uint8_t\<close>. Its fixed underlying type makes every byte a value
  of the enum, and the decoder casts the received byte without a check, so the type is the byte
  and the enumerators are constants.
\<close>

type_synonym PacketType = u8

definition HandshakeInit :: PacketType where "HandshakeInit = 0x01"
definition HandshakeAck :: PacketType where "HandshakeAck = 0x02"
definition Data :: PacketType where "Data = 0x10"
definition Ack :: PacketType where "Ack = 0x11"
definition Keepalive :: PacketType where "Keepalive = 0x20"
definition Disconnect :: PacketType where "Disconnect = 0x30"

record Packet =
  pkt_type :: PacketType
  pkt_seq :: u16
  pkt_ack :: u16
  pkt_ackBits :: u32
  pkt_channel :: u8
  pkt_payload :: bytes
  pkt_crc :: u32

text \<open>A default-initialised \<open>Packet\<close>.\<close>

definition newPacket :: Packet where
  "newPacket = \<lparr>pkt_type = Data, pkt_seq = 0, pkt_ack = 0, pkt_ackBits = 0, pkt_channel = 0,
     pkt_payload = [], pkt_crc = 0\<rparr>"

section \<open>Effects\<close>

text \<open>
  A completion handler is a name. The continuation that travels with a datagram given to
  \<open>asyncSendTo\<close> is one of the lambdas of the sources: the ignored completion of a
  retransmission or control packet, the user's handler of an unreliable send, the bookkeeping
  lambda of a reliable send (the channel it captured as \<open>this\<close>, by its id, and the sequence
  number), the lambda of a flush, and the one of a disconnect.
\<close>

type_synonym handler = nat

datatype send_cont =
    SendDiscard
  | SendUser handler
  | SendReliable u8 u16 handler
  | SendFlush
  | SendDisconnect handler

text \<open>
  Effects in program order. \<open>CompleteRecv h ec n bs\<close> runs the receive handler \<open>h\<close> with
  \<open>(ec, n)\<close> after the \<open>n\<close> bytes \<open>bs\<close> were copied to the front of its buffer.
\<close>

datatype 'ep effect =
    SendTo bytes 'ep send_cont
  | CompleteSend handler error_code
  | CompleteRecv handler error_code nat bytes
  | RecvFrom
  | ArmRetransmit int
  | ArmKeepalive int
  | CancelTimers
  | CancelSocket
  | CloseSocket
  | OnConnected
  | OnDisconnected error_code

text \<open>The datagrams among the effects, in order.\<close>

fun datagrams :: "'ep effect list \<Rightarrow> (bytes \<times> 'ep \<times> send_cont) list" where
  "datagrams [] = []"
| "datagrams (SendTo bs ep k # es) = (bs, ep, k) # datagrams es"
| "datagrams (e # es) = datagrams es"

section \<open>Facts\<close>

lemma datagrams_append [simp]: "datagrams (es @ fs) = datagrams es @ datagrams fs"
  by (induction es rule: datagrams.induct) simp_all

lemma in_datagrams_iff: "(bs, ep, k) \<in> set (datagrams es) \<longleftrightarrow> SendTo bs ep k \<in> set es"
  by (induction es rule: datagrams.induct) auto

lemmas packet_type_defs =
  HandshakeInit_def HandshakeAck_def Data_def Ack_def Keepalive_def Disconnect_def

lemma packet_types_distinct [simp]:
  "distinct [HandshakeInit, HandshakeAck, Data, Ack, Keepalive, Disconnect]"
  by (simp add: packet_type_defs)

lemma Data_neq_Ack [simp]: "Data \<noteq> Ack" "Ack \<noteq> Data"
  by (simp_all add: packet_type_defs)

lemma inj_errorValue: "errorValue a = errorValue b \<longleftrightarrow> a = b"
  by (cases a; cases b) simp_all

lemma makeErrorCode_eq [simp]: "makeErrorCode a = makeErrorCode b \<longleftrightarrow> a = b"
  by (simp add: makeErrorCode_def inj_errorValue)

lemma makeErrorCode_failed [simp]: "failed (makeErrorCode e)"
  by (cases e) (simp_all add: makeErrorCode_def)

lemma makeErrorCode_neq [simp]:
  "makeErrorCode e \<noteq> NoError" "NoError \<noteq> makeErrorCode e"
  "makeErrorCode e \<noteq> AsioCode x" "AsioCode x \<noteq> makeErrorCode e"
  by (simp_all add: makeErrorCode_def)

end
