(* ===== verification/Rude_Codec.thy ===== *)
theory Rude_Codec
  imports Rude_Protocol
begin

text \<open>
  \<^verbatim>\<open>detail/DefaultCodec.hpp\<close> and the \<open>PacketCodec\<close> concept
  (\<^verbatim>\<open>concepts/PacketCodec.hpp\<close>).

  A codec is a record of the operations that the concept requires, so that channels and sessions
  take it as the template parameter it is. \<open>encode\<close> takes the packet and the output buffer and
  returns the size it reports together with the buffer it leaves. The default codec is written
  field by field as in the source; the lemmas show that it lays out one frame, that decoding
  inverts encoding and encoding inverts decoding, and that the FNV-1a checksum detects every
  corruption of a single byte.
\<close>

section \<open>The codec interface\<close>

record PacketCodec =
  cdc_encode :: "Packet \<Rightarrow> bytes \<Rightarrow> nat \<times> bytes"
  cdc_decode :: "bytes \<Rightarrow> Error + Packet"
  cdc_maxOverhead :: nat
  cdc_version :: u8

section \<open>Byte helpers (little endian)\<close>

definition writeU16 :: "u16 \<Rightarrow> bytes" where
  "writeU16 v = [ucast v, ucast (drop_bit 8 v)]"

definition writeU32 :: "u32 \<Rightarrow> bytes" where
  "writeU32 v = [ucast v, ucast (drop_bit 8 v), ucast (drop_bit 16 v), ucast (drop_bit 24 v)]"

definition readU16 :: "bytes \<Rightarrow> nat \<Rightarrow> u16" where
  "readU16 p i = ucast (p ! i) OR push_bit 8 (ucast (p ! (i + 1)))"

definition readU32 :: "bytes \<Rightarrow> nat \<Rightarrow> u32" where
  "readU32 p i = ucast (p ! i) OR push_bit 8 (ucast (p ! (i + 1)))
     OR push_bit 16 (ucast (p ! (i + 2))) OR push_bit 24 (ucast (p ! (i + 3)))"

text \<open>The FNV-1a loop over the first \<open>len\<close> bytes, from the offset basis.\<close>

fun checksumLoop :: "bytes \<Rightarrow> u32 \<Rightarrow> u32" where
  "checksumLoop [] h = h"
| "checksumLoop (b # bs) h = checksumLoop bs ((h XOR ucast b) * 16777619)"

definition checksum :: "bytes \<Rightarrow> nat \<Rightarrow> u32" where
  "checksum p len = checksumLoop (take len p) 2166136261"

section \<open>The default codec\<close>

definition kHeaderSize :: nat where "kHeaderSize = 10"
definition kCrcSize :: nat where "kCrcSize = 4"
definition kOverhead :: nat where "kOverhead = kHeaderSize + kCrcSize"
definition kVersion :: u8 where "kVersion = 1"

definition encode :: "Packet \<Rightarrow> bytes \<Rightarrow> nat \<times> bytes" where
  "encode pkt outBuf =
     (let total = kHeaderSize + length (pkt_payload pkt) + kCrcSize in
      if length outBuf < total then (0, outBuf)
      else
        let p = write_at 0 [pkt_type pkt] outBuf;
            p = write_at 1 (writeU16 (pkt_seq pkt)) p;
            p = write_at 3 (writeU16 (pkt_ack pkt)) p;
            p = write_at 5 (writeU32 (pkt_ackBits pkt)) p;
            p = write_at 9 [pkt_channel pkt] p;
            p = write_at kHeaderSize (pkt_payload pkt) p;
            crc = checksum p (kHeaderSize + length (pkt_payload pkt));
            p = write_at (kHeaderSize + length (pkt_payload pkt)) (writeU32 crc) p
        in (total, p))"

definition decode :: "bytes \<Rightarrow> Error + Packet" where
  "decode inBuf =
     (if length inBuf < kHeaderSize + kCrcSize then Inl BadPacket
      else
        let payloadSize = length inBuf - kHeaderSize - kCrcSize;
            storedCrc = readU32 inBuf (kHeaderSize + payloadSize);
            computedCrc = checksum inBuf (kHeaderSize + payloadSize)
        in if storedCrc \<noteq> computedCrc then Inl BadPacket
           else Inr \<lparr>pkt_type = inBuf ! 0, pkt_seq = readU16 inBuf 1, pkt_ack = readU16 inBuf 3,
                  pkt_ackBits = readU32 inBuf 5, pkt_channel = inBuf ! 9,
                  pkt_payload = take payloadSize (drop kHeaderSize inBuf),
                  pkt_crc = storedCrc\<rparr>)"

definition maxOverhead :: nat where "maxOverhead = kOverhead"
definition version :: u8 where "version = kVersion"

definition DefaultCodec :: PacketCodec where
  "DefaultCodec = \<lparr>cdc_encode = encode, cdc_decode = decode, cdc_maxOverhead = maxOverhead,
     cdc_version = version\<rparr>"

section \<open>The frame\<close>

text \<open>
  The documented wire layout as a specification: header, payload, checksum of both.
\<close>

definition frameHead :: "Packet \<Rightarrow> bytes" where
  "frameHead pkt = [pkt_type pkt] @ writeU16 (pkt_seq pkt) @ writeU16 (pkt_ack pkt)
     @ writeU32 (pkt_ackBits pkt) @ [pkt_channel pkt]"

definition frameBody :: "Packet \<Rightarrow> bytes" where
  "frameBody pkt = frameHead pkt @ pkt_payload pkt"

definition frameCrc :: "Packet \<Rightarrow> u32" where
  "frameCrc pkt = checksumLoop (frameBody pkt) 2166136261"

definition frame :: "Packet \<Rightarrow> bytes" where
  "frame pkt = frameBody pkt @ writeU32 (frameCrc pkt)"

lemma length_writeU16 [simp]: "length (writeU16 v) = 2"
  by (simp add: writeU16_def)

lemma length_writeU32 [simp]: "length (writeU32 v) = 4"
  by (simp add: writeU32_def)

lemma length_frameHead [simp]: "length (frameHead pkt) = 10"
  by (simp add: frameHead_def)

lemma length_frameBody [simp]: "length (frameBody pkt) = 10 + length (pkt_payload pkt)"
  by (simp add: frameBody_def)

lemma length_frame [simp]: "length (frame pkt) = 14 + length (pkt_payload pkt)"
  by (simp add: frame_def)

lemmas codec_consts = kHeaderSize_def kCrcSize_def kOverhead_def maxOverhead_def

text \<open>The field-by-field writes of \<open>encode\<close> lay out exactly the frame.\<close>

lemma encode_header:
  assumes "14 + length (pkt_payload pkt) \<le> length out"
  shows "write_at 10 (pkt_payload pkt) (write_at 9 [pkt_channel pkt]
      (write_at 5 (writeU32 (pkt_ackBits pkt)) (write_at 3 (writeU16 (pkt_ack pkt))
        (write_at 1 (writeU16 (pkt_seq pkt)) (write_at 0 [pkt_type pkt] out)))))
    = write_at 0 (frameBody pkt) out"
proof -
  let ?t = "[pkt_type pkt]"
  let ?s = "?t @ writeU16 (pkt_seq pkt)"
  let ?a = "?s @ writeU16 (pkt_ack pkt)"
  let ?b = "?a @ writeU32 (pkt_ackBits pkt)"
  have "write_at 1 (writeU16 (pkt_seq pkt)) (write_at 0 ?t out) = write_at 0 ?s out"
    using write_at_append [of 0 ?t "writeU16 (pkt_seq pkt)" out] assms by simp
  moreover have "write_at 3 (writeU16 (pkt_ack pkt)) (write_at 0 ?s out) = write_at 0 ?a out"
    using write_at_append [of 0 ?s "writeU16 (pkt_ack pkt)" out] assms by simp
  moreover have "write_at 5 (writeU32 (pkt_ackBits pkt)) (write_at 0 ?a out) = write_at 0 ?b out"
    using write_at_append [of 0 ?a "writeU32 (pkt_ackBits pkt)" out] assms by simp
  moreover have "write_at 9 [pkt_channel pkt] (write_at 0 ?b out)
      = write_at 0 (frameHead pkt) out"
    using write_at_append [of 0 ?b "[pkt_channel pkt]" out] assms by (simp add: frameHead_def)
  moreover have "write_at 10 (pkt_payload pkt) (write_at 0 (frameHead pkt) out)
      = write_at 0 (frameBody pkt) out"
    using write_at_append [of 0 "frameHead pkt" "pkt_payload pkt" out] assms
    by (simp add: frameBody_def)
  ultimately show ?thesis by simp
qed

lemma encode_frame:
  assumes "14 + length (pkt_payload pkt) \<le> length out"
  shows "encode pkt out = (14 + length (pkt_payload pkt), frame pkt @ drop (length (frame pkt)) out)"
proof -
  have "checksum (write_at 0 (frameBody pkt) out) (10 + length (pkt_payload pkt)) = frameCrc pkt"
    using assms by (simp add: checksum_def write_at_0 frameCrc_def)
  moreover have "write_at (10 + length (pkt_payload pkt)) (writeU32 (frameCrc pkt))
      (write_at 0 (frameBody pkt) out) = write_at 0 (frame pkt) out"
    using write_at_append [of 0 "frameBody pkt" "writeU32 (frameCrc pkt)" out] assms
    by (simp add: frame_def)
  ultimately have "encode pkt out = (14 + length (pkt_payload pkt), write_at 0 (frame pkt) out)"
    using assms
    by (simp add: encode_def codec_consts Let_def encode_header [OF assms] del: One_nat_def)
  then show ?thesis by (simp add: write_at_0)
qed

lemma encode_too_small: "length out < 14 + length (pkt_payload pkt) \<Longrightarrow> encode pkt out = (0, out)"
  by (simp add: encode_def codec_consts)

section \<open>Round trips\<close>

lemma readU16_writeU16: "readU16 (xs @ writeU16 v @ ys) (length xs) = v"
  by (rule bit_word_eqI) (auto simp: readU16_def writeU16_def nth_append bit_simps)

lemma readU32_writeU32: "readU32 (xs @ writeU32 v @ ys) (length xs) = v"
proof (rule bit_word_eqI)
  fix n assume "n < LENGTH(32)"
  then show "bit (readU32 (xs @ writeU32 v @ ys) (length xs)) n = bit v n"
    by (cases "n < 24"; cases "n < 16")
      (auto simp: readU32_def writeU32_def nth_append bit_simps)
qed

lemma bit_u8D: "bit (b :: u8) (8 + n) \<Longrightarrow> False" "bit b (16 + n) \<Longrightarrow> False"
  "bit b (24 + n) \<Longrightarrow> False"
  using bit_imp_le_length [of b] by fastforce+

lemma writeU16_readU16: "writeU16 (readU16 p i) = [p ! i, p ! (i + 1)]"
  by (auto simp: readU16_def writeU16_def bit_simps dest: bit_u8D intro!: bit_word_eqI)

lemma writeU32_readU32: "writeU32 (readU32 p i) = [p ! i, p ! (i + 1), p ! (i + 2), p ! (i + 3)]"
  by (auto simp: readU32_def writeU32_def bit_simps dest: bit_u8D intro!: bit_word_eqI)

lemma readU16_prefix: "i + 1 < length xs \<Longrightarrow> readU16 (xs @ ys) i = readU16 xs i"
  by (simp add: readU16_def nth_append)

lemma readU32_prefix: "i + 3 < length xs \<Longrightarrow> readU32 (xs @ ys) i = readU32 xs i"
  by (simp add: readU32_def nth_append)

lemma frame_fields:
  "frame pkt ! 0 = pkt_type pkt" "readU16 (frame pkt) 1 = pkt_seq pkt"
  "readU16 (frame pkt) 3 = pkt_ack pkt" "readU32 (frame pkt) 5 = pkt_ackBits pkt"
  "frame pkt ! 9 = pkt_channel pkt"
  "readU32 (frame pkt) (10 + length (pkt_payload pkt)) = frameCrc pkt"
proof -
  let ?t = "[pkt_type pkt]" and ?s = "writeU16 (pkt_seq pkt)" and ?a = "writeU16 (pkt_ack pkt)"
    and ?b = "writeU32 (pkt_ackBits pkt)" and ?c = "[pkt_channel pkt]"
    and ?r = "pkt_payload pkt @ writeU32 (frameCrc pkt)"
  have f: "frame pkt = ?t @ ?s @ ?a @ ?b @ ?c @ ?r"
    by (simp add: frame_def frameBody_def frameHead_def)
  show "frame pkt ! 0 = pkt_type pkt" by (simp add: f)
  show "readU16 (frame pkt) 1 = pkt_seq pkt"
    using readU16_writeU16 [of ?t "pkt_seq pkt" "?a @ ?b @ ?c @ ?r"] by (simp add: f)
  show "readU16 (frame pkt) 3 = pkt_ack pkt"
    using readU16_writeU16 [of "?t @ ?s" "pkt_ack pkt" "?b @ ?c @ ?r"] by (simp add: f)
  show "readU32 (frame pkt) 5 = pkt_ackBits pkt"
    using readU32_writeU32 [of "?t @ ?s @ ?a" "pkt_ackBits pkt" "?c @ ?r"] by (simp add: f)
  show "frame pkt ! 9 = pkt_channel pkt" by (simp add: f nth_append)
  show "readU32 (frame pkt) (10 + length (pkt_payload pkt)) = frameCrc pkt"
    using readU32_writeU32 [of "frameBody pkt" "frameCrc pkt" "[]"] by (simp add: frame_def)
qed

lemma decode_frame: "decode (frame pkt) = Inr (pkt\<lparr>pkt_crc := frameCrc pkt\<rparr>)"
proof -
  have "checksum (frame pkt) (10 + length (pkt_payload pkt)) = frameCrc pkt"
    by (simp add: checksum_def frame_def frameCrc_def)
  moreover have "take (length (pkt_payload pkt)) (drop 10 (frame pkt)) = pkt_payload pkt"
    by (simp add: frame_def frameBody_def)
  ultimately show ?thesis
    by (simp add: decode_def codec_consts Let_def frame_fields [unfolded One_nat_def] diff_diff_eq)
qed

lemma take_10_nth:
  "10 \<le> length bs \<Longrightarrow>
    take 10 bs = [bs ! 0, bs ! 1, bs ! 2, bs ! 3, bs ! 4, bs ! 5, bs ! 6, bs ! 7, bs ! 8, bs ! 9]"
  by (rule nth_equalityI) (auto simp: numeral_eq_Suc less_Suc_eq)

lemma drop_4_nth:
  assumes "length bs = k + 4"
  shows "drop k bs = [bs ! k, bs ! (k + 1), bs ! (k + 2), bs ! (k + 3)]"
  using assms by (simp add: numeral_eq_Suc Cons_nth_drop_Suc [symmetric])

lemma decode_Inr_iff:
  "decode bs = Inr pkt \<longleftrightarrow> bs = frame pkt \<and> pkt_crc pkt = frameCrc pkt"
proof
  assume d: "decode bs = Inr pkt"
  define k where "k = length bs - 14"
  have len: "length bs = 10 + k + 4"
    using d by (simp add: k_def decode_def codec_consts split: if_splits)
  have crc: "readU32 bs (10 + k) = checksum bs (10 + k)" and
    pkt: "pkt = \<lparr>pkt_type = bs ! 0, pkt_seq = readU16 bs 1, pkt_ack = readU16 bs 3,
                  pkt_ackBits = readU32 bs 5, pkt_channel = bs ! 9,
                  pkt_payload = take k (drop 10 bs), pkt_crc = readU32 bs (10 + k)\<rparr>"
    using d len by (simp_all add: decode_def codec_consts Let_def split: if_splits)
  have "frameHead pkt = take 10 bs"
    using take_10_nth [of bs] len by (simp add: pkt frameHead_def writeU16_readU16 writeU32_readU32 flip: numeral_2_eq_2)
  then have body: "frameBody pkt = take (10 + k) bs"
    by (simp add: frameBody_def take_add) (simp add: pkt)
  then have c: "frameCrc pkt = readU32 bs (10 + k)"
    by (simp add: frameCrc_def crc checksum_def)
  have "writeU32 (frameCrc pkt) = drop (10 + k) bs"
    using drop_4_nth [OF len] by (simp add: c writeU32_readU32)
  then have "bs = frame pkt"
    unfolding frame_def body by (metis append_take_drop_id)
  then show "bs = frame pkt \<and> pkt_crc pkt = frameCrc pkt"
    by (simp add: c) (simp add: pkt)
next
  assume "bs = frame pkt \<and> pkt_crc pkt = frameCrc pkt"
  then show "decode bs = Inr pkt"
    using decode_frame [of pkt] by (metis Packet.surjective Packet.update_convs(7))
qed

section \<open>Corruption\<close>

text \<open>One FNV-1a step is injective in the running hash: its prime is odd, hence a unit.\<close>

lemma fnv_prime_unit: "(16777619 :: u32) * 899433627 = 1"
  by simp

lemma fnv_mult_inject: "(x :: u32) * 16777619 = y * 16777619 \<longleftrightarrow> x = y"
proof
  assume "x * 16777619 = y * 16777619"
  then have "x * (16777619 * 899433627) = y * (16777619 * 899433627)"
    by (simp only: mult.assoc [symmetric])
  then show "x = y" unfolding fnv_prime_unit by simp
qed simp

lemma xor_left_inject: "(x :: 'a :: len word) XOR z = y XOR z \<longleftrightarrow> x = y"
  by (metis xor.assoc xor.right_neutral xor_self_eq)

lemma xor_right_inject: "(z :: 'a :: len word) XOR x = z XOR y \<longleftrightarrow> x = y"
  by (metis xor.commute xor_left_inject)

lemma ucast_u32_u8: "(ucast (ucast (x :: u8) :: u32) :: u8) = x"
  by (rule bit_word_eqI) (simp add: bit_simps)

lemma ucast_u8_inject: "(ucast (x :: u8) :: u32) = ucast y \<longleftrightarrow> x = y"
  using ucast_u32_u8 by metis

lemma checksumLoop_inject: "checksumLoop bs h = checksumLoop bs h' \<longleftrightarrow> h = h'"
  by (induction bs arbitrary: h h') (auto simp: fnv_mult_inject xor_left_inject)

lemma checksumLoop_corrupt:
  "i < length bs \<Longrightarrow> b \<noteq> bs ! i \<Longrightarrow> checksumLoop (bs[i := b]) h \<noteq> checksumLoop bs h"
proof (induction bs arbitrary: i h)
  case (Cons c bs)
  then show ?case
    by (cases i)
      (auto simp: checksumLoop_inject fnv_mult_inject xor_right_inject ucast_u8_inject)
qed simp

lemma writeU32_inject: "writeU32 v = writeU32 w \<longleftrightarrow> v = w"
  using readU32_writeU32 [of "[]" _ "[]"] by (metis append.right_neutral append_Nil)

lemma decode_Inl: "decode bs = Inl e \<Longrightarrow> e = BadPacket"
  by (auto simp: decode_def Let_def split: if_splits)

lemma frame_corrupt:
  assumes "i < length (frame p)" and "b \<noteq> frame p ! i"
  shows "(frame p)[i := b] \<noteq> frame q"
proof
  assume eq: "(frame p)[i := b] = frame q"
  have len: "length (pkt_payload q) = length (pkt_payload p)"
    using arg_cong [OF eq, of length] by simp
  show False
  proof (cases "i < length (frameBody p)")
    case True
    then have "(frameBody p)[i := b] = frameBody q" and "frameCrc p = frameCrc q"
      using eq len by (simp_all add: frame_def list_update_append writeU32_inject)
    moreover have "b \<noteq> frameBody p ! i"
      using True assms(2) by (simp add: frame_def nth_append)
    ultimately show False
      using checksumLoop_corrupt [OF True] by (metis frameCrc_def)
  next
    case False
    then have "frameBody p = frameBody q"
      using eq len by (simp add: frame_def list_update_append)
    then have "frame p = frame q" by (simp add: frame_def frameCrc_def)
    then show False
      using eq assms by (metis nth_list_update_eq)
  qed
qed

section \<open>The contract of a codec\<close>

text \<open>
  What channels and sessions rely on: a buffer with \<open>maxOverhead\<close> bytes to spare is enough, the
  reported size is positive and within the buffer, and the bytes written decode to the packet
  (the checksum field aside, which the decoder fills in).
\<close>

locale packet_codec =
  fixes codec :: PacketCodec
  assumes encode_fits:
    "length (pkt_payload p) + cdc_maxOverhead codec \<le> length out \<Longrightarrow>
      cdc_encode codec p out = (n, out') \<Longrightarrow>
      0 < n \<and> n \<le> length out \<and> length out' = length out"
    and decode_encode:
    "length (pkt_payload p) + cdc_maxOverhead codec \<le> length out \<Longrightarrow>
      cdc_encode codec p out = (n, out') \<Longrightarrow>
      \<exists>c. cdc_decode codec (take n out') = Inr (p\<lparr>pkt_crc := c\<rparr>)"

interpretation default_codec: packet_codec DefaultCodec
proof unfold_locales
  fix p :: Packet and out out' :: bytes and n :: nat
  assume "length (pkt_payload p) + cdc_maxOverhead DefaultCodec \<le> length out"
    and "cdc_encode DefaultCodec p out = (n, out')"
  then have len: "14 + length (pkt_payload p) \<le> length out"
    and n: "n = 14 + length (pkt_payload p)" and out': "out' = frame p @ drop n out"
    by (auto simp: DefaultCodec_def codec_consts encode_frame)
  show "0 < n \<and> n \<le> length out \<and> length out' = length out"
    using len by (simp add: n out')
  show "\<exists>c. cdc_decode DefaultCodec (take n out') = Inr (p\<lparr>pkt_crc := c\<rparr>)"
    using decode_frame [of p] by (auto simp: n out' DefaultCodec_def)
qed

section \<open>Properties\<close>

text \<open>
  C9: the default codec round-trips every packet through any output buffer with 14 bytes of room
  beyond the payload: \<open>encode\<close> reports 14 plus the payload size, leaves the rest of the buffer
  alone, and \<open>decode\<close> of the bytes it wrote returns the packet with its checksum filled in.
\<close>

theorem codec_roundtrip:
  assumes "length (pkt_payload pkt) + maxOverhead \<le> length out"
  shows "\<exists>buf. encode pkt out = (14 + length (pkt_payload pkt), buf)
    \<and> length buf = length out
    \<and> drop (14 + length (pkt_payload pkt)) buf = drop (14 + length (pkt_payload pkt)) out
    \<and> decode (take (14 + length (pkt_payload pkt)) buf) = Inr (pkt\<lparr>pkt_crc := frameCrc pkt\<rparr>)"
  using assms by (simp add: codec_consts encode_frame decode_frame)

definition samplePacket :: Packet where
  "samplePacket = newPacket\<lparr>pkt_seq := 42, pkt_ack := 40, pkt_ackBits := 3, pkt_channel := 3,
     pkt_payload := [0x70, 0x61]\<rparr>"

theorem codec_roundtrip_witness:
  "length (pkt_payload samplePacket) + maxOverhead \<le> length (replicate 20 (0 :: u8))
   \<and> (\<exists>buf. encode samplePacket (replicate 20 0) = (16, buf)
      \<and> decode (take 16 buf) = Inr (samplePacket\<lparr>pkt_crc := frameCrc samplePacket\<rparr>))"
proof -
  have h: "length (pkt_payload samplePacket) + maxOverhead \<le> length (replicate 20 (0 :: u8))"
    by (simp add: samplePacket_def codec_consts)
  show ?thesis
    using h codec_roundtrip [OF h] by (auto simp: samplePacket_def)
qed

text \<open>
  C36: decoding is injective and encoding inverts it: a datagram that \<open>decode\<close> accepts is, byte
  for byte, the datagram \<open>encode\<close> produces for the decoded packet.
\<close>

theorem decode_then_encode:
  assumes "decode bs = Inr pkt"
  shows "encode pkt (replicate (length bs) 0) = (length bs, bs)"
  using assms by (simp add: decode_Inr_iff encode_frame)

theorem decode_then_encode_witness:
  "decode (frame samplePacket) = Inr (samplePacket\<lparr>pkt_crc := frameCrc samplePacket\<rparr>)
   \<and> encode (samplePacket\<lparr>pkt_crc := frameCrc samplePacket\<rparr>)
        (replicate (length (frame samplePacket)) 0)
      = (length (frame samplePacket), frame samplePacket)"
  using decode_then_encode [OF decode_frame [of samplePacket]] decode_frame [of samplePacket]
  by simp

text \<open>
  C23: the checksum catches every single-byte corruption, wherever it hits (header, payload or
  the checksum itself): a frame the decoder accepts, with any one byte replaced by a different
  byte, is rejected with \<open>BadPacket\<close>.
\<close>

theorem single_byte_corruption_rejected:
  assumes "decode bs = Inr pkt" and "i < length bs" and "b \<noteq> bs ! i"
  shows "decode (bs[i := b]) = Inl BadPacket"
proof -
  have "bs = frame pkt" using assms(1) by (simp add: decode_Inr_iff)
  then have "decode (bs[i := b]) \<noteq> Inr q" for q
    using frame_corrupt [of i pkt b q] assms(2,3) by (simp add: decode_Inr_iff)
  then show ?thesis
    by (cases "decode (bs[i := b])") (auto dest: decode_Inl)
qed

theorem single_byte_corruption_rejected_witness:
  "decode (frame samplePacket) = Inr (samplePacket\<lparr>pkt_crc := frameCrc samplePacket\<rparr>)
   \<and> decode ((frame samplePacket)[0 := 0xFF]) = Inl BadPacket"
proof -
  have "0 < length (frame samplePacket)" and "0xFF \<noteq> frame samplePacket ! 0"
    by (simp_all add: frame_fields) (simp add: samplePacket_def newPacket_def Data_def)
  then show ?thesis
    using single_byte_corruption_rejected [OF decode_frame [of samplePacket]] decode_frame
    by simp
qed

end
