(* ===== verification/Rude_ChannelCommon.thy ===== *)
theory Rude_ChannelCommon
  imports Rude_Codec
begin

text \<open>
  \<^verbatim>\<open>detail/channel/ChannelCommon.hpp\<close>: the receive queue of a channel, wrap-around sequence
  comparison, the acknowledgement tracker of the receive side and the acknowledgement test of the
  send side.

  \<open>markReceived\<close> shifts a 32-bit value by up to 32. A shift by the width is undefined in C++;
  the model returns \<open>None\<close> there, and every operation that calls it passes the \<open>None\<close> on.
\<close>

section \<open>Receive queue\<close>

record PendingRecv =
  pr_size :: nat
  pr_handler :: handler

text \<open>Copy what fits into the caller's buffer and run its handler.\<close>

definition completeRecv :: "PendingRecv \<Rightarrow> bytes \<Rightarrow> 'ep effect list" where
  "completeRecv p message =
     (let size = min (length message) (pr_size p)
      in [CompleteRecv (pr_handler p) NoError size (take size message)])"

definition deliverOrQueue ::
  "bytes list \<Rightarrow> PendingRecv option \<Rightarrow> bytes \<Rightarrow> bytes list \<times> PendingRecv option \<times> 'ep effect list"
  where
  "deliverOrQueue queuedMessages pending payload =
     (case pending of
        None \<Rightarrow> (queuedMessages @ [payload], None, [])
      | Some recv \<Rightarrow> (queuedMessages, None, completeRecv recv payload))"

definition asyncRecvQ ::
  "bytes list \<Rightarrow> PendingRecv option \<Rightarrow> nat \<Rightarrow> handler
    \<Rightarrow> bytes list \<times> PendingRecv option \<times> 'ep effect list"
  where
  "asyncRecvQ queuedMessages pending buf h =
     (case queuedMessages of
        message # rest \<Rightarrow>
          (rest, pending, completeRecv \<lparr>pr_size = buf, pr_handler = h\<rparr> message)
      | [] \<Rightarrow>
          (case pending of
             Some _ \<Rightarrow> ([], pending, [CompleteRecv h (makeErrorCode ChannelClosed) 0 []])
           | None \<Rightarrow> ([], Some \<lparr>pr_size = buf, pr_handler = h\<rparr>, [])))"

record RecvQueue =
  rq_queued :: "bytes list"
  rq_pending :: "PendingRecv option"
  rq_closed :: bool
  rq_closeReason :: error_code

definition newRecvQueue :: RecvQueue where
  "newRecvQueue = \<lparr>rq_queued = [], rq_pending = None, rq_closed = False, rq_closeReason = NoError\<rparr>"

definition rq_asyncRecv :: "nat \<Rightarrow> handler \<Rightarrow> RecvQueue \<Rightarrow> RecvQueue \<times> 'ep effect list" where
  "rq_asyncRecv buf h q =
     (if rq_queued q = [] \<and> rq_closed q then (q, [CompleteRecv h (rq_closeReason q) 0 []])
      else
        let (msgs, pend, effs) = asyncRecvQ (rq_queued q) (rq_pending q) buf h
        in (q\<lparr>rq_queued := msgs, rq_pending := pend\<rparr>, effs))"

definition rq_deliver :: "bytes \<Rightarrow> RecvQueue \<Rightarrow> RecvQueue \<times> 'ep effect list" where
  "rq_deliver payload q =
     (let (msgs, pend, effs) = deliverOrQueue (rq_queued q) (rq_pending q) payload
      in (q\<lparr>rq_queued := msgs, rq_pending := pend\<rparr>, effs))"

definition rq_close :: "error_code \<Rightarrow> RecvQueue \<Rightarrow> RecvQueue \<times> 'ep effect list" where
  "rq_close reason q =
     (let q = q\<lparr>rq_closed := True, rq_closeReason := reason\<rparr>
      in case rq_pending q of
           None \<Rightarrow> (q, [])
         | Some recv \<Rightarrow> (q\<lparr>rq_pending := None\<rparr>, [CompleteRecv (pr_handler recv) reason 0 []]))"

section \<open>Sequence comparison\<close>

definition isNewerSequence :: "u16 \<Rightarrow> u16 \<Rightarrow> bool" where
  "isNewerSequence s prev = (let delta = s - prev in delta \<noteq> 0 \<and> delta < 32768)"

definition isStaleOrDuplicate :: "u16 \<Rightarrow> u16 \<Rightarrow> bool" where
  "isStaleOrDuplicate s prev = (\<not> isNewerSequence s prev)"

section \<open>Acknowledgement tracking\<close>

record ReceiveAckTracker =
  hasReceived :: bool
  latestSequence :: u16
  ackBits :: u32

definition newTracker :: ReceiveAckTracker where
  "newTracker = \<lparr>hasReceived = False, latestSequence = 0, ackBits = 0\<rparr>"

text \<open>C++ left shift of a 32-bit unsigned value; undefined at or above the width.\<close>

definition shl32 :: "u32 \<Rightarrow> nat \<Rightarrow> u32 option" where
  "shl32 x n = (if n < 32 then Some (push_bit n x) else None)"

definition markReceived :: "u16 \<Rightarrow> ReceiveAckTracker \<Rightarrow> ReceiveAckTracker option" where
  "markReceived s t =
     (if \<not> hasReceived t then
        Some (t\<lparr>hasReceived := True, latestSequence := s, ackBits := 0\<rparr>)
      else
        let forwardDelta = s - latestSequence t in
        if forwardDelta = 0 then Some t
        else if forwardDelta < 32768 then
          (if forwardDelta \<le> 32 then
             do {
               shifted \<leftarrow> shl32 (ackBits t) (unat forwardDelta);
               one \<leftarrow> shl32 1 (unat (forwardDelta - 1));
               Some (t\<lparr>ackBits := shifted OR one, latestSequence := s\<rparr>)
             }
           else Some (t\<lparr>ackBits := 0, latestSequence := s\<rparr>))
        else
          let backDelta = latestSequence t - s in
          if 1 \<le> backDelta \<and> backDelta \<le> 32 then
            do {
              one \<leftarrow> shl32 1 (unat (backDelta - 1));
              Some (t\<lparr>ackBits := ackBits t OR one\<rparr>)
            }
          else Some t)"

definition isAcknowledged :: "u16 \<Rightarrow> u16 \<Rightarrow> u32 \<Rightarrow> bool" where
  "isAcknowledged s ack bits =
     (if s = ack then True
      else
        let backDelta = ack - s in
        if backDelta = 0 \<or> 32 < backDelta \<or> 32768 \<le> backDelta then False
        else (bits AND push_bit (unat (backDelta - 1)) 1) \<noteq> 0)"

section \<open>The contract of a receive queue\<close>

text \<open>
  The messages that a list of effects hands to receivers, each as its buffer saw it, and the
  handlers that it completes.
\<close>

fun received :: "'ep effect list \<Rightarrow> bytes list" where
  "received [] = []"
| "received (CompleteRecv h ec n bs # es) = (if failed ec then received es else bs # received es)"
| "received (_ # es) = received es"

fun completedRecvs :: "'ep effect list \<Rightarrow> handler list" where
  "completedRecvs [] = []"
| "completedRecvs (CompleteRecv h ec n bs # es) = h # completedRecvs es"
| "completedRecvs (_ # es) = completedRecvs es"

text \<open>
  \<open>handedOut es ms\<close>: the successful receives completed in \<open>es\<close> got exactly the messages
  \<open>ms\<close>, in order, each cut to the receiver's buffer.
\<close>

definition handedOut :: "'ep effect list \<Rightarrow> bytes list \<Rightarrow> bool" where
  "handedOut es ms \<longleftrightarrow> list_all2 (\<lambda>bs m. \<exists>k. bs = take k m) (received es) ms"

datatype rq_op = Deliver bytes | Recv nat handler | Close error_code

fun rq_step ::
  "(bytes \<Rightarrow> 'q \<Rightarrow> 'q \<times> 'ep effect list) \<Rightarrow> (nat \<Rightarrow> handler \<Rightarrow> 'q \<Rightarrow> 'q \<times> 'ep effect list)
    \<Rightarrow> (error_code \<Rightarrow> 'q \<Rightarrow> 'q \<times> 'ep effect list) \<Rightarrow> rq_op \<Rightarrow> 'q \<Rightarrow> 'q \<times> 'ep effect list" where
  "rq_step deliver recv close (Deliver m) q = deliver m q"
| "rq_step deliver recv close (Recv n h) q = recv n h q"
| "rq_step deliver recv close (Close ec) q = close ec q"

fun deliveries :: "rq_op list \<Rightarrow> bytes list" where
  "deliveries [] = []"
| "deliveries (Deliver m # ops) = m # deliveries ops"
| "deliveries (_ # ops) = deliveries ops"

fun receivers :: "rq_op list \<Rightarrow> handler list" where
  "receivers [] = []"
| "receivers (Recv n h # ops) = h # receivers ops"
| "receivers (_ # ops) = receivers ops"

fun closesFail :: "rq_op list \<Rightarrow> bool" where
  "closesFail [] = True"
| "closesFail (Close ec # ops) = (failed ec \<and> closesFail ops)"
| "closesFail (_ # ops) = closesFail ops"

lemma received_append [simp]: "received (es @ fs) = received es @ received fs"
  by (induction es rule: received.induct) auto

lemma completedRecvs_append [simp]:
  "completedRecvs (es @ fs) = completedRecvs es @ completedRecvs fs"
  by (induction es rule: completedRecvs.induct) auto

lemma handedOut_Nil [simp]: "handedOut [] []"
  by (simp add: handedOut_def)

lemma handedOut_append: "handedOut es ms \<Longrightarrow> handedOut fs ns \<Longrightarrow> handedOut (es @ fs) (ms @ ns)"
  by (simp add: handedOut_def list_all2_appendI)

locale recv_queue =
  fixes deliver :: "bytes \<Rightarrow> 'q \<Rightarrow> 'q \<times> 'ep effect list"
    and recv :: "nat \<Rightarrow> handler \<Rightarrow> 'q \<Rightarrow> 'q \<times> 'ep effect list"
    and close :: "error_code \<Rightarrow> 'q \<Rightarrow> 'q \<times> 'ep effect list"
    and queued :: "'q \<Rightarrow> bytes list"
    and parked :: "'q \<Rightarrow> handler list"
    and inv :: "'q \<Rightarrow> bool"
  assumes deliver_inv: "inv q \<Longrightarrow> deliver m q = (q', es) \<Longrightarrow> inv q'"
    and recv_inv: "inv q \<Longrightarrow> recv n h q = (q', es) \<Longrightarrow> inv q'"
    and close_inv: "inv q \<Longrightarrow> failed ec \<Longrightarrow> close ec q = (q', es) \<Longrightarrow> inv q'"
    and deliver_fifo: "inv q \<Longrightarrow> deliver m q = (q', es) \<Longrightarrow>
      \<exists>ms. handedOut es ms \<and> queued q @ [m] = ms @ queued q'"
    and recv_fifo: "inv q \<Longrightarrow> recv n h q = (q', es) \<Longrightarrow>
      \<exists>ms. handedOut es ms \<and> queued q = ms @ queued q'"
    and close_fifo: "inv q \<Longrightarrow> failed ec \<Longrightarrow> close ec q = (q', es) \<Longrightarrow>
      handedOut es [] \<and> queued q = queued q'"
    and deliver_parked: "inv q \<Longrightarrow> deliver m q = (q', es) \<Longrightarrow>
      mset (completedRecvs es) + mset (parked q') = mset (parked q)"
    and recv_parked: "inv q \<Longrightarrow> recv n h q = (q', es) \<Longrightarrow>
      mset (completedRecvs es) + mset (parked q') = add_mset h (mset (parked q))"
    and close_parked: "inv q \<Longrightarrow> failed ec \<Longrightarrow> close ec q = (q', es) \<Longrightarrow>
      mset (completedRecvs es) + mset (parked q') = mset (parked q)"
begin

abbreviation step :: "rq_op \<Rightarrow> 'q \<Rightarrow> 'q \<times> 'ep effect list" where
  "step \<equiv> rq_step deliver recv close"

lemma step_laws:
  assumes "inv q" and "closesFail [x]" and "step x q = (q', es)"
  shows "inv q'"
    and "\<exists>ms. handedOut es ms \<and> queued q @ deliveries [x] = ms @ queued q'"
    and "mset (completedRecvs es) + mset (parked q') = mset (receivers [x]) + mset (parked q)"
  using assms
  by (cases x; force dest: deliver_inv recv_inv close_inv deliver_fifo recv_fifo close_fifo
      deliver_parked recv_parked close_parked)+

lemma deliveries_Cons: "deliveries (x # xs) = deliveries [x] @ deliveries xs"
  by (cases x) simp_all

lemma receivers_Cons: "receivers (x # xs) = receivers [x] @ receivers xs"
  by (cases x) simp_all

lemma closesFail_Cons: "closesFail (x # xs) \<longleftrightarrow> closesFail [x] \<and> closesFail xs"
  by (cases x) simp_all

theorem run_laws:
  assumes "inv q" and "closesFail ops" and "runOps step ops q = (q', es)"
  shows "inv q' \<and> (\<exists>ms. handedOut es ms \<and> queued q @ deliveries ops = ms @ queued q')
    \<and> mset (completedRecvs es) + mset (parked q') = mset (receivers ops) + mset (parked q)"
  using assms
proof (induction ops arbitrary: q es)
  case Nil
  then show ?case by (auto intro: exI [of _ "[]"])
next
  case (Cons x ops)
  obtain q1 es1 where s: "step x q = (q1, es1)" by fastforce
  obtain es2 where r: "runOps step ops q1 = (q', es2)" and es: "es = es1 @ es2"
    using Cons.prems(3) s by (auto split: prod.splits)
  note cf = Cons.prems(2) [unfolded closesFail_Cons [of x ops]]
  note l = step_laws [OF Cons.prems(1) conjunct1 [OF cf] s]
  note ih = Cons.IH [OF l(1) conjunct2 [OF cf] r]
  obtain ms1 ms2 where ms: "handedOut es1 ms1" "queued q @ deliveries [x] = ms1 @ queued q1"
    "handedOut es2 ms2" "queued q1 @ deliveries ops = ms2 @ queued q'"
    using l(2) ih by blast
  have "queued q @ deliveries (x # ops) = (ms1 @ ms2) @ queued q'"
    using ms(2,4) unfolding deliveries_Cons [of x ops] by (metis append_assoc)
  moreover have "handedOut es (ms1 @ ms2)"
    using ms(1,3) by (simp add: es handedOut_append)
  moreover have "mset (completedRecvs es) + mset (parked q')
      = mset (receivers (x # ops)) + mset (parked q)"
    using l(3) ih unfolding receivers_Cons [of x ops] es by (simp add: ac_simps)
  ultimately show ?case using ih by blast
qed

end

section \<open>The receive queue keeps the contract\<close>

definition rq_inv :: "RecvQueue \<Rightarrow> bool" where
  "rq_inv q \<longleftrightarrow> (rq_pending q \<noteq> None \<longrightarrow> rq_queued q = [] \<and> \<not> rq_closed q)
     \<and> (rq_closed q \<longrightarrow> failed (rq_closeReason q))"

definition rq_parked :: "RecvQueue \<Rightarrow> handler list" where
  "rq_parked q = (case rq_pending q of None \<Rightarrow> [] | Some p \<Rightarrow> [pr_handler p])"

lemmas rq_defs = rq_asyncRecv_def rq_deliver_def rq_close_def asyncRecvQ_def deliverOrQueue_def
  completeRecv_def newRecvQueue_def Let_def

interpretation rq: recv_queue rq_deliver rq_asyncRecv rq_close rq_queued rq_parked rq_inv
proof unfold_locales
  fix q q' :: RecvQueue and m :: bytes and es :: "'ep effect list" and n h ec
  assume i: "rq_inv q"
  {
    assume d: "rq_deliver m q = (q', es)"
    show "rq_inv q'" "mset (completedRecvs es) + mset (rq_parked q') = mset (rq_parked q)"
      "\<exists>ms. handedOut es ms \<and> rq_queued q @ [m] = ms @ rq_queued q'"
      using i d
      by (auto simp: rq_inv_def rq_parked_def rq_defs handedOut_def split: option.splits)
  next
    assume d: "rq_asyncRecv n h q = (q', es)"
    show "rq_inv q'" "mset (completedRecvs es) + mset (rq_parked q') = add_mset h (mset (rq_parked q))"
      "\<exists>ms. handedOut es ms \<and> rq_queued q = ms @ rq_queued q'"
      using i d
      by (auto simp: rq_inv_def rq_parked_def rq_defs handedOut_def
          split: option.splits list.splits if_splits)
  next
    assume f: "failed ec" and d: "rq_close ec q = (q', es)"
    show "rq_inv q'" "mset (completedRecvs es) + mset (rq_parked q') = mset (rq_parked q)"
      "handedOut es [] \<and> rq_queued q = rq_queued q'"
      using i d f
      by (auto simp: rq_inv_def rq_parked_def rq_defs handedOut_def split: option.splits)
  }
qed

lemma rq_inv_new [simp]: "rq_inv newRecvQueue"
  by (simp add: rq_inv_def newRecvQueue_def)

section \<open>The tracker is exact\<close>

text \<open>
  \<open>tracks t L R\<close>: with unbounded indices behind the 16-bit sequence numbers, the tracker's
  latest is the largest received index \<open>L\<close>, and bit \<open>i\<close> of the field says whether index
  \<open>L - 1 - i\<close> is in the set \<open>R\<close> of all received indices.
\<close>

definition tracks :: "ReceiveAckTracker \<Rightarrow> nat \<Rightarrow> nat set \<Rightarrow> bool" where
  "tracks t L R \<longleftrightarrow> hasReceived t \<and> latestSequence t = of_nat L \<and> L \<in> R \<and> (\<forall>n\<in>R. n \<le> L)
     \<and> (\<forall>i<32. bit (ackBits t) i \<longleftrightarrow> i < L \<and> L - Suc i \<in> R)"

text \<open>Index \<open>n\<close> is within half the sequence space of \<open>L\<close>.\<close>

definition near :: "nat \<Rightarrow> nat \<Rightarrow> bool" where
  "near L n \<longleftrightarrow> n < L + 32768 \<and> L \<le> n + 32768"

lemma markReceived_None_iff:
  "markReceived s t = None \<longleftrightarrow> hasReceived t \<and> s - latestSequence t = 32"
proof -
  have 1: "unat (d - 1) < 32" if "d \<noteq> 0" "d \<le> 32" for d :: u16
    using that by (simp add: unat_minus_one word_le_nat_alt) 
  have 2: "d = 32 \<longleftrightarrow> \<not> unat d < 32" if "d \<le> 32" for d :: u16
    using that by (auto simp: word_le_nat_alt word_unat_eq_iff)
  have 3: "d < 32768" if "d \<le> 32" for d :: u16
    using that by (simp add: word_le_nat_alt word_less_nat_alt)
  show ?thesis
    by (auto simp: markReceived_def Let_def shl32_def 1 2 dest: 3
        split: if_splits Option.bind_splits)
qed

lemma tracks_first: "\<not> hasReceived t \<Longrightarrow> \<exists>t'. markReceived (of_nat n) t = Some t' \<and> tracks t' n {n}"
  by (auto simp: markReceived_def tracks_def)

lemma tracks_ahead:
  assumes t: "tracks t L R" and n: "L < n" "n < L + 32768" "n \<noteq> L + 32"
  shows "\<exists>t'. markReceived (of_nat n) t = Some t' \<and> tracks t' n (insert n R)"
proof -
  define d where "d = n - L"
  have d: "0 < d" "d < 32768" "d \<noteq> 32" "n = L + d" using n by (auto simp: d_def)
  let ?D = "of_nat n - of_nat L :: u16"
  have D: "unat ?D = d" using d by (simp add: seq_simps)
  have nz: "?D \<noteq> 0" and lt: "?D < 32768" and le: "?D \<le> 32 \<longleftrightarrow> d < 32"
    using D d by (auto simp: word_less_nat_alt word_le_nat_alt)
  have m1: "unat (?D - 1) = d - 1" using D nz by (simp add: unat_minus_one)
  have old: "\<And>k. k \<in> R \<Longrightarrow> k \<le> L" and L: "L \<in> R"
    and b: "\<And>i. i < 32 \<Longrightarrow> bit (ackBits t) i \<longleftrightarrow> i < L \<and> L - Suc i \<in> R"
    using t by (auto simp: tracks_def)
  show ?thesis
  proof (cases "d < 32")
    case True
    have bits: "bit (push_bit d (ackBits t) OR push_bit (d - 1) 1) i
        \<longleftrightarrow> i < n \<and> n - Suc i \<in> insert n R" if "i < 32" for i
    proof (cases "i < d")
      case True
      have "n - Suc i \<in> insert n R \<longleftrightarrow> i = d - 1"
        using True d L old [of "n - Suc i"] by (cases "i = d - 1") auto
      then show ?thesis using True that d by (auto simp: bit_simps)
    next
      case False
      have "n - Suc i = L - Suc (i - d)" "n - Suc i \<noteq> n \<or> n = 0" using False d by auto
      then show ?thesis using False that d b [of "i - d"] by (auto simp: bit_simps)
    qed
    have "markReceived (of_nat n) t = Some (t\<lparr>ackBits := push_bit d (ackBits t) OR push_bit (d - 1) 1,
        latestSequence := of_nat n\<rparr>)"
      using t True nz lt le m1 D by (simp add: markReceived_def tracks_def shl32_def)
    then show ?thesis using t d old bits by (fastforce simp: tracks_def)
  next
    case False
    have "markReceived (of_nat n) t = Some (t\<lparr>ackBits := 0, latestSequence := of_nat n\<rparr>)"
      using t False nz lt le by (simp add: markReceived_def tracks_def)
    moreover have "n - Suc i \<notin> insert n R" if "i < 32" for i
      using that d False old [of "n - Suc i"] by auto
    ultimately show ?thesis using t d old by (fastforce simp: tracks_def)
  qed
qed

lemma tracks_behind:
  assumes t: "tracks t L R" and n: "n < L" "L \<le> n + 32768"
  shows "\<exists>t'. markReceived (of_nat n) t = Some t' \<and> tracks t' L (insert n R)"
proof -
  define e where "e = L - n"
  have e: "0 < e" "e \<le> 32768" "L = n + e" using n by (auto simp: e_def)
  let ?F = "of_nat n - of_nat L :: u16" and ?B = "of_nat L - of_nat n :: u16"
  have B: "unat ?B = e" using e by (simp add: seq_simps)
  have "unat ?F = 65536 - e"
    using unat_diff_of_nat_u16_back [OF n(1)] e(1,2) by (simp flip: e_def)
  then have F: "?F \<noteq> 0" "\<not> ?F < 32768"
    using e by (auto simp: word_less_nat_alt)
  have nz: "?B \<noteq> 0" and le: "?B \<le> 32 \<longleftrightarrow> e \<le> 32" and ge: "1 \<le> ?B"
    using B e by (auto simp: word_le_nat_alt)
  have m1: "unat (?B - 1) = e - 1" using B nz by (simp add: unat_minus_one)
  have b: "\<And>i. i < 32 \<Longrightarrow> bit (ackBits t) i \<longleftrightarrow> i < L \<and> L - Suc i \<in> R"
    using t by (auto simp: tracks_def)
  show ?thesis
  proof (cases "e \<le> 32")
    case True
    have "bit (ackBits t OR push_bit (e - 1) 1) i \<longleftrightarrow> i < L \<and> L - Suc i \<in> insert n R"
      if "i < 32" for i
      using that True e b [of i] by (auto simp: bit_simps)
    moreover have "markReceived (of_nat n) t
        = Some (t\<lparr>ackBits := ackBits t OR push_bit (e - 1) 1\<rparr>)"
      using t True F le ge m1 e by (simp add: markReceived_def tracks_def shl32_def)
    ultimately show ?thesis using t n by (fastforce simp: tracks_def)
  next
    case False
    have "markReceived (of_nat n) t = Some t"
      using t False F le by (simp add: markReceived_def tracks_def)
    moreover have "L - Suc i \<noteq> n" if "i < 32" for i
      using that False e by auto
    ultimately show ?thesis using t n by (fastforce simp: tracks_def)
  qed
qed

lemma tracks_step:
  assumes "tracks t L R" and "near L n" and "n \<noteq> L + 32"
  shows "\<exists>t'. markReceived (of_nat n) t = Some t' \<and> tracks t' (max L n) (insert n R)"
proof -
  consider "n = L" | "L < n" | "n < L" by linarith
  then show ?thesis
  proof cases
    case 1
    then have "markReceived (of_nat n) t = Some t" and "insert n R = R"
      using assms(1) by (auto simp: markReceived_def tracks_def)
    with 1 assms(1) show ?thesis by simp
  next
    case 2
    with assms tracks_ahead show ?thesis by (simp add: near_def max_def)
  next
    case 3
    with assms tracks_behind show ?thesis by (simp add: near_def max_def)
  qed
qed

text \<open>
  The acknowledgement test of the peer, on the numbers an exact tracker reports, answers the
  membership question within the last 33 indices and says no elsewhere.
\<close>

lemma tracks_isAcknowledged:
  assumes t: "tracks t L R" and "near L n"
  shows "isAcknowledged (of_nat n) (latestSequence t) (ackBits t) \<longleftrightarrow> n \<in> R \<and> L \<le> n + 32"
proof -
  consider "n = L" | "L < n" | "n < L" by linarith
  then show ?thesis
  proof cases
    case 1
    then show ?thesis using t by (auto simp: isAcknowledged_def tracks_def)
  next
    case 2
    then have n: "n \<notin> R" and nf: "n - L < 32768"
      using t assms(2) by (auto simp: tracks_def near_def)
    let ?B = "of_nat L - of_nat n :: u16"
    have "unat ?B = 65536 - (n - L)"
      using unat_diff_of_nat_u16_back [OF 2] 2 nf by simp
    then have "32 < ?B" and "?B \<noteq> 0" using 2 nf by (auto simp: word_less_nat_alt)
    then show ?thesis using n t by (auto simp: isAcknowledged_def tracks_def)
  next
    case 3
    define e where "e = L - n"
    have e: "0 < e" "e \<le> 32768" "L = n + e" using 3 assms(2) by (auto simp: e_def near_def)
    let ?B = "of_nat L - of_nat n :: u16"
    have B: "unat ?B = e" using e by (simp add: seq_simps)
    have nz: "?B \<noteq> 0" and gt: "32 < ?B \<longleftrightarrow> 32 < e" and ge: "32768 \<le> ?B \<longleftrightarrow> 32768 \<le> e"
      using B e by (auto simp: word_less_nat_alt word_le_nat_alt)
    have m1: "unat (?B - 1) = e - 1" using B nz by (simp add: unat_minus_one)
    have bit: "(ackBits t AND push_bit (e - 1) 1) \<noteq> 0 \<longleftrightarrow> bit (ackBits t) (e - 1)" 
      by (simp add: and_exp_eq_0_iff_not_bit push_bit_eq_mult)
    have "isAcknowledged (of_nat n) (latestSequence t) (ackBits t)
        \<longleftrightarrow> e \<le> 32 \<and> bit (ackBits t) (e - 1)"
      using t nz gt ge m1 bit e by (auto simp: isAcknowledged_def tracks_def Let_def)
    also have "\<dots> \<longleftrightarrow> n \<in> R \<and> L \<le> n + 32"
      using t e by (auto simp: tracks_def)
    finally show ?thesis .
  qed
qed

lemma isNewerSequence_index:
  assumes "n < m + 32768" and "m < n + 32768"
  shows "isNewerSequence (of_nat n) (of_nat m) \<longleftrightarrow> m < n"
proof (cases "m \<le> n")
  case True
  then have "unat (of_nat n - of_nat m :: u16) = n - m"
    using assms(1) by (simp add: seq_simps del: of_nat_diff)
  then show ?thesis
    using True assms(1)
    by (auto simp: isNewerSequence_def Let_def word_less_nat_alt unat_eq_zero simp flip: unat_0_iff)
next
  case False
  then have "unat (of_nat n - of_nat m :: u16) = 65536 - (m - n)"
    using assms(2) unat_diff_of_nat_u16_back [of n m] by simp
  then show ?thesis
    using False assms(2) by (auto simp: isNewerSequence_def Let_def word_less_nat_alt)
qed

section \<open>Properties\<close>

text \<open>
  Arrivals by index: \<open>markAll\<close> marks a list of indices in order; \<open>arrivalsOk L ns\<close> says that
  every index is within half the sequence space of the largest one before it and none is exactly
  32 ahead of it.
\<close>

fun markAll :: "nat list \<Rightarrow> ReceiveAckTracker \<Rightarrow> ReceiveAckTracker option" where
  "markAll [] t = Some t"
| "markAll (n # ns) t = markReceived (of_nat n) t \<bind> markAll ns"

fun arrivalsOk :: "nat \<Rightarrow> nat list \<Rightarrow> bool" where
  "arrivalsOk L [] = True"
| "arrivalsOk L (n # ns) = (near L n \<and> n \<noteq> L + 32 \<and> arrivalsOk (max L n) ns)"

lemma markAll_tracks:
  "tracks t L R \<Longrightarrow> arrivalsOk L ns \<Longrightarrow>
    \<exists>t'. markAll ns t = Some t' \<and> tracks t' (Max (insert L (set ns))) (R \<union> set ns)"
proof (induction ns arbitrary: t L R)
  case (Cons n ns)
  obtain t1 where t1: "markReceived (of_nat n) t = Some t1" "tracks t1 (max L n) (insert n R)"
    using tracks_step [OF Cons.prems(1)] Cons.prems(2) by (metis arrivalsOk.simps(2))
  have "Max (insert (max L n) (set ns)) = Max (insert L (set (n # ns)))"
    by (cases "ns = []") (auto simp: max.assoc max.left_commute)
  with Cons.IH [OF t1(2)] t1(1) Cons.prems(2) show ?case by (auto simp: insert_commute)
qed (simp add: tracks_def)



text \<open>
  Marking is undefined in exactly one situation: a number exactly 32 ahead of the latest,
  where the code shifts the 32-bit field by its width. Receiving 0 and then 32 is enough.
\<close>

theorem mark_undefined_iff_jump_of_32:
  "(markReceived s t = None \<longleftrightarrow> hasReceived t \<and> s - latestSequence t = 32)
   \<and> markAll [0, 32] newTracker = None"
proof -
  have "markReceived 0 newTracker = Some \<lparr>hasReceived = True, latestSequence = 0, ackBits = 0\<rparr>"
    by (simp add: markReceived_def newTracker_def)
  moreover have "markReceived 32 \<lparr>hasReceived = True, latestSequence = 0, ackBits = 0\<rparr> = None"
    by (simp add: markReceived_None_iff)
  ultimately have "markAll [0, 32] newTracker = None" by simp
  then show ?thesis using markReceived_None_iff by blast
qed

text \<open>
  Sequence comparison orders indices correctly across the wrap-around whenever they are less
  than half the sequence space apart: the number of \<open>n\<close> is newer than that of \<open>m\<close> precisely
  if \<open>m < n\<close>.
\<close>

theorem newer_sequence_is_index_order:
  assumes "n < m + 32768" and "m < n + 32768"
  shows "isNewerSequence (of_nat n) (of_nat m) \<longleftrightarrow> m < n"
  using assms by (rule isNewerSequence_index)

theorem newer_sequence_is_index_order_witness:
  "isNewerSequence (of_nat 65540) (of_nat 65530) \<and> (65540 :: nat) < 65530 + 32768
   \<and> (65530 :: nat) < 65540 + 32768"
  using newer_sequence_is_index_order [of 65540 65530] by simp

text \<open>
  C22: the receive queue is a FIFO that loses and duplicates nothing. For any interleaving of
  deliveries, receives and closes (with a failing reason) from a fresh queue, the messages handed
  to receivers, in order and each cut to its buffer, followed by those still queued, are exactly
  the messages delivered; and every receive handler is completed exactly once or is still parked.
\<close>

theorem recv_queue_fifo_exactly_once:
  assumes "closesFail ops"
    and "runOps (rq_step rq_deliver rq_asyncRecv rq_close) ops newRecvQueue
       = (q, es :: 'ep effect list)"
  shows "(\<exists>ms. handedOut es ms \<and> deliveries ops = ms @ rq_queued q)
    \<and> mset (completedRecvs es) + mset (rq_parked q) = mset (receivers ops)"
  using rq.run_laws [OF rq_inv_new assms] by (simp add: newRecvQueue_def rq_parked_def)

definition rqSample :: "rq_op list" where
  "rqSample = [Deliver [1, 2], Recv 8 7, Recv 1 8, Deliver [3, 4], Recv 8 9, Close (RudeCode 1)]"

theorem recv_queue_fifo_exactly_once_witness:
  "closesFail rqSample
   \<and> mset (completedRecvs (snd (runOps (rq_step rq_deliver rq_asyncRecv rq_close) rqSample
        newRecvQueue) :: nat effect list)) = {#7, 8, 9#}
   \<and> received (snd (runOps (rq_step rq_deliver rq_asyncRecv rq_close) rqSample newRecvQueue)
        :: nat effect list) = [[1, 2], [3]]"
proof -
  have h: "closesFail rqSample" by (simp add: rqSample_def)
  obtain q and es :: "nat effect list" where
    r: "runOps (rq_step rq_deliver rq_asyncRecv rq_close) rqSample newRecvQueue = (q, es)"
    by fastforce
  have "rq_parked q = []" and "received es = [[1, 2], [3]]"
    using r by (auto simp: rqSample_def rq_defs rq_parked_def)
  with recv_queue_fifo_exactly_once [OF h r] h r show ?thesis
    by (simp add: rqSample_def add_mset_commute)
qed

end
