(* ===== verification/Rude_Config.thy ===== *)
theory Rude_Config
  imports Rude_Prelude
begin

text \<open>
  \<^verbatim>\<open>session/ChannelConfig.hpp\<close>, \<^verbatim>\<open>session/SessionConfig.hpp\<close> and
  \<^verbatim>\<open>session/SocketStats.hpp\<close>: configuration values with their defaults, and the counters
  that channels update. The counters are relaxed atomics written on one strand; the model keeps
  the value each holds.
\<close>

section \<open>Channel configuration\<close>

datatype ChannelMode = ReliableOrdered | ReliableUnordered | UnreliableSequenced

record ChannelOptions =
  opt_id :: u8
  opt_priority :: u8

record ReliableChannelConfig = ChannelOptions +
  opt_sendWindow :: u16
  opt_retxTimeoutMs :: u32

type_synonym UnreliableChannelConfig = ChannelOptions

definition newReliableChannelConfig :: ReliableChannelConfig where
  "newReliableChannelConfig =
     \<lparr>opt_id = 0, opt_priority = 0, opt_sendWindow = 128, opt_retxTimeoutMs = 200\<rparr>"

record ChannelConfig =
  cfg_id :: u8
  cfg_mode :: ChannelMode
  cfg_sendWindow :: u16
  cfg_retxTimeoutMs :: u32
  cfg_priority :: u8

definition newChannelConfig :: ChannelConfig where
  "newChannelConfig = \<lparr>cfg_id = 0, cfg_mode = ReliableOrdered, cfg_sendWindow = 128,
     cfg_retxTimeoutMs = 200, cfg_priority = 0\<rparr>"

definition reliableOrdered :: "u8 \<Rightarrow> ChannelConfig" where
  "reliableOrdered i = newChannelConfig\<lparr>cfg_id := i, cfg_mode := ReliableOrdered\<rparr>"

definition reliableUnordered :: "u8 \<Rightarrow> ChannelConfig" where
  "reliableUnordered i = newChannelConfig\<lparr>cfg_id := i, cfg_mode := ReliableUnordered\<rparr>"

definition unreliableSequenced :: "u8 \<Rightarrow> ChannelConfig" where
  "unreliableSequenced i = newChannelConfig\<lparr>cfg_id := i, cfg_mode := UnreliableSequenced\<rparr>"

definition reliableOptions :: "ChannelConfig \<Rightarrow> ReliableChannelConfig" where
  "reliableOptions c = newReliableChannelConfig\<lparr>opt_id := cfg_id c, opt_priority := cfg_priority c,
     opt_sendWindow := cfg_sendWindow c, opt_retxTimeoutMs := cfg_retxTimeoutMs c\<rparr>"

definition unreliableOptions :: "ChannelConfig \<Rightarrow> UnreliableChannelConfig" where
  "unreliableOptions c = \<lparr>opt_id = cfg_id c, opt_priority = cfg_priority c\<rparr>"

section \<open>Session configuration\<close>

record SessionConfig =
  sc_mtu :: nat
  sc_keepaliveMs :: u32
  sc_timeoutMs :: u32
  sc_maxChannels :: u8
  sc_rttAlpha :: real
  sc_maxHandshakeMs :: u32
  sc_recvBufSize :: nat
  sc_channels :: "ChannelConfig list"

definition newSessionConfig :: SessionConfig where
  "newSessionConfig = \<lparr>sc_mtu = 1400, sc_keepaliveMs = 5000, sc_timeoutMs = 30000,
     sc_maxChannels = 8, sc_rttAlpha = 0.125, sc_maxHandshakeMs = 5000, sc_recvBufSize = 65536,
     sc_channels = [reliableOrdered 0]\<rparr>"

section \<open>Statistics\<close>

record SocketStats =
  st_bytesSent :: u64
  st_bytesRecv :: u64
  st_packetsSent :: u64
  st_packetsRecv :: u64
  st_packetsLost :: u64
  st_avgRttUs :: real
  st_jitterUs :: real
  st_sendWindowUsed :: u64

definition newSocketStats :: SocketStats where
  "newSocketStats = \<lparr>st_bytesSent = 0, st_bytesRecv = 0, st_packetsSent = 0, st_packetsRecv = 0,
     st_packetsLost = 0, st_avgRttUs = 0, st_jitterUs = 0, st_sendWindowUsed = 0\<rparr>"

record Snapshot =
  sn_bytesSent :: u64
  sn_bytesRecv :: u64
  sn_packetsSent :: u64
  sn_packetsRecv :: u64
  sn_packetsLost :: u64
  sn_avgRttUs :: real
  sn_jitterUs :: real
  sn_sendWindowUsed :: u64

text \<open>With no update in between; under concurrent traffic each field may be from another moment.\<close>

definition snapshot :: "SocketStats \<Rightarrow> Snapshot" where
  "snapshot st = \<lparr>sn_bytesSent = st_bytesSent st, sn_bytesRecv = st_bytesRecv st,
     sn_packetsSent = st_packetsSent st, sn_packetsRecv = st_packetsRecv st,
     sn_packetsLost = st_packetsLost st, sn_avgRttUs = st_avgRttUs st, sn_jitterUs = st_jitterUs st,
     sn_sendWindowUsed = st_sendWindowUsed st\<rparr>"

text \<open>The counter updates that the channels perform, by their call sites.\<close>

definition countSent :: "nat \<Rightarrow> SocketStats \<Rightarrow> SocketStats" where
  "countSent n st = st\<lparr>st_packetsSent := st_packetsSent st + 1,
     st_bytesSent := st_bytesSent st + of_nat n\<rparr>"

definition countRecv :: "nat \<Rightarrow> SocketStats \<Rightarrow> SocketStats" where
  "countRecv n st = st\<lparr>st_packetsRecv := st_packetsRecv st + 1,
     st_bytesRecv := st_bytesRecv st + of_nat n\<rparr>"

end
