(* ===== verification/Rude_Congestion.thy ===== *)
theory Rude_Congestion
  imports Rude_Config
begin

text \<open>
  \<^verbatim>\<open>concepts/CongestionControl.hpp\<close> and the controllers \<^verbatim>\<open>Null\<close>,
  \<^verbatim>\<open>LeakyBucket\<close> and \<^verbatim>\<open>BbrLite\<close> of \<^verbatim>\<open>detail/congestion\<close>.

  The concept is a record of operations over the controller's state \<open>'cc\<close>; an operation that
  reads \<open>Clock::now()\<close> takes the time as an argument. A cast of a \<open>double\<close> to \<open>size_t\<close>
  truncates; it is modelled for values that fit.
\<close>

section \<open>The controller interface\<close>

record 'cc CongestionCtrl =
  cc_onAck :: "time_ns \<Rightarrow> u16 \<Rightarrow> u64 \<Rightarrow> 'cc \<Rightarrow> 'cc"
  cc_onLoss :: "u16 \<Rightarrow> 'cc \<Rightarrow> 'cc"
  cc_sendWindow :: "time_ns \<Rightarrow> 'cc \<Rightarrow> u64 \<times> 'cc"
  cc_pacingDelay :: "'cc \<Rightarrow> int"
  cc_rttEstimate :: "'cc \<Rightarrow> int"
  cc_reset :: "time_ns \<Rightarrow> 'cc \<Rightarrow> 'cc"

definition truncReal :: "real \<Rightarrow> int" where
  "truncReal x = (if 0 \<le> x then \<lfloor>x\<rfloor> else \<lceil>x\<rceil>)"

definition maxSize :: u64 where "maxSize = - 1"

section \<open>Null\<close>

definition null_onAck :: "time_ns \<Rightarrow> u16 \<Rightarrow> u64 \<Rightarrow> unit \<Rightarrow> unit" where
  "null_onAck now s rttUs c = c"

definition null_onLoss :: "u16 \<Rightarrow> unit \<Rightarrow> unit" where
  "null_onLoss s c = c"

definition null_sendWindow :: "time_ns \<Rightarrow> unit \<Rightarrow> u64 \<times> unit" where
  "null_sendWindow now c = (maxSize, c)"

definition NullCC :: "unit CongestionCtrl" where
  "NullCC = \<lparr>cc_onAck = null_onAck, cc_onLoss = null_onLoss, cc_sendWindow = null_sendWindow,
     cc_pacingDelay = (\<lambda>_. 0), cc_rttEstimate = (\<lambda>_. 0), cc_reset = (\<lambda>_ c. c)\<rparr>"

section \<open>LeakyBucket\<close>

record LeakyBucket =
  lb_rate :: real
  lb_peakRate :: real
  lb_burst :: real
  lb_tokens :: real
  lb_lastTick :: time_ns
  lb_smoothedRtt :: int

definition newLeakyBucket :: "real \<Rightarrow> real \<Rightarrow> time_ns \<Rightarrow> LeakyBucket" where
  "newLeakyBucket rate burst now = \<lparr>lb_rate = rate, lb_peakRate = rate, lb_burst = burst,
     lb_tokens = burst, lb_lastTick = now, lb_smoothedRtt = 0\<rparr>"

definition lb_refill :: "time_ns \<Rightarrow> LeakyBucket \<Rightarrow> LeakyBucket" where
  "lb_refill now b =
     (let elapsed = real_of_int (now - lb_lastTick b) / 1000000000
      in b\<lparr>lb_tokens := min (lb_burst b) (lb_tokens b + lb_rate b * elapsed), lb_lastTick := now\<rparr>)"

definition lb_onAck :: "time_ns \<Rightarrow> u16 \<Rightarrow> u64 \<Rightarrow> LeakyBucket \<Rightarrow> LeakyBucket" where
  "lb_onAck now s rttUs b =
     (let b = lb_refill now b in b\<lparr>lb_rate := min (lb_peakRate b) (lb_rate b * 1.01)\<rparr>)"

definition lb_onLoss :: "u16 \<Rightarrow> LeakyBucket \<Rightarrow> LeakyBucket" where
  "lb_onLoss s b = b\<lparr>lb_rate := max (lb_rate b * 0.5) 10\<rparr>"

definition lb_sendWindow :: "time_ns \<Rightarrow> LeakyBucket \<Rightarrow> u64 \<times> LeakyBucket" where
  "lb_sendWindow now b =
     (let b = lb_refill now b in (of_int (truncReal (max 0 (lb_tokens b))), b))"

definition lb_pacingDelay :: "LeakyBucket \<Rightarrow> int" where
  "lb_pacingDelay b =
     (if 1 \<le> lb_tokens b then 0
      else truncReal ((1 - lb_tokens b) / lb_rate b * 1000000000))"

definition lb_rttEstimate :: "LeakyBucket \<Rightarrow> int" where
  "lb_rttEstimate b = lb_smoothedRtt b"

definition lb_reset :: "time_ns \<Rightarrow> LeakyBucket \<Rightarrow> LeakyBucket" where
  "lb_reset now b = b\<lparr>lb_tokens := lb_burst b, lb_rate := lb_peakRate b, lb_lastTick := now,
     lb_smoothedRtt := 0\<rparr>"

definition LeakyBucketCC :: "LeakyBucket CongestionCtrl" where
  "LeakyBucketCC = \<lparr>cc_onAck = lb_onAck, cc_onLoss = lb_onLoss, cc_sendWindow = lb_sendWindow,
     cc_pacingDelay = lb_pacingDelay, cc_rttEstimate = lb_rttEstimate, cc_reset = lb_reset\<rparr>"

section \<open>BbrLite\<close>

datatype Phase = startup | drain | probeBw | probeRtt

record BbrLite =
  bbr_phase :: Phase
  bbr_btlBw :: real
  bbr_rtProp :: int
  bbr_rtPropStamp :: time_ns
  bbr_inflightCap :: u64
  bbr_ackCount :: u64
  bbr_paceGain :: real

definition kStartupGain :: real where "kStartupGain = 2"
definition kDrainGain :: real where "kDrainGain = 0.75"
definition kProbeBwGain :: real where "kProbeBwGain = 1.25"
definition kSteadyGain :: real where "kSteadyGain = 1"
definition kProbeRttInterval :: u64 where "kProbeRttInterval = 200"

text \<open>\<open>Micros::max()\<close> of a 64-bit representation.\<close>

definition microsMax :: int where "microsMax = 2 ^ 63 - 1"

definition newBbrLite :: "time_ns \<Rightarrow> BbrLite" where
  "newBbrLite now = \<lparr>bbr_phase = startup, bbr_btlBw = 0, bbr_rtProp = microsMax,
     bbr_rtPropStamp = now, bbr_inflightCap = maxSize, bbr_ackCount = 0,
     bbr_paceGain = kStartupGain\<rparr>"

definition rtPropExpired :: "time_ns \<Rightarrow> BbrLite \<Rightarrow> bool" where
  "rtPropExpired now b = (now - bbr_rtPropStamp b > 10 * 1000000000)"

fun advancePhaseFrom :: "Phase \<Rightarrow> BbrLite \<Rightarrow> BbrLite" where
  "advancePhaseFrom startup b =
     (if bbr_btlBw b > 0 then b\<lparr>bbr_phase := drain, bbr_paceGain := kDrainGain\<rparr> else b)"
| "advancePhaseFrom drain b =
     b\<lparr>bbr_phase := probeBw, bbr_paceGain := kProbeBwGain, bbr_inflightCap := maxSize\<rparr>"
| "advancePhaseFrom probeBw b =
     (if bbr_ackCount b mod kProbeRttInterval = 0
      then b\<lparr>bbr_phase := probeRtt, bbr_inflightCap := 4, bbr_paceGain := kSteadyGain\<rparr> else b)"
| "advancePhaseFrom probeRtt b =
     b\<lparr>bbr_phase := probeBw, bbr_paceGain := kProbeBwGain, bbr_inflightCap := maxSize\<rparr>"

definition advancePhase :: "BbrLite \<Rightarrow> BbrLite" where
  "advancePhase b = advancePhaseFrom (bbr_phase b) b"

definition bbr_onAck :: "time_ns \<Rightarrow> u16 \<Rightarrow> u64 \<Rightarrow> BbrLite \<Rightarrow> BbrLite" where
  "bbr_onAck now s rttUs b =
     (let rtt = sint rttUs;
          b = (if rtt < bbr_rtProp b \<or> rtPropExpired now b
               then b\<lparr>bbr_rtProp := rtt, bbr_rtPropStamp := now\<rparr> else b);
          b = (if 0 < rttUs
               then b\<lparr>bbr_btlBw := max (bbr_btlBw b) (1000000 / real (unat rttUs))\<rparr> else b);
          b = b\<lparr>bbr_ackCount := bbr_ackCount b + 1\<rparr>
      in advancePhase b)"

definition bbr_onLoss :: "u16 \<Rightarrow> BbrLite \<Rightarrow> BbrLite" where
  "bbr_onLoss s b = b\<lparr>bbr_inflightCap := max 4 (bbr_inflightCap b div 2)\<rparr>"

definition bbr_sendWindow :: "time_ns \<Rightarrow> BbrLite \<Rightarrow> u64 \<times> BbrLite" where
  "bbr_sendWindow now b =
     (let rtPropSecs = real_of_int (bbr_rtProp b) / 1000000;
          bdp = bbr_btlBw b * rtPropSecs;
          target = of_int (truncReal (bdp * bbr_paceGain b)) + 4
      in (min target (bbr_inflightCap b), b))"

definition bbr_pacingDelay :: "BbrLite \<Rightarrow> int" where
  "bbr_pacingDelay b =
     (if bbr_btlBw b \<le> 0 then 1000000
      else truncReal (bbr_paceGain b / bbr_btlBw b * 1000000000))"

definition bbr_rttEstimate :: "BbrLite \<Rightarrow> int" where
  "bbr_rttEstimate b = bbr_rtProp b"

definition bbr_reset :: "time_ns \<Rightarrow> BbrLite \<Rightarrow> BbrLite" where
  "bbr_reset now b = b\<lparr>bbr_phase := startup, bbr_btlBw := 0, bbr_rtProp := microsMax,
     bbr_rtPropStamp := now, bbr_inflightCap := maxSize, bbr_ackCount := 0,
     bbr_paceGain := kStartupGain\<rparr>"

definition BbrLiteCC :: "BbrLite CongestionCtrl" where
  "BbrLiteCC = \<lparr>cc_onAck = bbr_onAck, cc_onLoss = bbr_onLoss, cc_sendWindow = bbr_sendWindow,
     cc_pacingDelay = bbr_pacingDelay, cc_rttEstimate = bbr_rttEstimate, cc_reset = bbr_reset\<rparr>"

section \<open>The contract of a controller\<close>

text \<open>Calls on a controller, and schedules of calls at times that never go back.\<close>

datatype cc_call = OnAck time_ns u16 u64 | OnLoss u16 | SendWindow time_ns | Reset time_ns

fun cc_call_step :: "'cc CongestionCtrl \<Rightarrow> cc_call \<Rightarrow> 'cc \<Rightarrow> 'cc" where
  "cc_call_step cc (OnAck now s rttUs) c = cc_onAck cc now s rttUs c"
| "cc_call_step cc (OnLoss s) c = cc_onLoss cc s c"
| "cc_call_step cc (SendWindow now) c = snd (cc_sendWindow cc now c)"
| "cc_call_step cc (Reset now) c = cc_reset cc now c"

fun callTime :: "time_ns \<Rightarrow> cc_call \<Rightarrow> time_ns" where
  "callTime t (OnAck now s rttUs) = now"
| "callTime t (OnLoss s) = t"
| "callTime t (SendWindow now) = now"
| "callTime t (Reset now) = now"

fun steady :: "time_ns \<Rightarrow> cc_call list \<Rightarrow> bool" where
  "steady t [] = True"
| "steady t (x # xs) = (t \<le> callTime t x \<and> steady (callTime t x) xs)"

definition lastTime :: "time_ns \<Rightarrow> cc_call list \<Rightarrow> time_ns" where
  "lastTime t xs = foldl callTime t xs"

definition cc_run :: "'cc CongestionCtrl \<Rightarrow> cc_call list \<Rightarrow> 'cc \<Rightarrow> 'cc" where
  "cc_run cc xs c = fold (cc_call_step cc) xs c"

text \<open>
  What a reliable channel relies on: an invariant that every operation keeps when the clock does
  not run backwards. The invariant carries the last time the controller read.
\<close>

locale congestion_ctrl =
  fixes cc :: "'cc CongestionCtrl"
    and inv :: "time_ns \<Rightarrow> 'cc \<Rightarrow> bool"
  assumes inv_later: "inv t c \<Longrightarrow> t \<le> now \<Longrightarrow> inv now c"
    and onAck_inv: "inv now c \<Longrightarrow> inv now (cc_onAck cc now s rttUs c)"
    and onLoss_inv: "inv now c \<Longrightarrow> inv now (cc_onLoss cc s c)"
    and sendWindow_inv: "inv now c \<Longrightarrow> inv now (snd (cc_sendWindow cc now c))"
    and reset_inv: "inv now c \<Longrightarrow> inv now (cc_reset cc now c)"
begin

lemma call_inv: "inv t c \<Longrightarrow> t \<le> callTime t x \<Longrightarrow> inv (callTime t x) (cc_call_step cc x c)"
  by (cases x) (auto intro: onAck_inv onLoss_inv sendWindow_inv reset_inv inv_later)

theorem run_inv: "inv t c \<Longrightarrow> steady t xs \<Longrightarrow> inv (lastTime t xs) (cc_run cc xs c)"
  by (induction xs arbitrary: t c) (auto simp: lastTime_def cc_run_def call_inv)

end

section \<open>The controllers keep the contract\<close>

interpretation null_cc: congestion_ctrl NullCC "\<lambda>_ _. True"
  by unfold_locales simp_all

definition lb_inv :: "time_ns \<Rightarrow> LeakyBucket \<Rightarrow> bool" where
  "lb_inv t b \<longleftrightarrow> lb_lastTick b \<le> t \<and> lb_tokens b = lb_burst b \<and> 10 \<le> lb_rate b
     \<and> lb_rate b \<le> lb_peakRate b \<and> lb_smoothedRtt b = 0"

lemma lb_refill_full:
  assumes "lb_inv now b"
  shows "lb_refill now b = b\<lparr>lb_lastTick := now\<rparr>"
proof -
  have "0 \<le> lb_rate b * (real_of_int (now - lb_lastTick b) / 1000000000)"
    using assms by (intro mult_nonneg_nonneg) (auto simp: lb_inv_def)
  then have "min (lb_burst b)
      (lb_tokens b + lb_rate b * (real_of_int (now - lb_lastTick b) / 1000000000)) = lb_tokens b"
    using assms by (simp add: lb_inv_def)
  then show ?thesis by (simp add: lb_refill_def)
qed

interpretation leaky_cc: congestion_ctrl LeakyBucketCC lb_inv
proof unfold_locales
  fix t now :: time_ns and c :: LeakyBucket and s rttUs
  show "lb_inv t c \<Longrightarrow> t \<le> now \<Longrightarrow> lb_inv now c"
    by (auto simp: lb_inv_def)
  assume i: "lb_inv now c"
  note defs = LeakyBucketCC_def lb_onAck_def lb_onLoss_def lb_sendWindow_def lb_reset_def Let_def
    lb_refill_full [OF i]
  have "10 \<le> lb_rate c * 1.01" using i by (simp add: lb_inv_def)
  with i show "lb_inv now (cc_onAck LeakyBucketCC now s rttUs c)"
    by (simp add: defs) (simp add: lb_inv_def)
  show "lb_inv now (cc_onLoss LeakyBucketCC s c)" "lb_inv now (snd (cc_sendWindow LeakyBucketCC now c))"
    "lb_inv now (cc_reset LeakyBucketCC now c)"
    using i by (simp_all add: defs) (auto simp: lb_inv_def)
qed

fun gainOf :: "Phase \<Rightarrow> real" where
  "gainOf startup = kStartupGain"
| "gainOf drain = kDrainGain"
| "gainOf probeBw = kProbeBwGain"
| "gainOf probeRtt = kSteadyGain"

definition bbr_inv :: "time_ns \<Rightarrow> BbrLite \<Rightarrow> bool" where
  "bbr_inv t b \<longleftrightarrow> bbr_paceGain b = gainOf (bbr_phase b) \<and> 4 \<le> bbr_inflightCap b
     \<and> (bbr_phase b = probeRtt \<longrightarrow> bbr_inflightCap b = 4)
     \<and> (bbr_phase b = startup \<longleftrightarrow> bbr_btlBw b = 0) \<and> 0 \<le> bbr_btlBw b"

lemma maxSize_ge_4: "(4 :: u64) \<le> maxSize"
  by (simp add: maxSize_def)

lemma advancePhase_inv:
  assumes "bbr_paceGain b = gainOf (bbr_phase b)" and "4 \<le> bbr_inflightCap b"
    and "bbr_phase b = startup \<or> bbr_btlBw b \<noteq> 0" and "0 \<le> bbr_btlBw b"
    and "bbr_phase b = probeRtt \<longrightarrow> bbr_inflightCap b = 4"
  shows "bbr_inv t (advancePhase b)"
  using assms
  by (cases "bbr_phase b") (auto simp: advancePhase_def bbr_inv_def maxSize_ge_4)

interpretation bbr_cc: congestion_ctrl BbrLiteCC bbr_inv
proof unfold_locales
  fix t now :: time_ns and c :: BbrLite and s :: u16 and rttUs :: u64
  show "bbr_inv t c \<Longrightarrow> t \<le> now \<Longrightarrow> bbr_inv now c"
    by (auto simp: bbr_inv_def)
  assume i: "bbr_inv now c"
  have "0 < rttUs \<Longrightarrow> 0 < 1000000 / real (unat rttUs)"
    by (intro divide_pos_pos) (simp_all add: word_less_nat_alt del: of_nat_unat)
  with i show "bbr_inv now (cc_onAck BbrLiteCC now s rttUs c)"
    unfolding BbrLiteCC_def CongestionCtrl.select_convs bbr_onAck_def Let_def
    by (intro advancePhase_inv) (auto simp: bbr_inv_def)
  have "max 4 (4 div 2) = (4 :: u64)" by simp
  with i show "bbr_inv now (cc_onLoss BbrLiteCC s c)"
    by (auto simp: BbrLiteCC_def bbr_onLoss_def bbr_inv_def)
  show "bbr_inv now (snd (cc_sendWindow BbrLiteCC now c))" "bbr_inv now (cc_reset BbrLiteCC now c)"
    using i by (auto simp: BbrLiteCC_def bbr_sendWindow_def bbr_reset_def bbr_inv_def Let_def
        maxSize_ge_4)
qed

lemma newLeakyBucket_inv: "10 \<le> rate \<Longrightarrow> lb_inv now (newLeakyBucket rate burst now)"
  by (simp add: lb_inv_def newLeakyBucket_def)

lemma newBbrLite_inv: "bbr_inv now (newBbrLite now)"
  by (simp add: bbr_inv_def newBbrLite_def maxSize_ge_4)

section \<open>Properties\<close>

text \<open>
  The token bucket is never drained. For every controller built with a rate of at least
  10 packets per second and every schedule of acknowledgements, losses, window queries and resets
  on a steady clock, the rate stays between 10 and the configured peak, the window it offers is
  the whole burst and its round-trip estimate is 0: no operation takes a token.
\<close>

theorem leaky_bucket_window_is_burst:
  assumes "10 \<le> rate" and "steady now xs" and "lastTime now xs \<le> t"
  shows "let b = cc_run LeakyBucketCC xs (newLeakyBucket rate burst now) in
      10 \<le> lb_rate b \<and> lb_rate b \<le> lb_peakRate b
    \<and> fst (lb_sendWindow t b) = of_int \<lfloor>max 0 (lb_burst b)\<rfloor>
    \<and> (1 \<le> lb_burst b \<longrightarrow> lb_pacingDelay b = 0) \<and> lb_rttEstimate b = 0"
proof -
  let ?b = "cc_run LeakyBucketCC xs (newLeakyBucket rate burst now)"
  have "lb_inv (lastTime now xs) ?b"
    using leaky_cc.run_inv [OF newLeakyBucket_inv assms(2)] assms(1) by simp
  then have "lb_inv t ?b" using leaky_cc.inv_later assms(3) by blast
  then show ?thesis
    by (auto simp: Let_def lb_sendWindow_def lb_refill_full truncReal_def lb_pacingDelay_def
        lb_rttEstimate_def) (auto simp: lb_inv_def)
qed

theorem leaky_bucket_window_is_burst_witness:
  "steady 0 [SendWindow 5, OnLoss 1, OnAck 9 2 100] \<and> lastTime 0 [SendWindow 5, OnLoss 1, OnAck 9 2 100] \<le> 9
   \<and> fst (lb_sendWindow 9 (cc_run LeakyBucketCC [SendWindow 5, OnLoss 1, OnAck 9 2 100]
        (newLeakyBucket 1000 64 0))) = 64"
proof -
  let ?xs = "[SendWindow 5, OnLoss 1, OnAck 9 2 100]"
  have s: "steady 0 ?xs" and l: "lastTime 0 ?xs \<le> 9" by (simp_all add: lastTime_def)
  have "lb_burst (cc_run LeakyBucketCC ?xs (newLeakyBucket 1000 64 0)) = 64"
    by (simp add: cc_run_def LeakyBucketCC_def newLeakyBucket_def lb_onAck_def lb_onLoss_def
        lb_sendWindow_def lb_refill_def Let_def)
  with leaky_bucket_window_is_burst [OF _ s l, of 1000 64] s l show ?thesis
    by (simp add: Let_def)
qed

text \<open>
  C37: the phase machine of the BBR controller is coherent. After any schedule of calls, the
  pacing gain is the one of the current phase, the in-flight cap never falls below 4 and is
  exactly 4 while the round-trip time is probed, and the controller has left start-up precisely
  if it has a bandwidth estimate.
\<close>

theorem bbr_phase_invariant:
  assumes "steady now xs"
  shows "let b = cc_run BbrLiteCC xs (newBbrLite now) in
      bbr_paceGain b = gainOf (bbr_phase b) \<and> 4 \<le> bbr_inflightCap b
    \<and> (bbr_phase b = probeRtt \<longrightarrow> bbr_inflightCap b = 4)
    \<and> (bbr_phase b = startup \<longleftrightarrow> bbr_btlBw b = 0)"
  using bbr_cc.run_inv [OF newBbrLite_inv assms] by (simp add: Let_def bbr_inv_def)

theorem bbr_phase_invariant_witness:
  "steady 0 [OnAck 5 1 100, OnLoss 2]
   \<and> bbr_phase (cc_run BbrLiteCC [OnAck 5 1 100, OnLoss 2] (newBbrLite 0)) = drain
   \<and> bbr_paceGain (cc_run BbrLiteCC [OnAck 5 1 100, OnLoss 2] (newBbrLite 0)) = kDrainGain"
proof -
  have s: "steady 0 [OnAck 5 1 100, OnLoss 2]" by simp
  have p: "bbr_phase (cc_run BbrLiteCC [OnAck 5 1 100, OnLoss 2] (newBbrLite 0)) = drain"
    by (simp add: cc_run_def BbrLiteCC_def newBbrLite_def bbr_onAck_def bbr_onLoss_def Let_def
        advancePhase_def microsMax_def)
  show ?thesis
    using bbr_phase_invariant [OF s] s p by (simp add: Let_def)
qed



end
