(* ===== verification/Rude_ReliableChannel.thy ===== *)
theory Rude_ReliableChannel
  imports Rude_ChannelCommon Rude_Congestion
begin

text \<open>
  \<^verbatim>\<open>detail/channel/ReliableChannel.hpp\<close>, and with it \<^verbatim>\<open>ReliableOrderedChannel.hpp\<close> and
  \<^verbatim>\<open>ReliableUnorderedChannel.hpp\<close>, which only fix its \<open>Ordered\<close> parameter.

  The class template is a record over the controller's state; its template arguments (the
  controller, the codec, \<open>Ordered\<close>) are arguments of the operations. An operation returns the
  channel, the statistics and its effects; each reads the clock once. \<open>onRecv\<close> is undefined
  (\<open>None\<close>) where \<open>markReceived\<close> is.
\<close>

section \<open>Slots\<close>

definition kAckHistorySize :: u16 where "kAckHistorySize = 32"
definition kDefaultWindowSize :: u16 where "kDefaultWindowSize = 128"
definition kMaxWindowSize :: u16 where "kMaxWindowSize = 32768"

definition normalizeWindow :: "u16 \<Rightarrow> u16" where
  "normalizeWindow w = (if w = 0 then 1 else min w kMaxWindowSize)"

definition windowCapacity :: "u16 \<Rightarrow> nat" where
  "windowCapacity w = unat (normalizeWindow w)"

definition slotIndex :: "u16 \<Rightarrow> nat \<Rightarrow> nat" where
  "slotIndex s capacity = unat s mod capacity"

text \<open>
  The slot of a number in an array of optionals. An array is never empty in a constructed channel,
  so the index is in range; the model reads an empty array as an empty slot.
\<close>

definition slotAt :: "'a option list \<Rightarrow> u16 \<Rightarrow> 'a option" where
  "slotAt xs s = (if xs = [] then None else xs ! slotIndex s (length xs))"

section \<open>State\<close>

record SentPacket =
  sp_sequenceNumber :: u16
  sp_encodedPacket :: bytes
  sp_sendTime :: time_ns
  sp_nextRetx :: time_ns
  sp_retxCount :: u32

record BufferedPacket =
  bp_sequenceNumber :: u16
  bp_payload :: bytes

record 'cc ReliableChannel =
  rc_id :: u8
  rc_sendWindow :: u16
  rc_retxTimeout :: int
  rc_nextSeq :: u16
  rc_expectedRecvSeq :: u16
  rc_sentPackets :: "SentPacket option list"
  rc_inFlightCount :: u64
  rc_receiveBuffer :: "BufferedPacket option list"
  rc_recvAckTracker :: ReceiveAckTracker
  rc_recvQueue :: RecvQueue
  rc_cc :: 'cc

definition newReliableChannel :: "ReliableChannelConfig \<Rightarrow> 'cc \<Rightarrow> 'cc ReliableChannel" where
  "newReliableChannel cfg k =
     (let w = normalizeWindow (opt_sendWindow cfg) in
      \<lparr>rc_id = opt_id cfg, rc_sendWindow = w,
       rc_retxTimeout = (if opt_retxTimeoutMs cfg = 0 then 200 else uint (opt_retxTimeoutMs cfg)),
       rc_nextSeq = 0, rc_expectedRecvSeq = 0,
       rc_sentPackets = replicate (windowCapacity w) None, rc_inFlightCount = 0,
       rc_receiveBuffer = replicate (windowCapacity w) None,
       rc_recvAckTracker = newTracker, rc_recvQueue = newRecvQueue, rc_cc = k\<rparr>)"

section \<open>Sending\<close>

text \<open>\<open>std::vector<std::byte>::resize\<close>.\<close>

definition resizeBytes :: "nat \<Rightarrow> bytes \<Rightarrow> bytes" where
  "resizeBytes n bs = take n bs @ replicate (n - length bs) 0"

definition rc_encodePacket :: "PacketCodec \<Rightarrow> Packet \<Rightarrow> nat \<Rightarrow> bytes" where
  "rc_encodePacket codec packet payloadSize =
     (let (encodedSize, buf) =
            cdc_encode codec packet (replicate (payloadSize + cdc_maxOverhead codec) 0)
      in if encodedSize = 0 then [] else resizeBytes encodedSize buf)"

definition attachAck :: "'cc ReliableChannel \<Rightarrow> Packet \<Rightarrow> Packet" where
  "attachAck c packet =
     (if \<not> hasReceived (rc_recvAckTracker c) then packet
      else packet\<lparr>pkt_ack := latestSequence (rc_recvAckTracker c),
                  pkt_ackBits := ackBits (rc_recvAckTracker c)\<rparr>)"

definition effectiveSendWindow ::
  "'cc CongestionCtrl \<Rightarrow> time_ns \<Rightarrow> 'cc ReliableChannel \<Rightarrow> u64 \<times> 'cc ReliableChannel" where
  "effectiveSendWindow cc now c =
     (let (congestionWindow, k) = cc_sendWindow cc now (rc_cc c)
      in (max 1 (min (ucast (rc_sendWindow c)) congestionWindow), c\<lparr>rc_cc := k\<rparr>))"

definition storeSentPacket ::
  "time_ns \<Rightarrow> u16 \<Rightarrow> bytes \<Rightarrow> 'cc ReliableChannel \<Rightarrow> bool \<times> 'cc ReliableChannel" where
  "storeSentPacket now s encodedPacket c =
     (if slotAt (rc_sentPackets c) s \<noteq> None then (False, c)
      else
        (True, c\<lparr>rc_sentPackets := (rc_sentPackets c)[slotIndex s (length (rc_sentPackets c)) :=
                   Some \<lparr>sp_sequenceNumber = s, sp_encodedPacket = encodedPacket,
                         sp_sendTime = now, sp_nextRetx = now + millis (rc_retxTimeout c),
                         sp_retxCount = 0\<rparr>],
                 rc_inFlightCount := rc_inFlightCount c + 1\<rparr>))"

definition eraseSentPacket :: "u16 \<Rightarrow> 'cc ReliableChannel \<Rightarrow> bool \<times> 'cc ReliableChannel" where
  "eraseSentPacket s c =
     (case slotAt (rc_sentPackets c) s of
        None \<Rightarrow> (False, c)
      | Some p \<Rightarrow>
          if sp_sequenceNumber p \<noteq> s then (False, c)
          else
            (True, c\<lparr>rc_sentPackets :=
                       (rc_sentPackets c)[slotIndex s (length (rc_sentPackets c)) := None],
                     rc_inFlightCount := rc_inFlightCount c - 1\<rparr>))"

definition rc_asyncSend ::
  "'cc CongestionCtrl \<Rightarrow> PacketCodec \<Rightarrow> time_ns \<Rightarrow> bytes \<Rightarrow> 'ep \<Rightarrow> handler
    \<Rightarrow> 'cc ReliableChannel \<Rightarrow> SocketStats \<Rightarrow> 'cc ReliableChannel \<times> SocketStats \<times> 'ep effect list"
  where
  "rc_asyncSend cc codec now payload ep h c st =
     (let (window, c) = effectiveSendWindow cc now c in
      if window \<le> rc_inFlightCount c then (c, st, [CompleteSend h (makeErrorCode SendWindowFull)])
      else
        let s = rc_nextSeq c;
            c = c\<lparr>rc_nextSeq := s + 1\<rparr>;
            packet = attachAck c (newPacket\<lparr>pkt_type := Data, pkt_seq := s, pkt_channel := rc_id c,
                                            pkt_payload := payload\<rparr>);
            encodedPacket = rc_encodePacket codec packet (length payload)
        in
        if encodedPacket = [] then (c, st, [CompleteSend h (makeErrorCode BadPacket)])
        else
          let (stored, c) = storeSentPacket now s encodedPacket c in
          if \<not> stored then (c, st, [CompleteSend h (makeErrorCode SendWindowFull)])
          else
            (c, countSent (length encodedPacket) (st\<lparr>st_sendWindowUsed := rc_inFlightCount c\<rparr>),
             [SendTo encodedPacket ep (SendReliable (rc_id c) s h)]))"

text \<open>The lambda that runs when the socket has sent the datagram, or failed to.\<close>

definition rc_onSent ::
  "'cc CongestionCtrl \<Rightarrow> u16 \<Rightarrow> handler \<Rightarrow> error_code \<Rightarrow> 'cc ReliableChannel \<Rightarrow> SocketStats
    \<Rightarrow> 'cc ReliableChannel \<times> SocketStats \<times> 'ep effect list" where
  "rc_onSent cc s h sendError c st =
     (if failed sendError then
        let (erased, c) = eraseSentPacket s c
        in (c\<lparr>rc_cc := cc_onLoss cc s (rc_cc c)\<rparr>,
            st\<lparr>st_sendWindowUsed := rc_inFlightCount c\<rparr>, [CompleteSend h sendError])
      else (c, st, [CompleteSend h sendError]))"

section \<open>Retransmission\<close>

fun tickLoop ::
  "'cc CongestionCtrl \<Rightarrow> time_ns \<Rightarrow> int \<Rightarrow> 'ep \<Rightarrow> SentPacket option list \<Rightarrow> 'cc \<Rightarrow> SocketStats
    \<Rightarrow> SentPacket option list \<times> 'cc \<times> SocketStats \<times> 'ep effect list" where
  "tickLoop cc now rto ep [] k st = ([], k, st, [])"
| "tickLoop cc now rto ep (None # sps) k st =
     (let (sps', k', st', es) = tickLoop cc now rto ep sps k st in (None # sps', k', st', es))"
| "tickLoop cc now rto ep (Some p # sps) k st =
     (if sp_nextRetx p > now then
        let (sps', k', st', es) = tickLoop cc now rto ep sps k st in (Some p # sps', k', st', es)
      else
        let backoffShift = min (sp_retxCount p + 1) 3;
            p' = p\<lparr>sp_nextRetx := now + millis (rto * uint (push_bit (unat backoffShift) (1 :: u32))),
                   sp_retxCount := sp_retxCount p + 1\<rparr>;
            k = cc_onLoss cc (sp_sequenceNumber p) k;
            st = countSent (length (sp_encodedPacket p))
                   (st\<lparr>st_packetsLost := st_packetsLost st + 1\<rparr>);
            (sps', k', st', es) = tickLoop cc now rto ep sps k st
        in (Some p' # sps', k', st', SendTo (sp_encodedPacket p) ep SendDiscard # es))"

definition rc_onTick ::
  "'cc CongestionCtrl \<Rightarrow> time_ns \<Rightarrow> 'ep \<Rightarrow> 'cc ReliableChannel \<Rightarrow> SocketStats
    \<Rightarrow> 'cc ReliableChannel \<times> SocketStats \<times> 'ep effect list" where
  "rc_onTick cc now ep c st =
     (let (sps, k, st, es) = tickLoop cc now (rc_retxTimeout c) ep (rc_sentPackets c) (rc_cc c) st
      in (c\<lparr>rc_sentPackets := sps, rc_cc := k\<rparr>, st, es))"

fun flushLoop :: "'ep \<Rightarrow> SentPacket option list \<Rightarrow> 'ep effect list" where
  "flushLoop ep [] = []"
| "flushLoop ep (None # sps) = flushLoop ep sps"
| "flushLoop ep (Some p # sps) = SendTo (sp_encodedPacket p) ep SendFlush # flushLoop ep sps"

definition rc_flush :: "'ep \<Rightarrow> 'cc ReliableChannel \<Rightarrow> 'ep effect list" where
  "rc_flush ep c = flushLoop ep (rc_sentPackets c)"

section \<open>Acknowledgements\<close>

definition rc_buildAck :: "'cc ReliableChannel \<Rightarrow> Packet option" where
  "rc_buildAck c =
     (if \<not> hasReceived (rc_recvAckTracker c) then None
      else Some (newPacket\<lparr>pkt_type := Ack, pkt_channel := rc_id c,
                   pkt_ack := latestSequence (rc_recvAckTracker c),
                   pkt_ackBits := ackBits (rc_recvAckTracker c)\<rparr>))"

definition updateRttEstimate :: "real \<Rightarrow> SocketStats \<Rightarrow> SocketStats" where
  "updateRttEstimate rttUs st =
     (let previous = st_avgRttUs st;
          smoothed = (if previous = 0 then rttUs else previous * 0.875 + rttUs * 0.125)
      in st\<lparr>st_avgRttUs := smoothed\<rparr>)"

fun ackLoop ::
  "'cc CongestionCtrl \<Rightarrow> time_ns \<Rightarrow> u16 \<Rightarrow> u32 \<Rightarrow> SentPacket option list \<Rightarrow> u64 \<Rightarrow> 'cc \<Rightarrow> SocketStats
    \<Rightarrow> SentPacket option list \<times> u64 \<times> 'cc \<times> SocketStats" where
  "ackLoop cc now ack bits [] n k st = ([], n, k, st)"
| "ackLoop cc now ack bits (None # sps) n k st =
     (let (sps', n', k', st') = ackLoop cc now ack bits sps n k st in (None # sps', n', k', st'))"
| "ackLoop cc now ack bits (Some p # sps) n k st =
     (if \<not> isAcknowledged (sp_sequenceNumber p) ack bits then
        let (sps', n', k', st') = ackLoop cc now ack bits sps n k st
        in (Some p # sps', n', k', st')
      else
        let rttUs = (if sp_retxCount p = 0 then of_int ((now - sp_sendTime p) sdiv 1000) else 0);
            st = (if sp_retxCount p = 0 then updateRttEstimate (real (unat rttUs)) st else st);
            k = cc_onAck cc now (sp_sequenceNumber p) rttUs k;
            (sps', n', k', st') = ackLoop cc now ack bits sps (n - 1) k st
        in (None # sps', n', k', st'))"

definition processAck ::
  "'cc CongestionCtrl \<Rightarrow> time_ns \<Rightarrow> u16 \<Rightarrow> u32 \<Rightarrow> 'cc ReliableChannel \<Rightarrow> SocketStats
    \<Rightarrow> 'cc ReliableChannel \<times> SocketStats" where
  "processAck cc now ack bits c st =
     (let (sps, n, k, st) =
            ackLoop cc now ack bits (rc_sentPackets c) (rc_inFlightCount c) (rc_cc c) st
      in (c\<lparr>rc_sentPackets := sps, rc_inFlightCount := n, rc_cc := k\<rparr>,
          st\<lparr>st_sendWindowUsed := n\<rparr>))"

section \<open>Receiving\<close>

definition isDuplicateOrStaleUnordered :: "u16 \<Rightarrow> ReceiveAckTracker \<Rightarrow> bool" where
  "isDuplicateOrStaleUnordered s t =
     (if \<not> hasReceived t then False
      else if isNewerSequence s (latestSequence t) then False
      else
        let backDelta = latestSequence t - s
        in kAckHistorySize < backDelta \<or> isAcknowledged s (latestSequence t) (ackBits t))"

definition receiveUnordered ::
  "Packet \<Rightarrow> 'cc ReliableChannel \<Rightarrow> SocketStats
    \<Rightarrow> ('cc ReliableChannel \<times> SocketStats \<times> 'ep effect list) option" where
  "receiveUnordered packet c st =
     (if isDuplicateOrStaleUnordered (pkt_seq packet) (rc_recvAckTracker c) then Some (c, st, [])
      else
        do {
          t \<leftarrow> markReceived (pkt_seq packet) (rc_recvAckTracker c);
          let (q, es) = rq_deliver (pkt_payload packet) (rc_recvQueue c);
          Some (c\<lparr>rc_recvAckTracker := t, rc_recvQueue := q\<rparr>,
                countRecv (length (pkt_payload packet)) st, es)
        })"

definition isInOrderedReceiveWindow :: "u16 \<Rightarrow> 'cc ReliableChannel \<Rightarrow> bool" where
  "isInOrderedReceiveWindow s c =
     (let delta = s - rc_expectedRecvSeq c
      in delta < max 1 (rc_sendWindow c) \<and> delta < 32768)"

lemma slotAt_SomeD:
  "slotAt xs s = Some y \<Longrightarrow> slotIndex s (length xs) < length xs \<and> xs ! slotIndex s (length xs) = Some y"
  by (auto simp: slotAt_def slotIndex_def split: if_splits)

text \<open>
  The drain loop: every round empties an occupied slot, so it ends after at most as many rounds
  as there are buffered packets.
\<close>

function drainReadyPackets ::
  "'cc ReliableChannel \<Rightarrow> SocketStats \<Rightarrow> 'cc ReliableChannel \<times> SocketStats \<times> 'ep effect list" where
  "drainReadyPackets c st =
     (case slotAt (rc_receiveBuffer c) (rc_expectedRecvSeq c) of
        None \<Rightarrow> (c, st, [])
      | Some b \<Rightarrow>
          if bp_sequenceNumber b \<noteq> rc_expectedRecvSeq c then (c, st, [])
          else
            let (q, es) = rq_deliver (bp_payload b) (rc_recvQueue c);
                (c', st', fs) = drainReadyPackets
                  (c\<lparr>rc_recvQueue := q,
                     rc_receiveBuffer := (rc_receiveBuffer c)
                       [slotIndex (rc_expectedRecvSeq c) (length (rc_receiveBuffer c)) := None],
                     rc_expectedRecvSeq := rc_expectedRecvSeq c + 1\<rparr>)
                  (countRecv (length (bp_payload b)) st)
            in (c', st', es @ fs))"
  by pat_completeness auto
termination
  by (relation "measure (\<lambda>(c, st). occupied (rc_receiveBuffer c))")
    (auto dest!: slotAt_SomeD simp flip: occupied_clear)

declare drainReadyPackets.simps [simp del]

definition receiveOrdered ::
  "Packet \<Rightarrow> 'cc ReliableChannel \<Rightarrow> SocketStats
    \<Rightarrow> ('cc ReliableChannel \<times> SocketStats \<times> 'ep effect list) option" where
  "receiveOrdered packet c st =
     (if \<not> isInOrderedReceiveWindow (pkt_seq packet) c then Some (c, st, [])
      else
        do {
          t \<leftarrow> markReceived (pkt_seq packet) (rc_recvAckTracker c);
          let c = c\<lparr>rc_recvAckTracker := t\<rparr>;
          if slotAt (rc_receiveBuffer c) (pkt_seq packet) \<noteq> None then Some (c, st, [])
          else
            Some (drainReadyPackets
              (c\<lparr>rc_receiveBuffer := (rc_receiveBuffer c)
                   [slotIndex (pkt_seq packet) (length (rc_receiveBuffer c)) :=
                      Some \<lparr>bp_sequenceNumber = pkt_seq packet, bp_payload = pkt_payload packet\<rparr>]\<rparr>)
              st)
        })"

definition rc_onRecv ::
  "'cc CongestionCtrl \<Rightarrow> bool \<Rightarrow> time_ns \<Rightarrow> Packet \<Rightarrow> 'cc ReliableChannel \<Rightarrow> SocketStats
    \<Rightarrow> ('cc ReliableChannel \<times> SocketStats \<times> 'ep effect list) option" where
  "rc_onRecv cc ordered now packet c st =
     (if pkt_type packet = Ack then
        let (c, st) = processAck cc now (pkt_ack packet) (pkt_ackBits packet) c st
        in Some (c, st, [])
      else if pkt_type packet \<noteq> Data then Some (c, st, [])
      else if ordered then receiveOrdered packet c st
      else receiveUnordered packet c st)"

definition rc_asyncRecv ::
  "nat \<Rightarrow> handler \<Rightarrow> 'cc ReliableChannel \<Rightarrow> 'cc ReliableChannel \<times> 'ep effect list" where
  "rc_asyncRecv buf h c =
     (let (q, es) = rq_asyncRecv buf h (rc_recvQueue c) in (c\<lparr>rc_recvQueue := q\<rparr>, es))"

definition rc_close :: "error_code \<Rightarrow> 'cc ReliableChannel \<Rightarrow> 'cc ReliableChannel \<times> 'ep effect list" where
  "rc_close reason c =
     (let (q, es) = rq_close reason (rc_recvQueue c) in (c\<lparr>rc_recvQueue := q\<rparr>, es))"

end
