(* ===== verification/Rude_ReliableSend.thy ===== *)
theory Rude_ReliableSend
  imports Rude_ReliableChannel
begin

text \<open>
  The send side of a reliable channel: the invariant of the whole channel that every operation
  keeps, the bound on packets in flight, what an acknowledgement releases, when a packet is
  retransmitted, and what a failed send costs.
\<close>

section \<open>Windows\<close>

lemma normalizeWindow_bounds: "1 \<le> normalizeWindow w" "normalizeWindow w \<le> 32768"
proof -
  have "w \<noteq> 0 \<Longrightarrow> 1 \<le> w"
    by (simp add: word_le_nat_alt Suc_le_eq unat_gt_0)
  then show "1 \<le> normalizeWindow w" "normalizeWindow w \<le> 32768"
    by (auto simp: normalizeWindow_def kMaxWindowSize_def min_def)
qed

lemma normalizeWindow_idem [simp]: "normalizeWindow (normalizeWindow w) = normalizeWindow w"
  using normalizeWindow_bounds [of w] by (auto simp: normalizeWindow_def kMaxWindowSize_def min_def)

lemma slotIndex_less: "0 < n \<Longrightarrow> slotIndex s n < n"
  by (simp add: slotIndex_def)

lemma slotAt_None:
  "xs \<noteq> [] \<Longrightarrow> slotAt xs s = None \<Longrightarrow>
    slotIndex s (length xs) < length xs \<and> xs ! slotIndex s (length xs) = None"
  by (simp add: slotAt_def slotIndex_less)

section \<open>The channel invariant\<close>

text \<open>
  Both slot arrays have the window's size, the in-flight counter counts the occupied send slots
  (so a decrement never wraps), every stored packet sits in the slot of its number, every buffered
  packet is ahead of the next expected number by less than the window, and the receive queue keeps
  its own invariant.
\<close>

definition sent_ok :: "SentPacket option list \<Rightarrow> bool" where
  "sent_ok sps \<longleftrightarrow> (\<forall>i<length sps. \<forall>p. sps ! i = Some p \<longrightarrow> slotIndex (sp_sequenceNumber p) (length sps) = i)"

definition buffered_ok :: "u16 \<Rightarrow> BufferedPacket option list \<Rightarrow> bool" where
  "buffered_ok ex bps \<longleftrightarrow> (\<forall>i<length bps. \<forall>b. bps ! i = Some b \<longrightarrow>
     slotIndex (bp_sequenceNumber b) (length bps) = i \<and> unat (bp_sequenceNumber b - ex) < length bps)"

definition rc_inv :: "'cc ReliableChannel \<Rightarrow> bool" where
  "rc_inv c \<longleftrightarrow> 1 \<le> rc_sendWindow c \<and> rc_sendWindow c \<le> 32768
     \<and> length (rc_sentPackets c) = unat (rc_sendWindow c)
     \<and> length (rc_receiveBuffer c) = unat (rc_sendWindow c)
     \<and> unat (rc_inFlightCount c) = occupied (rc_sentPackets c)
     \<and> sent_ok (rc_sentPackets c)
     \<and> buffered_ok (rc_expectedRecvSeq c) (rc_receiveBuffer c)
     \<and> rq_inv (rc_recvQueue c)"

lemma sent_ok_update:
  "sent_ok sps \<Longrightarrow> (\<And>p. y = Some p \<Longrightarrow> slotIndex (sp_sequenceNumber p) (length sps) = j) \<Longrightarrow>
    sent_ok (sps[j := y])"
  unfolding sent_ok_def by (metis length_list_update nth_list_update_eq nth_list_update_neq)

lemma rc_inv_window:
  "rc_inv c \<Longrightarrow> 0 < length (rc_sentPackets c) \<and> length (rc_sentPackets c) \<le> 32768"
  "rc_inv c \<Longrightarrow> 0 < length (rc_receiveBuffer c) \<and> length (rc_receiveBuffer c) \<le> 32768"
  by (auto simp: rc_inv_def word_le_nat_alt)

lemma unat_inc_u64: "unat x < 2 ^ 64 - 1 \<Longrightarrow> unat (x + 1 :: u64) = unat x + 1"
  using unat_add_lem [of x 1] by simp

lemma unat_dec_u64: "0 < unat x \<Longrightarrow> unat (x - 1 :: u64) = unat x - 1"
  by (simp add: unat_gt_0 unat_minus_one)

lemma rc_inv_new: "rc_inv (newReliableChannel cfg k)"
  using normalizeWindow_bounds
  by (simp add: rc_inv_def newReliableChannel_def Let_def windowCapacity_def sent_ok_def
      buffered_ok_def)

text \<open>Fields an operation leaves alone.\<close>

lemma rc_inv_frame:
  assumes "rc_inv c" and "rc_sendWindow c' = rc_sendWindow c"
    and "rc_sentPackets c' = rc_sentPackets c" and "rc_inFlightCount c' = rc_inFlightCount c"
    and "rc_receiveBuffer c' = rc_receiveBuffer c"
    and "rc_expectedRecvSeq c' = rc_expectedRecvSeq c" and "rc_recvQueue c' = rc_recvQueue c"
  shows "rc_inv c'"
  using assms by (simp add: rc_inv_def)

section \<open>Storing and erasing\<close>

lemma rc_inv_store:
  assumes i: "rc_inv c" and s: "storeSentPacket now s enc c = (ok, c')"
  shows "rc_inv c'"
proof (cases "slotAt (rc_sentPackets c) s")
  case None
  let ?sps = "rc_sentPackets c" and ?j = "slotIndex s (length (rc_sentPackets c))"
  have ne: "?sps \<noteq> []" using rc_inv_window(1) [OF i] by auto
  have j: "?j < length ?sps" "?sps ! ?j = None" using slotAt_None [OF ne None] by auto
  have "occupied ?sps \<le> 32768"
    using occupied_le_length [of ?sps] rc_inv_window(1) [OF i] by linarith
  then have n: "unat (rc_inFlightCount c + 1) = Suc (occupied ?sps)"
    using i by (simp add: rc_inv_def unat_inc_u64)
  have "sent_ok (?sps[?j := Some \<lparr>sp_sequenceNumber = s, sp_encodedPacket = enc,
      sp_sendTime = now, sp_nextRetx = now + millis (rc_retxTimeout c), sp_retxCount = 0\<rparr>])"
    using i by (intro sent_ok_update) (auto simp: rc_inv_def)
  with s None n occupied_fill [OF j] i show ?thesis
    by (auto simp: storeSentPacket_def rc_inv_def)
next
  case (Some p)
  then show ?thesis using assms by (simp add: storeSentPacket_def)
qed

lemma rc_inv_erase:
  assumes i: "rc_inv c" and e: "eraseSentPacket s c = (ok, c')"
  shows "rc_inv c'"
proof (cases "slotAt (rc_sentPackets c) s")
  case (Some p)
  let ?sps = "rc_sentPackets c" and ?j = "slotIndex s (length (rc_sentPackets c))"
  have j: "?j < length ?sps" "?sps ! ?j = Some p" using slotAt_SomeD [OF Some] by auto
  have "unat (rc_inFlightCount c - 1) = occupied ?sps - 1"
    using i occupied_pos [OF j] by (simp add: rc_inv_def unat_dec_u64)
  moreover have "occupied (?sps[?j := None]) = occupied ?sps - 1"
    using occupied_clear [OF j] by simp
  moreover have "sent_ok (?sps[?j := None])"
    using i by (intro sent_ok_update) (auto simp: rc_inv_def)
  ultimately show ?thesis
    using i e Some by (auto simp: eraseSentPacket_def rc_inv_def split: if_splits)
next
  case None
  then show ?thesis using assms by (simp add: eraseSentPacket_def)
qed

section \<open>The acknowledgement loop\<close>

text \<open>What the loop does to one slot, and to the array: it empties the acknowledged slots.\<close>

definition ackSlot :: "u16 \<Rightarrow> u32 \<Rightarrow> SentPacket option \<Rightarrow> SentPacket option" where
  "ackSlot ack bits sp =
     (case sp of None \<Rightarrow> None
      | Some p \<Rightarrow> if isAcknowledged (sp_sequenceNumber p) ack bits then None else Some p)"

lemma ackSlot_Some: "ackSlot ack bits sp = Some p \<Longrightarrow> sp = Some p"
  by (auto simp: ackSlot_def split: option.splits if_splits)

lemma occupied_ackSlot: "occupied (map (ackSlot ack bits) sps) \<le> occupied sps"
  by (induction sps) (auto simp: occupied_Cons ackSlot_def)

lemma ackLoop_slots: "fst (ackLoop cc now ack bits sps n k st) = map (ackSlot ack bits) sps"
  by (induction cc now ack bits sps n k st rule: ackLoop.induct)
    (auto simp: ackSlot_def Let_def case_prod_beta)

lemma ackLoop_count:
  "unat n = m + occupied sps \<Longrightarrow>
    unat (fst (snd (ackLoop cc now ack bits sps n k st))) = m + occupied (map (ackSlot ack bits) sps)"
proof (induction cc now ack bits sps n k st arbitrary: m rule: ackLoop.induct)
  case (3 cc now ack bits p sps n k st)
  show ?case
  proof (cases "isAcknowledged (sp_sequenceNumber p) ack bits")
    case True
    then have "unat (n - 1) = m + occupied sps"
      using 3(3) by (simp add: occupied_Cons unat_dec_u64)
    then show ?thesis
      using True 3(2) [OF _ refl refl refl] by (auto simp: ackSlot_def occupied_Cons Let_def case_prod_beta)
  next
    case False
    then show ?thesis
      using 3(1) [of "Suc m"] 3(3) by (simp add: ackSlot_def occupied_Cons Let_def case_prod_beta)
  qed
qed (auto simp: occupied_Cons ackSlot_def Let_def case_prod_beta)

lemma processAck_channel:
  "processAck cc now ack bits c st = (c', st') \<Longrightarrow>
    rc_sentPackets c' = map (ackSlot ack bits) (rc_sentPackets c)
    \<and> st_sendWindowUsed st' = rc_inFlightCount c'
    \<and> (\<exists>n k. c' = c\<lparr>rc_sentPackets := map (ackSlot ack bits) (rc_sentPackets c),
          rc_inFlightCount := n, rc_cc := k\<rparr>)"
  using ackLoop_slots [of cc now ack bits "rc_sentPackets c" "rc_inFlightCount c" "rc_cc c" st]
  by (auto simp: processAck_def case_prod_beta Let_def)

lemma sent_ok_map:
  "sent_ok sps \<Longrightarrow> (\<And>sp p. f sp = Some p \<Longrightarrow> \<exists>p'. sp = Some p' \<and> sp_sequenceNumber p = sp_sequenceNumber p')
    \<Longrightarrow> sent_ok (map f sps)"
  unfolding sent_ok_def by fastforce

lemma rc_inv_processAck:
  assumes i: "rc_inv c" and a: "processAck cc now ack bits c st = (c', st')"
  shows "rc_inv c'"
proof -
  have "unat (rc_inFlightCount c) = 0 + occupied (rc_sentPackets c)"
    using i by (simp add: rc_inv_def)
  from ackLoop_count [OF this, of cc now ack bits "rc_cc c" st]
  have "unat (rc_inFlightCount c') = occupied (rc_sentPackets c')"
    using a processAck_channel [OF a] by (auto simp: processAck_def case_prod_beta Let_def)
  moreover have "sent_ok (map (ackSlot ack bits) (rc_sentPackets c))"
    using i by (intro sent_ok_map) (auto simp: rc_inv_def dest: ackSlot_Some)
  ultimately show ?thesis
    using i processAck_channel [OF a] by (auto simp: rc_inv_def)
qed

section \<open>The retransmission loop\<close>

definition tickSlot :: "time_ns \<Rightarrow> int \<Rightarrow> SentPacket option \<Rightarrow> SentPacket option" where
  "tickSlot now rto sp =
     (case sp of None \<Rightarrow> None
      | Some p \<Rightarrow>
          if sp_nextRetx p > now then Some p
          else Some (p\<lparr>sp_nextRetx := now + millis (rto * uint (push_bit
                 (unat (min (sp_retxCount p + 1) 3)) (1 :: u32))), sp_retxCount := sp_retxCount p + 1\<rparr>))"

definition expired :: "time_ns \<Rightarrow> SentPacket option list \<Rightarrow> SentPacket list" where
  "expired now sps = [p. Some p \<leftarrow> sps, sp_nextRetx p \<le> now]"

lemma expired_simps [simp]:
  "expired now [] = []" "expired now (None # sps) = expired now sps"
  "expired now (Some p # sps) = (if sp_nextRetx p \<le> now then [p] else []) @ expired now sps"
  by (simp_all add: expired_def)

lemma tickLoop_slots: "fst (tickLoop cc now rto ep sps k st) = map (tickSlot now rto) sps"
  by (induction cc now rto ep sps k st rule: tickLoop.induct)
    (auto simp: tickSlot_def Let_def case_prod_beta)

lemma tickLoop_effects:
  "snd (snd (snd (tickLoop cc now rto ep sps k st)))
     = map (\<lambda>p. SendTo (sp_encodedPacket p) ep SendDiscard) (expired now sps)"
  by (induction cc now rto ep sps k st rule: tickLoop.induct)
    (auto simp: Let_def case_prod_beta)

lemma tickLoop_lost:
  "st_packetsLost (fst (snd (snd (tickLoop cc now rto ep sps k st))))
     = st_packetsLost st + of_nat (length (expired now sps))"
  by (induction cc now rto ep sps k st rule: tickLoop.induct)
    (auto simp: Let_def case_prod_beta countSent_def)

lemma occupied_tickSlot: "occupied (map (tickSlot now rto) sps) = occupied sps"
  by (induction sps) (auto simp: occupied_Cons tickSlot_def split: option.splits)

lemma rc_onTick_channel:
  "rc_onTick cc now ep c st = (c', st', es) \<Longrightarrow>
    (\<exists>k. c' = c\<lparr>rc_sentPackets := map (tickSlot now (rc_retxTimeout c)) (rc_sentPackets c), rc_cc := k\<rparr>)
    \<and> es = map (\<lambda>p. SendTo (sp_encodedPacket p) ep SendDiscard) (expired now (rc_sentPackets c))"
  using tickLoop_slots [of cc now "rc_retxTimeout c" ep "rc_sentPackets c" "rc_cc c" st]
    tickLoop_effects [of cc now "rc_retxTimeout c" ep "rc_sentPackets c" "rc_cc c" st]
  by (auto simp: rc_onTick_def case_prod_beta Let_def)

lemma rc_inv_onTick:
  assumes i: "rc_inv c" and t: "rc_onTick cc now ep c st = (c', st', es)"
  shows "rc_inv c'"
proof -
  have "sent_ok (map (tickSlot now (rc_retxTimeout c)) (rc_sentPackets c))"
    using i by (intro sent_ok_map) (auto simp: rc_inv_def tickSlot_def split: option.splits if_splits)
  then show ?thesis
    using i rc_onTick_channel [OF t] by (auto simp: rc_inv_def occupied_tickSlot)
qed

section \<open>Sending and receiving keep the invariant\<close>

lemma effectiveSendWindow_channel:
  "effectiveSendWindow cc now c = (w, c') \<Longrightarrow> (\<exists>k. c' = c\<lparr>rc_cc := k\<rparr>) \<and> 1 \<le> w
    \<and> w \<le> max 1 (ucast (rc_sendWindow c))"
  by (auto simp: effectiveSendWindow_def case_prod_beta Let_def max_def min_def)

lemma rc_inv_asyncSend:
  assumes "rc_inv c" and "rc_asyncSend cc codec now payload ep h c st = (c', st', es)"
  shows "rc_inv c'"
proof -
  obtain w k where w: "effectiveSendWindow cc now c = (w, c\<lparr>rc_cc := k\<rparr>)"
    using effectiveSendWindow_channel by (metis surj_pair)
  let ?c = "c\<lparr>rc_cc := k, rc_nextSeq := rc_nextSeq c + 1\<rparr>"
  have i: "rc_inv (c\<lparr>rc_cc := k\<rparr>)" "rc_inv ?c"
    using assms(1) by (simp_all add: rc_inv_def)
  then show ?thesis
    using assms(2) rc_inv_store [OF i(2)] unfolding rc_asyncSend_def w
    by (auto simp: Let_def split: if_splits prod.splits)
qed

lemma rc_inv_onSent:
  assumes "rc_inv c" and "rc_onSent cc s h ec c st = (c', st', es)"
  shows "rc_inv c'"
  using assms rc_inv_erase [OF assms(1), of s]
  by (auto simp: rc_onSent_def Let_def rc_inv_def split: if_splits prod.splits)

lemma buffered_ok_advance:
  assumes b: "buffered_ok ex bps" and s: "slotAt bps ex = Some b"
  shows "buffered_ok (ex + 1) (bps[slotIndex ex (length bps) := None])"
  unfolding buffered_ok_def
proof (intro allI impI)
  fix i b'
  assume i: "i < length (bps[slotIndex ex (length bps) := None])"
    and b': "bps[slotIndex ex (length bps) := None] ! i = Some b'"
  have ne: "i \<noteq> slotIndex ex (length bps)" and at: "bps ! i = Some b'"
    using i b' slotAt_SomeD [OF s] by (auto simp: nth_list_update split: if_splits)
  then have k: "slotIndex (bp_sequenceNumber b') (length bps) = i"
    "unat (bp_sequenceNumber b' - ex) < length bps"
    using b i by (auto simp: buffered_ok_def)
  then have nz: "bp_sequenceNumber b' - ex \<noteq> 0" using ne by auto
  have "unat (bp_sequenceNumber b' - ex - 1) = unat (bp_sequenceNumber b' - ex) - 1"
    using nz by (rule unat_minus_one)
  moreover have "bp_sequenceNumber b' - (ex + 1) = bp_sequenceNumber b' - ex - 1"
    by (simp add: algebra_simps)
  ultimately have "unat (bp_sequenceNumber b' - (ex + 1)) < length bps"
    using k(2) by (metis less_imp_diff_less)
  then show "slotIndex (bp_sequenceNumber b') (length (bps[slotIndex ex (length bps) := None])) = i
    \<and> unat (bp_sequenceNumber b' - (ex + 1)) < length (bps[slotIndex ex (length bps) := None])"
    using k(1) by simp
qed

lemma buffered_ok_insert:
  "buffered_ok ex bps \<Longrightarrow> unat (bp_sequenceNumber b - ex) < length bps \<Longrightarrow>
    buffered_ok ex (bps[slotIndex (bp_sequenceNumber b) (length bps) := Some b])"
  unfolding buffered_ok_def
  by (metis length_list_update nth_list_update_eq nth_list_update_neq option.inject)

text \<open>
  One round of the drain loop: the packet that is ready, if any, and the channel after it was
  handed to the queue; and the induction rule that follows the rounds.
\<close>

definition readyPacket :: "'cc ReliableChannel \<Rightarrow> BufferedPacket option" where
  "readyPacket c =
     (case slotAt (rc_receiveBuffer c) (rc_expectedRecvSeq c) of
        None \<Rightarrow> None
      | Some b \<Rightarrow> if bp_sequenceNumber b = rc_expectedRecvSeq c then Some b else None)"

definition advanced :: "RecvQueue \<Rightarrow> 'cc ReliableChannel \<Rightarrow> 'cc ReliableChannel" where
  "advanced q c = c\<lparr>rc_recvQueue := q,
     rc_receiveBuffer := (rc_receiveBuffer c)
       [slotIndex (rc_expectedRecvSeq c) (length (rc_receiveBuffer c)) := None],
     rc_expectedRecvSeq := rc_expectedRecvSeq c + 1\<rparr>"

lemma drain_done: "readyPacket c = None \<Longrightarrow> drainReadyPackets c st = (c, st, [])"
  by (subst drainReadyPackets.simps) (auto simp: readyPacket_def split: option.splits if_splits)

lemma drain_next:
  "readyPacket c = Some b \<Longrightarrow> rq_deliver (bp_payload b) (rc_recvQueue c) = (q, es) \<Longrightarrow>
    drainReadyPackets c st =
      (let (c', st', fs) = drainReadyPackets (advanced q c) (countRecv (length (bp_payload b)) st)
       in (c', st', es @ fs))"
  by (subst drainReadyPackets.simps)
    (auto simp: readyPacket_def advanced_def split: option.splits if_splits)

lemma drain_induct [consumes 1, case_names finished ready]:
  fixes es :: "'ep effect list"
  assumes "drainReadyPackets c st = (c', st', es)"
    and finished: "\<And>c st. readyPacket c = None \<Longrightarrow> P c st c st []"
    and ready: "\<And>c st b q es c' st' fs. readyPacket c = Some b \<Longrightarrow>
      rq_deliver (bp_payload b) (rc_recvQueue c) = (q, es) \<Longrightarrow>
      P (advanced q c) (countRecv (length (bp_payload b)) st) c' st' fs \<Longrightarrow> P c st c' st' (es @ fs)"
  shows "P c st c' st' es"
  using assms(1)
proof (induction "occupied (rc_receiveBuffer c)" arbitrary: c st es rule: less_induct)
  case less
  show ?case
  proof (cases "readyPacket c")
    case None
    with less.prems finished [OF None, of st] show ?thesis by (simp add: drain_done)
  next
    case (Some b)
    obtain q es1 where q: "rq_deliver (bp_payload b) (rc_recvQueue c) = (q, es1 :: 'ep effect list)"
      by fastforce
    obtain fs where d: "drainReadyPackets (advanced q c) (countRecv (length (bp_payload b)) st)
        = (c', st', fs)" and es: "es = es1 @ fs"
      using less.prems by (auto simp: drain_next [OF Some q] split: prod.splits)
    have at: "slotAt (rc_receiveBuffer c) (rc_expectedRecvSeq c) = Some b"
      using Some by (auto simp: readyPacket_def split: option.splits if_splits)
    have "Suc (occupied (rc_receiveBuffer (advanced q c))) = occupied (rc_receiveBuffer c)"
      using occupied_clear [OF slotAt_SomeD [OF at, THEN conjunct1] slotAt_SomeD [OF at, THEN conjunct2]]
      by (simp add: advanced_def)
    then have "P (advanced q c) (countRecv (length (bp_payload b)) st) c' st' fs"
      using less.hyps [OF _ d] by simp
    then show ?thesis
      using ready [OF Some q] es by simp
  qed
qed

lemma rc_inv_advanced:
  assumes "rc_inv c" and "readyPacket c = Some b"
    and "rq_deliver (bp_payload b) (rc_recvQueue c) = (q, es)"
  shows "rc_inv (advanced q c)"
proof -
  have "slotAt (rc_receiveBuffer c) (rc_expectedRecvSeq c) = Some b"
    using assms(2) by (auto simp: readyPacket_def split: option.splits if_splits)
  from buffered_ok_advance [OF _ this] rq.deliver_inv [OF _ assms(3)] assms(1)
  show ?thesis by (simp add: rc_inv_def advanced_def)
qed

lemma rc_inv_drain:
  assumes "drainReadyPackets c st = (c', st', es)"
  shows "rc_inv c \<Longrightarrow> rc_inv c'"
  using assms by (induction rule: drain_induct) (auto dest: rc_inv_advanced)

lemma inWindow_unat:
  "rc_inv c \<Longrightarrow> isInOrderedReceiveWindow s c
    \<longleftrightarrow> unat (s - rc_expectedRecvSeq c) < length (rc_receiveBuffer c)"
  by (auto simp: isInOrderedReceiveWindow_def rc_inv_def Let_def max_def word_less_nat_alt
      word_le_nat_alt)

lemma rc_inv_receiveOrdered:
  assumes i: "rc_inv c" and r: "receiveOrdered pkt c st = Some (c', st', es)"
  shows "rc_inv c'"
proof (cases "isInOrderedReceiveWindow (pkt_seq pkt) c")
  case False
  with assms show ?thesis by (simp add: receiveOrdered_def)
next
  case True
  let ?bps = "rc_receiveBuffer c" and ?j = "slotIndex (pkt_seq pkt) (length (rc_receiveBuffer c))"
  let ?b = "\<lparr>bp_sequenceNumber = pkt_seq pkt, bp_payload = pkt_payload pkt\<rparr>"
  have "buffered_ok (rc_expectedRecvSeq c) (?bps[?j := Some ?b])"
    using i True inWindow_unat [OF i] buffered_ok_insert [of _ ?bps ?b] by (simp add: rc_inv_def)
  then have b: "rc_inv (c\<lparr>rc_recvAckTracker := t, rc_receiveBuffer := ?bps[?j := Some ?b]\<rparr>)"
    and t: "rc_inv (c\<lparr>rc_recvAckTracker := t\<rparr>)" for t
    using i by (simp_all add: rc_inv_def)
  show ?thesis
    using r True t by (auto simp: receiveOrdered_def bind_eq_Some_conv Let_def
        split: if_splits dest!: rc_inv_drain [OF _ b])
qed

lemma rc_inv_receiveUnordered:
  assumes i: "rc_inv c"
    and r: "receiveUnordered pkt c st = Some (c', st', es :: 'ep effect list)"
  shows "rc_inv c'"
proof -
  obtain q fs where q: "rq_deliver (pkt_payload pkt) (rc_recvQueue c) = (q, fs :: 'ep effect list)"
    by fastforce
  have "rq_inv q" using rq.deliver_inv [OF _ q] i by (simp add: rc_inv_def)
  then show ?thesis
    using i r q by (auto simp: receiveUnordered_def bind_eq_Some_conv Let_def rc_inv_def split: if_splits)
qed

lemma rc_inv_onRecv:
  assumes "rc_inv c" and "rc_onRecv cc ordered now pkt c st = Some (c', st', es)"
  shows "rc_inv c'"
  using assms rc_inv_processAck [OF assms(1)] rc_inv_receiveOrdered rc_inv_receiveUnordered
  by (auto simp: rc_onRecv_def Let_def split: if_splits prod.splits)

lemma rc_inv_asyncRecv:
  "rc_inv c \<Longrightarrow> rc_asyncRecv buf h c = (c', es) \<Longrightarrow> rc_inv c'"
  by (auto simp: rc_asyncRecv_def Let_def rc_inv_def split: prod.splits dest: rq.recv_inv)

lemma rc_inv_close:
  "rc_inv c \<Longrightarrow> failed ec \<Longrightarrow> rc_close ec c = (c', es) \<Longrightarrow> rc_inv c'"
  by (auto simp: rc_close_def Let_def rc_inv_def split: prod.splits dest: rq.close_inv)

lemmas rc_inv_ops = rc_inv_asyncSend rc_inv_onSent rc_inv_onTick rc_inv_onRecv rc_inv_asyncRecv
  rc_inv_close

section \<open>Runs of a channel\<close>

text \<open>
  The calls a session makes on a channel, in any order: sends, their completions, receives, ticks,
  incoming packets, flushes and closes.
\<close>

datatype 'ep rc_op =
    RcSend time_ns bytes 'ep handler
  | RcSent u16 handler error_code
  | RcRecv nat handler
  | RcTick time_ns 'ep
  | RcPacket time_ns Packet
  | RcFlush 'ep
  | RcClose error_code

fun rc_step ::
  "'cc CongestionCtrl \<Rightarrow> PacketCodec \<Rightarrow> bool \<Rightarrow> 'ep rc_op \<Rightarrow> 'cc ReliableChannel \<times> SocketStats
    \<Rightarrow> (('cc ReliableChannel \<times> SocketStats) \<times> 'ep effect list) option" where
  "rc_step cc codec ordered (RcSend now payload ep h) (c, st) =
     (let (c, st, es) = rc_asyncSend cc codec now payload ep h c st in Some ((c, st), es))"
| "rc_step cc codec ordered (RcSent s h ec) (c, st) =
     (let (c, st, es) = rc_onSent cc s h ec c st in Some ((c, st), es))"
| "rc_step cc codec ordered (RcRecv buf h) (c, st) =
     (let (c, es) = rc_asyncRecv buf h c in Some ((c, st), es))"
| "rc_step cc codec ordered (RcTick now ep) (c, st) =
     (let (c, st, es) = rc_onTick cc now ep c st in Some ((c, st), es))"
| "rc_step cc codec ordered (RcPacket now pkt) (c, st) =
     map_option (\<lambda>(c, st, es). ((c, st), es)) (rc_onRecv cc ordered now pkt c st)"
| "rc_step cc codec ordered (RcFlush ep) (c, st) = Some ((c, st), rc_flush ep c)"
| "rc_step cc codec ordered (RcClose ec) (c, st) =
     (let (c, es) = rc_close (if failed ec then ec else makeErrorCode ChannelClosed) c
      in Some ((c, st), es))"

lemma rc_step_inv:
  assumes "rc_inv (fst s)" and "rc_step cc codec ordered op s = Some (s', es)"
  shows "rc_inv (fst s')"
proof -
  obtain c st where s: "s = (c, st)" by fastforce
  have i: "rc_inv c" using assms(1) s by simp
  show ?thesis
  proof (cases op)
    case (RcClose ec)
    have "failed (if failed ec then ec else makeErrorCode ChannelClosed)" by simp
    from rc_inv_close [OF i this] RcClose s assms(2) show ?thesis
      by (auto split: prod.splits)
  qed (use s i assms(2) in
        \<open>auto split: prod.splits dest: rc_inv_ops [OF i]\<close>)
qed

lemma rc_run_inv:
  "rc_inv (fst s) \<Longrightarrow> runPartial (rc_step cc codec ordered) ops s = Some (s', es) \<Longrightarrow> rc_inv (fst s')"
proof (induction ops arbitrary: s es)
  case (Cons op ops)
  from Cons.prems(2) obtain s1 es1 es2 where "rc_step cc codec ordered op s = Some (s1, es1)"
    and "runPartial (rc_step cc codec ordered) ops s1 = Some (s', es2)"
    by (rule runPartial_Cons_SomeE)
  with Cons show ?case using rc_step_inv by blast
qed simp

section \<open>Datagrams of a channel\<close>

text \<open>
  A channel sends a datagram for the first time in \<open>asyncSend\<close> and repeats it from its slot: the
  bytes it holds, the bytes first sent, the bytes repeated.
\<close>

definition heldBytes :: "'cc ReliableChannel \<Rightarrow> bytes set" where
  "heldBytes c = {sp_encodedPacket p | p. Some p \<in> set (rc_sentPackets c)}"

definition firstBytes :: "u8 \<Rightarrow> 'ep effect list \<Rightarrow> bytes set" where
  "firstBytes i es = {bs. \<exists>ep s h. (bs, ep, SendReliable i s h) \<in> set (datagrams es)}"

definition repeatedBytes :: "'ep effect list \<Rightarrow> bytes set" where
  "repeatedBytes es = {bs. \<exists>ep k. (bs, ep, k) \<in> set (datagrams es) \<and> k \<in> {SendDiscard, SendFlush}}"

lemma bytes_append [simp]:
  "firstBytes i (es @ fs) = firstBytes i es \<union> firstBytes i fs"
  "repeatedBytes (es @ fs) = repeatedBytes es \<union> repeatedBytes fs"
  by (auto simp: firstBytes_def repeatedBytes_def)

lemma bytes_quiet:
  "datagrams es = [] \<Longrightarrow> firstBytes i es = {} \<and> repeatedBytes es = {}"
  by (simp add: firstBytes_def repeatedBytes_def)

lemma rq_quiet:
  "rq_deliver m q = (q', es) \<Longrightarrow> datagrams es = []"
  "rq_asyncRecv buf h q = (q', es) \<Longrightarrow> datagrams es = []"
  "rq_close ec q = (q', es) \<Longrightarrow> datagrams es = []"
  by (auto simp: rq_defs completeRecv_def Let_def split: option.splits list.splits if_splits)

lemma drain_quiet:
  assumes "drainReadyPackets c st = (c', st', es)"
  shows "datagrams es = [] \<and> rc_sentPackets c' = rc_sentPackets c \<and> rc_id c' = rc_id c"
  using assms by (induction rule: drain_induct) (auto simp: advanced_def dest: rq_quiet)

end
