(* ===== verification/Rude_SendProperties.thy ===== *)
theory Rude_SendProperties
  imports Rude_ReliableSend
begin

text \<open>
  The properties of a reliable channel's send side, over any sequence of calls: the invariant, the
  outcome of every send, what is retransmitted and when, what an acknowledgement releases, and the
  sequence numbers that a failed send burns.
\<close>

section \<open>Provenance of datagrams\<close>

lemma heldBytes_frame [simp]:
  "heldBytes (c\<lparr>rc_cc := k\<rparr>) = heldBytes c" "heldBytes (c\<lparr>rc_nextSeq := s\<rparr>) = heldBytes c"
  "heldBytes (c\<lparr>rc_recvAckTracker := t\<rparr>) = heldBytes c"
  "heldBytes (c\<lparr>rc_recvQueue := q\<rparr>) = heldBytes c"
  by (simp_all add: heldBytes_def)

lemma receive_quiet:
  fixes es :: "'ep effect list"
  assumes "rc_onRecv cc ordered now pkt c st = Some (c', st', es)"
  shows "datagrams es = [] \<and> heldBytes c' \<subseteq> heldBytes c \<and> rc_id c' = rc_id c"
proof (cases "pkt_type pkt = Ack")
  case True
  then show ?thesis
    using assms processAck_channel [of cc now "pkt_ack pkt" "pkt_ackBits pkt" c st]
    by (fastforce simp: rc_onRecv_def heldBytes_def dest!: ackSlot_Some [OF sym]
        split: prod.splits)
next
  case False
  have o: "receiveOrdered pkt c st = Some (c', st', es) \<Longrightarrow> ?thesis"
    by (auto simp: receiveOrdered_def bind_eq_Some_conv Let_def heldBytes_def
        split: if_splits dest!: drain_quiet)
  obtain q fs where q: "rq_deliver (pkt_payload pkt) (rc_recvQueue c) = (q, fs :: 'ep effect list)"
    by fastforce
  have u: "receiveUnordered pkt c st = Some (c', st', es) \<Longrightarrow> ?thesis"
    using rq_quiet(1) [OF q]
    by (auto simp: receiveUnordered_def bind_eq_Some_conv Let_def q split: if_splits)
  show ?thesis
    using assms False o u by (auto simp: rc_onRecv_def split: if_splits)
qed

lemma store_held:
  "storeSentPacket now s enc c = (ok, c') \<Longrightarrow>
    heldBytes c' \<subseteq> (if ok then insert enc (heldBytes c) else heldBytes c) \<and> rc_id c' = rc_id c"
  by (auto simp: storeSentPacket_def heldBytes_def split: if_splits dest!: set_update_subset_insert [THEN subsetD])

lemma send_held:
  assumes "rc_asyncSend cc codec now payload ep h c st = (c', st', es)"
  shows "heldBytes c' \<subseteq> heldBytes c \<union> firstBytes (rc_id c) es \<and> repeatedBytes es = {}
    \<and> rc_id c' = rc_id c"
proof -
  obtain w k where w: "effectiveSendWindow cc now c = (w, c\<lparr>rc_cc := k\<rparr>)"
    using effectiveSendWindow_channel by (metis surj_pair)
  show ?thesis
    using assms unfolding rc_asyncSend_def w
    by (auto simp: Let_def firstBytes_def repeatedBytes_def split: if_splits prod.splits
        dest!: store_held)
qed

lemma erase_held:
  "eraseSentPacket s c = (ok, c') \<Longrightarrow> heldBytes c' \<subseteq> heldBytes c \<and> rc_id c' = rc_id c"
  by (auto simp: eraseSentPacket_def heldBytes_def split: if_splits option.splits
      dest!: set_update_subset_insert [THEN subsetD])

lemma onSent_held:
  "rc_onSent cc s h ec c st = (c', st', es) \<Longrightarrow>
    datagrams es = [] \<and> heldBytes c' \<subseteq> heldBytes c \<and> rc_id c' = rc_id c"
  using erase_held [of s c]
  by (auto simp: rc_onSent_def Let_def split: if_splits prod.splits)

lemma tick_held:
  "rc_onTick cc now ep c st = (c', st', es) \<Longrightarrow>
    heldBytes c' \<subseteq> heldBytes c \<and> firstBytes i es = {} \<and> repeatedBytes es \<subseteq> heldBytes c
    \<and> rc_id c' = rc_id c"
  by (drule rc_onTick_channel)
    (auto simp: heldBytes_def firstBytes_def repeatedBytes_def in_datagrams_iff expired_def
      tickSlot_def split: option.splits if_splits; blast)

lemma flush_held: "firstBytes i (rc_flush ep c) = {} \<and> repeatedBytes (rc_flush ep c) = heldBytes c"
proof -
  have "datagrams (flushLoop ep sps)
      = [(sp_encodedPacket p, ep, SendFlush). Some p \<leftarrow> sps]" for sps
    by (induction ep sps rule: flushLoop.induct) auto
  then show ?thesis
    by (auto simp: rc_flush_def heldBytes_def firstBytes_def repeatedBytes_def)
qed

lemma step_held:
  assumes "rc_step cc codec ordered op (c, st) = Some ((c', st'), es)"
  shows "heldBytes c' \<subseteq> heldBytes c \<union> firstBytes (rc_id c) es" (is ?held)
    and "repeatedBytes es \<subseteq> heldBytes c" (is ?repeated)
    and "rc_id c' = rc_id c" (is ?id)
proof -
  have "?held \<and> ?repeated \<and> ?id"
  proof (cases op)
    case (RcFlush ep)
    then show ?thesis using assms flush_held [of _ ep c] by auto
  next
    case (RcPacket now pkt)
    then show ?thesis
      using assms by (auto dest!: receive_quiet dest: bytes_quiet)
  next
    case (RcSent s h ec)
    then show ?thesis
      using assms bytes_quiet by (fastforce split: prod.splits dest!: onSent_held)
  next
    case (RcRecv buf h)
    then show ?thesis
      using assms rq_quiet(2) bytes_quiet
      by (fastforce simp: rc_asyncRecv_def Let_def split: prod.splits)
  next
    case (RcClose ec)
    then show ?thesis
      using assms rq_quiet(3) bytes_quiet
      by (fastforce simp: rc_close_def Let_def split: prod.splits)
  next
    case (RcTick now ep)
    then show ?thesis
      using assms tick_held by (fastforce split: prod.splits)
  next
    case (RcSend now payload ep h)
    then show ?thesis
      using assms by (auto split: prod.splits dest!: send_held)
  qed
  then show ?held ?repeated ?id by simp_all
qed

lemma run_held:
  "runPartial (rc_step cc codec ordered) ops (c, st) = Some ((c', st'), es) \<Longrightarrow>
    heldBytes c' \<subseteq> heldBytes c \<union> firstBytes (rc_id c) es
    \<and> repeatedBytes es \<subseteq> heldBytes c \<union> firstBytes (rc_id c) es"
proof (induction ops arbitrary: c st es)
  case (Cons op ops)
  from Cons.prems obtain s1 es1 es2 where
    step: "rc_step cc codec ordered op (c, st) = Some (s1, es1)"
    and run: "runPartial (rc_step cc codec ordered) ops s1 = Some ((c', st'), es2)"
    and es: "es = es1 @ es2"
    by (rule runPartial_Cons_SomeE)
  obtain c1 st1 where s1: "s1 = (c1, st1)" by fastforce
  show ?case
    using Cons.IH [OF run [unfolded s1]] step_held [OF step [unfolded s1]] by (auto simp: es)
qed (simp add: repeatedBytes_def)

lemma step_window:
  assumes "rc_step cc codec ordered op (c, st) = Some ((c', st'), es)"
  shows "rc_sendWindow c' = rc_sendWindow c"
proof -
  have d: "drainReadyPackets c0 st0 = (c1, st1, fs :: 'z effect list) \<Longrightarrow> rc_sendWindow c1 = rc_sendWindow c0"
    for c0 c1 :: "'a ReliableChannel" and st0 st1 fs
    by (induction rule: drain_induct) (auto simp: advanced_def)
  have r: "rc_onRecv cc ordered now pkt c st = Some (c', st', es) \<Longrightarrow> ?thesis" for now pkt
    by (auto simp: rc_onRecv_def receiveOrdered_def receiveUnordered_def processAck_def Let_def
        bind_eq_Some_conv case_prod_beta split: if_splits dest: d)
  show ?thesis
    using assms r
    by (cases op) (auto simp: rc_asyncSend_def rc_onSent_def rc_onTick_def rc_asyncRecv_def
        rc_close_def effectiveSendWindow_def storeSentPacket_def eraseSentPacket_def Let_def
        split: prod.splits if_splits option.splits)
qed

lemma run_window:
  "runPartial (rc_step cc codec ordered) ops (c, st) = Some ((c', st'), es) \<Longrightarrow>
    rc_sendWindow c' = rc_sendWindow c"
proof (induction ops arbitrary: c st es)
  case (Cons op ops)
  from Cons.prems obtain s1 es1 es2 where
    "rc_step cc codec ordered op (c, st) = Some (s1, es1)"
    and "runPartial (rc_step cc codec ordered) ops s1 = Some ((c', st'), es2)"
    by (rule runPartial_Cons_SomeE)
  with Cons.IH step_window show ?case by (cases s1) fastforce
qed simp

section \<open>First transmissions\<close>

text \<open>What a codec's contract gives the channel that uses it.\<close>

context packet_codec
begin

lemma encodePacket_decodes:
  "rc_encodePacket codec p (length (pkt_payload p)) \<noteq> []"
  "\<exists>c. cdc_decode codec (rc_encodePacket codec p (length (pkt_payload p))) = Inr (p\<lparr>pkt_crc := c\<rparr>)"
proof -
  let ?out = "replicate (length (pkt_payload p) + cdc_maxOverhead codec) 0"
  obtain n buf where e: "cdc_encode codec p ?out = (n, buf)" by fastforce
  have fits: "0 < n" "n \<le> length buf"
    using encode_fits [OF _ e] by simp_all
  then have enc: "rc_encodePacket codec p (length (pkt_payload p)) = take n buf"
    using e by (simp add: rc_encodePacket_def resizeBytes_def)
  show "rc_encodePacket codec p (length (pkt_payload p)) \<noteq> []"
    using fits enc by auto
  show "\<exists>c. cdc_decode codec (rc_encodePacket codec p (length (pkt_payload p))) = Inr (p\<lparr>pkt_crc := c\<rparr>)"
    using decode_encode [OF _ e] enc by simp
qed

lemma send_first:
  assumes "rc_asyncSend cc codec now payload ep h c st = (c', st', es)"
    and "(bs, ep', k) \<in> set (datagrams es)"
  shows "ep' = ep \<and> k = SendReliable (rc_id c) (rc_nextSeq c) h
    \<and> (\<exists>p. cdc_decode codec bs = Inr p \<and> pkt_type p = Data \<and> pkt_seq p = rc_nextSeq c
        \<and> pkt_channel p = rc_id c \<and> pkt_payload p = payload)"
proof -
  obtain w k' where w: "effectiveSendWindow cc now c = (w, c\<lparr>rc_cc := k'\<rparr>)"
    using effectiveSendWindow_channel by (metis surj_pair)
  let ?p = "attachAck c (newPacket\<lparr>pkt_type := Data, pkt_seq := rc_nextSeq c,
      pkt_channel := rc_id c, pkt_payload := payload\<rparr>)"
  have a: "attachAck (c\<lparr>rc_cc := k', rc_nextSeq := s\<rparr>) = attachAck c" for s
    by (simp add: attachAck_def fun_eq_iff)
  have f: "pkt_payload ?p = payload" "pkt_type ?p = Data" "pkt_seq ?p = rc_nextSeq c"
    "pkt_channel ?p = rc_id c"
    by (simp_all add: attachAck_def)
  show ?thesis
    using assms encodePacket_decodes(2) [of ?p] f unfolding rc_asyncSend_def w
    by (auto simp: Let_def a storeSentPacket_def split: if_splits prod.splits)
qed

lemma step_first:
  assumes "rc_step cc codec ordered op (c, st) = Some ((c', st'), es)"
    and "(bs, ep, SendReliable i s h) \<in> set (datagrams es)"
  shows "i = rc_id c \<and> (\<exists>now p. op = RcSend now (pkt_payload p) ep h \<and> cdc_decode codec bs = Inr p
    \<and> pkt_type p = Data \<and> pkt_seq p = s \<and> pkt_channel p = i)"
proof (cases op)
  case (RcSend now payload ep' h')
  then show ?thesis
    using assms send_first by (fastforce split: prod.splits)
next
  case (RcPacket now pkt)
  then show ?thesis using assms by (auto dest!: receive_quiet)
next
  case (RcSent s h ec)
  then show ?thesis using assms by (auto split: prod.splits dest!: onSent_held)
next
  case (RcRecv buf h)
  then show ?thesis
    using assms rq_quiet(2) by (fastforce simp: rc_asyncRecv_def Let_def split: prod.splits)
next
  case (RcClose ec)
  then show ?thesis
    using assms rq_quiet(3) by (fastforce simp: rc_close_def Let_def split: prod.splits)
next
  case (RcTick now ep')
  then show ?thesis
    using assms tick_held [where i = i] by (fastforce simp: firstBytes_def split: prod.splits)
next
  case (RcFlush ep')
  then show ?thesis using assms flush_held [of i ep' c] by (auto simp: firstBytes_def)
qed

lemma run_first:
  "runPartial (rc_step cc codec ordered) ops (c, st) = Some ((c', st'), es) \<Longrightarrow>
    (bs, ep, SendReliable i s h) \<in> set (datagrams es) \<Longrightarrow>
    i = rc_id c \<and> (\<exists>now p. RcSend now (pkt_payload p) ep h \<in> set ops \<and> cdc_decode codec bs = Inr p
      \<and> pkt_type p = Data \<and> pkt_seq p = s \<and> pkt_channel p = i)"
proof (induction ops arbitrary: c st es)
  case (Cons op ops)
  from Cons.prems(1) obtain s1 es1 es2 where
    step: "rc_step cc codec ordered op (c, st) = Some (s1, es1)"
    and run: "runPartial (rc_step cc codec ordered) ops s1 = Some ((c', st'), es2)"
    and es: "es = es1 @ es2"
    by (rule runPartial_Cons_SomeE)
  obtain c1 st1 where s1: "s1 = (c1, st1)" by fastforce
  have "(bs, ep, SendReliable i s h) \<in> set (datagrams es1) \<or>
      (bs, ep, SendReliable i s h) \<in> set (datagrams es2)"
    using Cons.prems(2) by (simp add: es)
  then show ?case
    using Cons.IH [OF run [unfolded s1]] step_first [OF step [unfolded s1], of bs ep i s h]
      step_held(3) [OF step [unfolded s1]] by fastforce
qed simp

end

section \<open>Properties\<close>

text \<open>Concrete channels the witnesses run on: a window of two packets, no congestion control.\<close>

definition smallConfig :: ReliableChannelConfig where
  "smallConfig = (reliableOptions (reliableOrdered 7))\<lparr>opt_sendWindow := 2\<rparr>"

definition smallChannel :: "unit ReliableChannel" where
  "smallChannel = newReliableChannel smallConfig ()"

definition ackFor :: "u16 \<Rightarrow> u32 \<Rightarrow> Packet" where
  "ackFor a bits = newPacket\<lparr>pkt_type := Ack, pkt_channel := 7, pkt_ack := a, pkt_ackBits := bits\<rparr>"

definition smallOps :: "nat rc_op list" where
  "smallOps = [RcSend 0 [1, 2] 9 1, RcSend 5 [3] 9 2, RcTick 300000000 9,
     RcPacket 400000000 (ackFor 1 0), RcSend 410000000 [4] 9 3, RcFlush 9]"

definition runSmall ::
  "nat rc_op list \<Rightarrow> ((unit ReliableChannel \<times> SocketStats) \<times> nat effect list) option" where
  "runSmall ops = runPartial (rc_step NullCC DefaultCodec True) ops (smallChannel, newSocketStats)"

lemma runSmall_defined: "runSmall smallOps \<noteq> None"
  by code_simp

text \<open>
  C10: in every state a reliable channel can reach from its construction, by any calls in any order
  and with any controller and codec, the in-flight counter is the number of occupied send slots (so
  no decrement wraps), it never exceeds the configured window, every stored packet is in the slot
  of its own sequence number, and every buffered packet is ahead of the next expected sequence
  number by less than the window.
\<close>

theorem reliable_channel_invariant:
  assumes "runPartial (rc_step cc codec ordered) ops (newReliableChannel cfg k, st) = Some ((c, st'), es)"
  shows "unat (rc_inFlightCount c) = occupied (rc_sentPackets c)
    \<and> unat (rc_inFlightCount c) \<le> windowCapacity (opt_sendWindow cfg)
    \<and> length (rc_sentPackets c) = windowCapacity (opt_sendWindow cfg)
    \<and> length (rc_receiveBuffer c) = windowCapacity (opt_sendWindow cfg)
    \<and> sent_ok (rc_sentPackets c) \<and> buffered_ok (rc_expectedRecvSeq c) (rc_receiveBuffer c)"
proof -
  have "rc_inv (fst (c, st'))"
    using assms by (rule rc_run_inv [rotated]) (simp add: rc_inv_new)
  moreover have "rc_sendWindow c = normalizeWindow (opt_sendWindow cfg)"
    using run_window [OF assms] by (simp add: newReliableChannel_def Let_def)
  ultimately show ?thesis
    using occupied_le_length [of "rc_sentPackets c"] by (simp add: rc_inv_def windowCapacity_def)
qed

theorem reliable_channel_invariant_witness:
  "\<exists>c st es. runSmall smallOps = Some ((c, st), es) \<and> unat (rc_inFlightCount c) \<le> 2"
proof -
  obtain c st es where r: "runSmall smallOps = Some ((c, st), es)"
    using runSmall_defined by (metis not_None_eq surj_pair)
  moreover have "windowCapacity (opt_sendWindow smallConfig) = 2" by code_simp
  ultimately show ?thesis
    using reliable_channel_invariant [OF r [unfolded runSmall_def smallChannel_def]] by auto
qed

text \<open>
  A reliable channel never invents a datagram. Whatever the calls, the datagrams it sends for the
  first time are those of an \<open>asyncSend\<close> call, and each decodes to a data packet on its own channel
  that carries the payload of that call and the sequence number the channel remembers it under;
  every datagram it retransmits or flushes is, byte for byte, one that it sent for the first time.
\<close>

theorem datagrams_come_from_sends:
  assumes "runPartial (rc_step cc DefaultCodec ordered) ops (newReliableChannel cfg k, st)
    = Some ((c, st'), es)"
  shows "((bs, ep, SendReliable i s h) \<in> set (datagrams es) \<longrightarrow>
      (\<exists>now p. RcSend now (pkt_payload p) ep h \<in> set ops \<and> decode bs = Inr p \<and> pkt_type p = Data
        \<and> pkt_seq p = s \<and> pkt_channel p = opt_id cfg \<and> i = opt_id cfg))
    \<and> ((bs, ep, SendDiscard) \<in> set (datagrams es) \<or> (bs, ep, SendFlush) \<in> set (datagrams es) \<longrightarrow>
      (\<exists>ep' s h. (bs, ep', SendReliable (opt_id cfg) s h) \<in> set (datagrams es)))"
proof -
  have n: "heldBytes (newReliableChannel cfg k) = {}" "rc_id (newReliableChannel cfg k) = opt_id cfg"
    by (auto simp: heldBytes_def newReliableChannel_def Let_def)
  have "repeatedBytes es \<subseteq> firstBytes (opt_id cfg) es"
    using run_held [OF assms] by (simp add: n)
  moreover have "(bs, ep, SendDiscard) \<in> set (datagrams es) \<or> (bs, ep, SendFlush) \<in> set (datagrams es)
      \<Longrightarrow> bs \<in> repeatedBytes es"
    by (auto simp: repeatedBytes_def)
  moreover have "bs \<in> firstBytes (opt_id cfg) es \<Longrightarrow>
      \<exists>ep' s h. (bs, ep', SendReliable (opt_id cfg) s h) \<in> set (datagrams es)"
    by (simp add: firstBytes_def)
  moreover have "cdc_decode DefaultCodec = decode" by (simp add: DefaultCodec_def)
  ultimately show ?thesis
    using default_codec.run_first [OF assms, of bs ep i s h] n(2) by fastforce
qed

theorem datagrams_come_from_sends_witness:
  "\<exists>c st es. runSmall smallOps = Some ((c, st), es)
    \<and> ([16, 0, 0, 0, 0, 0, 0, 0, 0, 7, 1, 2, 251, 245, 182, 134], 9, SendFlush) \<in> set (datagrams es)
    \<and> (\<exists>ep' s h. ([16, 0, 0, 0, 0, 0, 0, 0, 0, 7, 1, 2, 251, 245, 182, 134], ep', SendReliable 7 s h)
        \<in> set (datagrams es))"
proof -
  obtain c st es where r: "runSmall smallOps = Some ((c, st), es)"
    using runSmall_defined by (metis not_None_eq surj_pair)
  have "map_option (\<lambda>r. ([16, 0, 0, 0, 0, 0, 0, 0, 0, 7, 1, 2, 251, 245, 182, 134], 9, SendFlush)
      \<in> set (datagrams (snd r))) (runSmall smallOps) = Some True"
    by code_simp
  then have "([16, 0, 0, 0, 0, 0, 0, 0, 0, 7, 1, 2, 251, 245, 182, 134], 9, SendFlush)
      \<in> set (datagrams es)"
    by (simp add: r)
  moreover have "opt_id smallConfig = 7" by code_simp
  ultimately show ?thesis
    using r datagrams_come_from_sends [OF r [unfolded runSmall_def smallChannel_def], THEN conjunct2]
    by simp
qed

text \<open>
  C20: the three outcomes of \<open>asyncSend\<close> with the default codec. With the effective window (the
  smaller of the channel's and the controller's, at least one) full, the send is refused and nothing
  changes. With room in the window but the slot of the next sequence number still taken, the send is
  refused too, yet the sequence number is consumed although no datagram carries it. Otherwise exactly
  one datagram leaves, it decodes to the packet with that number and payload, it is stored for
  retransmission with the first deadline one timeout ahead, and the number of packets in flight
  grows by one and stays within the effective window.
\<close>

theorem async_send_outcome:
  assumes "rc_inv c" and "rc_asyncSend cc DefaultCodec now payload ep h c st = (c', st', es)"
    and "w = max 1 (min (ucast (rc_sendWindow c)) (fst (cc_sendWindow cc now (rc_cc c))))"
  shows "if w \<le> rc_inFlightCount c then
      es = [CompleteSend h (makeErrorCode SendWindowFull)] \<and> st' = st
      \<and> rc_nextSeq c' = rc_nextSeq c \<and> rc_sentPackets c' = rc_sentPackets c
    else if slotAt (rc_sentPackets c) (rc_nextSeq c) \<noteq> None then
      es = [CompleteSend h (makeErrorCode SendWindowFull)] \<and> st' = st
      \<and> rc_nextSeq c' = rc_nextSeq c + 1 \<and> rc_sentPackets c' = rc_sentPackets c
    else
      rc_nextSeq c' = rc_nextSeq c + 1
      \<and> unat (rc_inFlightCount c') = unat (rc_inFlightCount c) + 1 \<and> rc_inFlightCount c' \<le> w
      \<and> (\<exists>bs p. es = [SendTo bs ep (SendReliable (rc_id c) (rc_nextSeq c) h)]
          \<and> decode bs = Inr p \<and> pkt_type p = Data \<and> pkt_seq p = rc_nextSeq c
          \<and> pkt_channel p = rc_id c \<and> pkt_payload p = payload
          \<and> st' = countSent (length bs) (st\<lparr>st_sendWindowUsed := rc_inFlightCount c'\<rparr>)
          \<and> slotAt (rc_sentPackets c') (rc_nextSeq c) = Some \<lparr>sp_sequenceNumber = rc_nextSeq c,
              sp_encodedPacket = bs, sp_sendTime = now,
              sp_nextRetx = now + millis (rc_retxTimeout c), sp_retxCount = 0\<rparr>)"
proof -
  obtain w' k where e: "effectiveSendWindow cc now c = (w', c\<lparr>rc_cc := k\<rparr>)"
    using effectiveSendWindow_channel by (metis surj_pair)
  have w: "w' = w" using e assms(3) by (simp add: effectiveSendWindow_def case_prod_beta Let_def)
  note send = assms(2) [unfolded rc_asyncSend_def e w]
  show ?thesis
  proof (cases "w \<le> rc_inFlightCount c")
    case True
    then show ?thesis using send by auto
  next
    case room: False
    let ?p = "attachAck c (newPacket\<lparr>pkt_type := Data, pkt_seq := rc_nextSeq c,
        pkt_channel := rc_id c, pkt_payload := payload\<rparr>)"
    let ?bs = "rc_encodePacket DefaultCodec ?p (length payload)"
    have f: "pkt_payload ?p = payload" "pkt_type ?p = Data" "pkt_seq ?p = rc_nextSeq c"
      "pkt_channel ?p = rc_id c"
      by (simp_all add: attachAck_def)
    have a: "attachAck (c\<lparr>rc_cc := k, rc_nextSeq := s\<rparr>) = attachAck c" for s
      by (simp add: attachAck_def fun_eq_iff)
    have ne: "?bs \<noteq> []" and dec: "\<exists>q. decode ?bs = Inr (?p\<lparr>pkt_crc := q\<rparr>)"
      using default_codec.encodePacket_decodes [of ?p] f by (simp_all add: DefaultCodec_def)
    have sent: "rc_sentPackets c \<noteq> []" using rc_inv_window(1) [OF assms(1)] by auto
    have "unat (rc_inFlightCount c) < 2 ^ 64 - 1"
      using occupied_le_length [of "rc_sentPackets c"] rc_inv_window(1) [OF assms(1)] assms(1)
      by (simp add: rc_inv_def)
    then have inc: "unat (rc_inFlightCount c + 1) = unat (rc_inFlightCount c) + 1"
      by (rule unat_inc_u64)
    then have "rc_inFlightCount c + 1 \<le> w"
      using room by (simp add: word_le_nat_alt)
    with room send sent ne dec inc f slotIndex_less [of "length (rc_sentPackets c)"] show ?thesis
      by (auto simp: Let_def a storeSentPacket_def slotAt_def split: if_splits)
  qed
qed

text \<open>The three outcomes on the small channel: sent, refused by the window, refused by the slot.\<close>

definition afterOps :: "nat rc_op list \<Rightarrow> unit ReliableChannel" where
  "afterOps ops = (case runSmall ops of Some ((c, st), es) \<Rightarrow> c | None \<Rightarrow> smallChannel)"

definition conflictOps :: "nat rc_op list" where
  "conflictOps = [RcSend 0 [1, 2] 9 1, RcSend 5 [3] 9 2, RcPacket 400 (ackFor 1 0)]"

lemma afterOps_inv: "rc_inv (afterOps ops)"
proof (cases "runSmall ops")
  case (Some r)
  then show ?thesis
    using rc_run_inv [of "(smallChannel, newSocketStats)" NullCC DefaultCodec True ops]
    by (auto simp: afterOps_def runSmall_def rc_inv_new smallChannel_def split: prod.splits)
qed (simp add: afterOps_def smallChannel_def rc_inv_new)

theorem async_send_outcome_witness:
  "\<exists>c' st' es. rc_asyncSend NullCC DefaultCodec 410 [4] (9 :: nat) 3 (afterOps conflictOps) newSocketStats
      = (c', st', es)
    \<and> es = [CompleteSend 3 (makeErrorCode SendWindowFull)] \<and> rc_nextSeq c' = 3
    \<and> unat (rc_inFlightCount (afterOps conflictOps)) = 1"
proof -
  let ?c = "afterOps conflictOps"
  obtain c' st' es where r: "rc_asyncSend NullCC DefaultCodec 410 [4] (9 :: nat) 3 ?c newSocketStats
      = (c', st', es)"
    using prod_cases3 by blast
  have w: "2 = max 1 (min (ucast (rc_sendWindow ?c)) (fst (cc_sendWindow NullCC 410 (rc_cc ?c))))"
    by code_simp
  have n: "rc_inFlightCount ?c = 1" "rc_nextSeq ?c = 2" by code_simp+
  have taken: "slotAt (rc_sentPackets ?c) (rc_nextSeq ?c) \<noteq> None" by code_simp
  have room: "\<not> (2 :: u64) \<le> rc_inFlightCount ?c" by code_simp
  have "es = [CompleteSend 3 (makeErrorCode SendWindowFull)] \<and> rc_nextSeq c' = rc_nextSeq ?c + 1"
    using async_send_outcome [OF afterOps_inv r w, unfolded if_not_P [OF room] if_P [OF taken]] by blast
  then have "es = [CompleteSend 3 (makeErrorCode SendWindowFull)] \<and> rc_nextSeq c' = 3"
    by (simp add: n)
  then show ?thesis using r n by simp
qed

text \<open>
  C21: a tick retransmits exactly the stored packets whose deadline has passed, in slot order and
  unchanged, counts each as lost, and pushes only their deadlines: by the timeout times two after the
  first retransmission, four after the second, eight from the third on. Packets are never dropped
  however often they were retransmitted, and no sequence number or counter of packets in flight moves.
\<close>

theorem tick_retransmits_expired:
  assumes "rc_onTick cc now ep c st = (c', st', es)"
  shows "es = map (\<lambda>p. SendTo (sp_encodedPacket p) ep SendDiscard)
        [p. Some p \<leftarrow> rc_sentPackets c, sp_nextRetx p \<le> now]
    \<and> st_packetsLost st' = st_packetsLost st + of_nat (length es)
    \<and> rc_nextSeq c' = rc_nextSeq c \<and> rc_inFlightCount c' = rc_inFlightCount c
    \<and> rc_sentPackets c' = map (map_option (\<lambda>p. if now < sp_nextRetx p then p
        else p\<lparr>sp_nextRetx := now + millis (rc_retxTimeout c * 2 ^ min (unat (sp_retxCount p + 1)) 3),
               sp_retxCount := sp_retxCount p + 1\<rparr>)) (rc_sentPackets c)"
proof -
  have shift: "uint (2 ^ unat (min n 3) :: u32) = 2 ^ min (unat n) 3" for n :: u32
  proof -
    have "unat (min n 3) = min (unat n) 3" by (simp add: min_def word_le_nat_alt)
    moreover have "min (unat n) 3 \<in> {0, 1, 2, 3}" by auto
    ultimately show ?thesis by auto
  qed
  have slots: "tickSlot now (rc_retxTimeout c) = map_option (\<lambda>p. if now < sp_nextRetx p then p
      else p\<lparr>sp_nextRetx := now + millis (rc_retxTimeout c * 2 ^ min (unat (sp_retxCount p + 1)) 3),
             sp_retxCount := sp_retxCount p + 1\<rparr>)"
    by (auto simp: fun_eq_iff tickSlot_def shift split: option.splits)
  have "st_packetsLost st' = st_packetsLost st + of_nat (length (expired now (rc_sentPackets c)))"
    using assms tickLoop_lost [of cc now "rc_retxTimeout c" ep "rc_sentPackets c" "rc_cc c" st]
    by (simp add: rc_onTick_def case_prod_beta Let_def)
  with rc_onTick_channel [OF assms] show ?thesis
    by (auto simp: expired_def slots)
qed

theorem tick_retransmits_expired_witness:
  "\<exists>c' st' es. rc_onTick NullCC 300000000 (9 :: nat) (afterOps conflictOps) newSocketStats = (c', st', es)
    \<and> es = [SendTo [16, 0, 0, 0, 0, 0, 0, 0, 0, 7, 1, 2, 251, 245, 182, 134] 9 SendDiscard]
    \<and> map (map_option sp_nextRetx) (rc_sentPackets c') = [Some 700000000, None]"
proof -
  obtain c' st' es where r: "rc_onTick NullCC 300000000 (9 :: nat) (afterOps conflictOps) newSocketStats
      = (c', st', es)"
    using prod_cases3 by blast
  have "rc_sentPackets (afterOps conflictOps) = [Some \<lparr>sp_sequenceNumber = 0,
      sp_encodedPacket = [16, 0, 0, 0, 0, 0, 0, 0, 0, 7, 1, 2, 251, 245, 182, 134],
      sp_sendTime = 0, sp_nextRetx = 200000000, sp_retxCount = 0\<rparr>, None]"
    and "rc_retxTimeout (afterOps conflictOps) = 200"
    by code_simp+
  then show ?thesis
    using r tick_retransmits_expired [OF r] by simp
qed

text \<open>
  C12: an acknowledgement releases exactly what the peer has received and can still name. Behind the
  16-bit numbers let the packets have unbounded indices; if the peer received the indices \<open>R\<close>, the
  largest being \<open>L\<close>, and every packet still in flight is within half the number space of \<open>L\<close>, then
  the packet that the peer's \<open>buildAck\<close> produces frees the slots whose index is in \<open>R\<close> and at most
  32 behind \<open>L\<close>, and keeps every other; an index that was not received is never released.
\<close>

theorem ack_releases_received:
  assumes "tracks (rc_recvAckTracker peer) L R"
    and "\<And>p. Some p \<in> set (rc_sentPackets c) \<Longrightarrow> sp_sequenceNumber p = of_nat (idx p) \<and> near L (idx p)"
  shows "\<exists>a c' st'. rc_buildAck peer = Some a \<and> rc_onRecv cc ordered now a c st = Some (c', st', [])
    \<and> rc_sentPackets c' = map (\<lambda>sp. case sp of None \<Rightarrow> None
        | Some p \<Rightarrow> if idx p \<in> R \<and> L \<le> idx p + 32 then None else Some p) (rc_sentPackets c)"
proof -
  let ?t = "rc_recvAckTracker peer"
  obtain c' st' where p: "processAck cc now (latestSequence ?t) (ackBits ?t) c st = (c', st')"
    by fastforce
  have "ackSlot (latestSequence ?t) (ackBits ?t) sp = (case sp of None \<Rightarrow> None
      | Some p \<Rightarrow> if idx p \<in> R \<and> L \<le> idx p + 32 then None else Some p)"
    if "sp \<in> set (rc_sentPackets c)" for sp
    using that assms(2) tracks_isAcknowledged [OF assms(1)]
    by (auto simp: ackSlot_def split: option.splits)
  with p processAck_channel [OF p] assms(1) show ?thesis
    by (auto simp: rc_buildAck_def rc_onRecv_def tracks_def)
qed

definition peerChannel :: "unit ReliableChannel" where
  "peerChannel = smallChannel\<lparr>rc_recvAckTracker := \<lparr>hasReceived = True, latestSequence = 1, ackBits = 0\<rparr>\<rparr>"

definition twoInFlight :: "nat rc_op list" where
  "twoInFlight = [RcSend 0 [1, 2] 9 1, RcSend 5 [3] 9 2]"

theorem ack_releases_received_witness:
  "\<exists>a c' st'. rc_buildAck peerChannel = Some a
    \<and> rc_onRecv NullCC True 400 a (afterOps twoInFlight) newSocketStats = Some (c', st', [] :: nat effect list)
    \<and> map (map_option sp_sequenceNumber) (rc_sentPackets c') = [Some 0, None]"
proof -
  let ?c = "afterOps twoInFlight" and ?idx = "\<lambda>p. unat (sp_sequenceNumber p)"
  have t: "tracks (rc_recvAckTracker peerChannel) 1 {1}"
    by (simp add: tracks_def peerChannel_def)
  have m: "map (map_option sp_sequenceNumber) (rc_sentPackets ?c) = [Some 0, Some 1]"
    by code_simp
  then obtain p q where s: "rc_sentPackets ?c = [Some p, Some q]" "sp_sequenceNumber p = 0"
    "sp_sequenceNumber q = 1"
    by (auto simp: map_eq_Cons_conv)
  have i: "sp_sequenceNumber r = of_nat (?idx r) \<and> near 1 (?idx r)" if "Some r \<in> set (rc_sentPackets ?c)" for r
    using that s by (auto simp: near_def)
  show ?thesis
    using ack_releases_received [OF t i, where cc = NullCC and ordered = True and now = 400] s by fastforce
qed

end
