(* ===== verification/Rude_Reorder.thy ===== *)
theory Rude_Reorder
  imports Rude_ReliableChannel
begin

text \<open>
  The ring of slots behind in-order delivery, shared by the ordered reliable channel and by
  \<^verbatim>\<open>detail/ReorderBuffer.hpp\<close>: what a ring holds in terms of unbounded packet indices, the
  contract of a reorder store as a locale with its in-order theorem, and the reorder buffer itself
  as one provider of that contract (the channel is the other, in its own theory).
\<close>

section \<open>Rings\<close>

text \<open>
  A ring of \<open>W\<close> slots with next index \<open>n\<close> holds the items of the indices \<open>H\<close>, all in
  \<open>{n..<n + W}\<close>, each in slot \<open>i mod W\<close>. \<open>W\<close> divides the number of sequence numbers, so that
  the slot of a wrapped sequence number is the slot of its index.
\<close>

definition ring_rel :: "(nat \<Rightarrow> 'a) \<Rightarrow> 'a option list \<Rightarrow> nat \<Rightarrow> nat set \<Rightarrow> bool" where
  "ring_rel item xs n H \<longleftrightarrow> length xs dvd 65536 \<and> H \<subseteq> {n..<n + length xs}
     \<and> (\<forall>i\<in>{n..<n + length xs}. xs ! (i mod length xs) = (if i \<in> H then Some (item i) else None))"

lemma mod_window_inj:
  fixes i j n W :: nat
  assumes "n \<le> i" "i < n + W" "n \<le> j" "j < n + W" "i mod W = j mod W"
  shows "i = j"
proof -
  have "i = j" if "j < i + W" "i mod W = j mod W" "i \<le> j" for i j :: nat
  proof -
    have "W dvd j - i" using mod_eq_dvd_iff_nat [OF that(3), of W] that(2) by simp
    moreover have "j - i < W" using that by linarith
    ultimately have "j - i = 0" using nat_dvd_not_less by blast
    then show ?thesis using that(3) by simp
  qed
  from this [of j i] this [of i j] assms show ?thesis by (cases "i \<le> j") auto
qed

lemma upto_step:
  "Suc n \<le> n' \<Longrightarrow> {n..<n'} = insert n {Suc n..<n'}" "Suc n \<le> n' \<Longrightarrow> [n..<n'] = n # [Suc n..<n']"
  by (auto simp: upt_rec [of n])

lemma ring_rel_nonempty: "ring_rel item xs n H \<Longrightarrow> 0 < length xs \<and> length xs \<le> 65536"
  by (auto simp: ring_rel_def intro: dvd_imp_le dest: gr0I)

lemma ring_rel_head:
  "ring_rel item xs n H \<Longrightarrow> xs ! (n mod length xs) = (if n \<in> H then Some (item n) else None)"
  using ring_rel_nonempty [of item xs n H] by (auto simp: ring_rel_def)

lemma ring_rel_slot:
  "ring_rel item xs n H \<Longrightarrow> n \<le> i \<Longrightarrow> i < n + length xs \<Longrightarrow>
    xs ! (i mod length xs) = (if i \<in> H then Some (item i) else None)"
  by (simp add: ring_rel_def)

lemma ring_rel_insert:
  assumes r: "ring_rel item xs n H" and i: "n \<le> i" "i < n + length xs"
  shows "ring_rel item (xs[i mod length xs := Some (item i)]) n (insert i H)"
  unfolding ring_rel_def
proof (intro conjI ballI)
  fix j assume j: "j \<in> {n..<n + length (xs[i mod length xs := Some (item i)])}"
  show "xs[i mod length xs := Some (item i)] ! (j mod length (xs[i mod length xs := Some (item i)]))
      = (if j \<in> insert i H then Some (item j) else None)"
  proof (cases "j = i")
    case True
    then show ?thesis using ring_rel_nonempty [OF r] by simp
  next
    case False
    then have "i mod length xs \<noteq> j mod length xs"
      using mod_window_inj [OF i, of j] j by auto
    then show ?thesis using r j False by (simp add: ring_rel_def)
  qed
qed (use r i in \<open>auto simp: ring_rel_def\<close>)

lemma ring_rel_advance:
  assumes r: "ring_rel item xs n H" and n: "n \<in> H"
  shows "ring_rel item (xs[n mod length xs := None]) (Suc n) (H - {n})"
  unfolding ring_rel_def
proof (intro conjI ballI)
  fix j assume j: "j \<in> {Suc n..<Suc n + length (xs[n mod length xs := None])}"
  show "xs[n mod length xs := None] ! (j mod length (xs[n mod length xs := None]))
      = (if j \<in> H - {n} then Some (item j) else None)"
  proof (cases "j = n + length xs")
    case True
    then show ?thesis using r ring_rel_nonempty [OF r] by (auto simp: ring_rel_def)
  next
    case False
    then have "n mod length xs \<noteq> j mod length xs"
      using mod_window_inj [of n n "length xs" j] j ring_rel_nonempty [OF r] by auto
    then show ?thesis using r j False by (auto simp: ring_rel_def)
  qed
qed (use r n in \<open>auto simp: ring_rel_def\<close>)

lemma near_code [code]: "near L n \<longleftrightarrow> int n < int L + 32768 \<and> int L \<le> int n + 32768"
  by (auto simp: near_def)

section \<open>The contract of a reorder store\<close>

text \<open>
  A store relates to a next index and a set of held indices. Accepting an index inside the window
  holds it, outside the window changes nothing; draining hands out the items from the next index
  up to the first one missing.
\<close>

text \<open>Arrivals: each is accepted, then the store is drained.\<close>

definition arriveBy :: "(nat \<Rightarrow> 's \<Rightarrow> 's) \<Rightarrow> ('s \<Rightarrow> 's \<times> 'm list) \<Rightarrow> nat \<Rightarrow> 's \<Rightarrow> 's \<times> 'm list" where
  "arriveBy accept drainAll i s = drainAll (accept i s)"

text \<open>
  Every arrival is within half the number space of the index that is next at that moment; and the
  stronger condition that none is beyond the window either.
\<close>

fun arrivalsNear :: "(nat \<Rightarrow> 's \<Rightarrow> 's \<times> 'm list) \<Rightarrow> nat list \<Rightarrow> nat \<Rightarrow> 's \<Rightarrow> bool" where
  "arrivalsNear f [] n s = True"
| "arrivalsNear f (i # is) n s \<longleftrightarrow> near n i \<and> (let (s', ms) = f i s in arrivalsNear f is (n + length ms) s')"

fun arrivalsWithin :: "nat \<Rightarrow> (nat \<Rightarrow> 's \<Rightarrow> 's \<times> 'm list) \<Rightarrow> nat list \<Rightarrow> nat \<Rightarrow> 's \<Rightarrow> bool" where
  "arrivalsWithin W f [] n s = True"
| "arrivalsWithin W f (i # is) n s \<longleftrightarrow> near n i \<and> i < n + W
     \<and> (let (s', ms) = f i s in arrivalsWithin W f is (n + length ms) s')"

locale reorder_store =
  fixes rel :: "'s \<Rightarrow> nat \<Rightarrow> nat set \<Rightarrow> bool"
    and accept :: "nat \<Rightarrow> 's \<Rightarrow> 's"
    and drainAll :: "'s \<Rightarrow> 's \<times> 'm list"
    and item :: "nat \<Rightarrow> 'm"
    and W :: nat
  assumes accept_inside: "rel s n H \<Longrightarrow> n \<le> i \<Longrightarrow> i < n + W \<Longrightarrow> rel (accept i s) n (insert i H)"
    and accept_outside: "rel s n H \<Longrightarrow> near n i \<Longrightarrow> i < n \<or> n + W \<le> i \<Longrightarrow> rel (accept i s) n H"
    and drain_run: "rel s n H \<Longrightarrow> drainAll s = (s', ms) \<Longrightarrow>
      \<exists>n'. n \<le> n' \<and> {n..<n'} \<subseteq> H \<and> n' \<notin> H \<and> ms = map item [n..<n'] \<and> rel s' n' (H - {n..<n'})"
begin

abbreviation arrive :: "nat \<Rightarrow> 's \<Rightarrow> 's \<times> 'm list" where
  "arrive \<equiv> arriveBy accept drainAll"

lemma arrive_step:
  assumes "rel s n H" and "near n i" and "arrive i s = (s', ms)"
  shows "\<exists>n' H'. rel s' n' H' \<and> n \<le> n' \<and> ms = map item [n..<n'] \<and> n' \<notin> H'
    \<and> (n \<le> i \<longrightarrow> i < n + W \<longrightarrow> i < n' \<or> i \<in> H') \<and> H \<subseteq> {n..<n'} \<union> H' \<and> {n..<n'} \<union> H' \<subseteq> insert i H
    \<and> (i \<noteq> n \<longrightarrow> n \<notin> H \<longrightarrow> n' = n)"
proof (cases "n \<le> i \<and> i < n + W")
  case True
  from accept_inside [OF assms(1)] True have "rel (accept i s) n (insert i H)" by simp
  from drain_run [OF this assms(3) [unfolded arriveBy_def]] obtain n' where
    n': "n \<le> n'" "{n..<n'} \<subseteq> insert i H" "n' \<notin> insert i H" "ms = map item [n..<n']"
      "rel s' n' (insert i H - {n..<n'})" by blast
  have "n' = n" if "i \<noteq> n" "n \<notin> H"
    using n'(1,2) that by (metis atLeastLessThan_iff insertE le_neq_implies_less order_refl subsetD)
  then show ?thesis
    using n' True by (intro exI [of _ n'] exI [of _ "insert i H - {n..<n'}"]) auto
next
  case False
  then have "rel (accept i s) n H" using accept_outside [OF assms(1,2)] by linarith
  from drain_run [OF this assms(3) [unfolded arriveBy_def]] obtain n' where
    n': "n \<le> n'" "{n..<n'} \<subseteq> H" "n' \<notin> H" "ms = map item [n..<n']" "rel s' n' (H - {n..<n'})"
    by blast
  have "n' = n" if "n \<notin> H"
    using n'(1,2) that by (metis atLeastLessThan_iff le_neq_implies_less order_refl subsetD)
  then show ?thesis
    using n' False by (intro exI [of _ n'] exI [of _ "H - {n..<n'}"]) auto
qed

text \<open>
  Whatever the order of arrivals, with losses and duplicates, what comes out is the stream from the
  starting index on, in order, each item once, with nothing left out.
\<close>

theorem in_order:
  "rel s n H \<Longrightarrow> arrivalsNear arrive is n s \<Longrightarrow> runOps arrive is s = (s', ms) \<Longrightarrow>
    \<exists>n' H'. rel s' n' H' \<and> n \<le> n' \<and> ms = map item [n..<n']"
proof (induction "is" arbitrary: s n H ms)
  case (Cons i "is")
  obtain s1 ms1 where a: "arrive i s = (s1, ms1)" by fastforce
  from arrive_step [OF Cons.prems(1) _ a] Cons.prems(2) obtain n1 H1 where
    r: "rel s1 n1 H1" "n \<le> n1" "ms1 = map item [n..<n1]" by auto
  obtain ms2 where run: "runOps arrive is s1 = (s', ms2)" "ms = ms1 @ ms2"
    using Cons.prems(3) a by (auto split: prod.splits)
  have "arrivalsNear arrive is n1 s1" using Cons.prems(2) a r by simp
  from Cons.IH [OF r(1) this run(1)] obtain n' H' where
    "rel s' n' H'" "n1 \<le> n'" "ms2 = map item [n1..<n']" by blast
  then show ?case
    using r run(2) by (metis le_trans map_append upt_add_eq_append le_Suc_ex)
qed auto

text \<open>
  When no arrival is beyond the window of its moment, everything up to the first index that never
  arrived has been handed out.
\<close>

theorem complete:
  "rel s n H \<Longrightarrow> n \<notin> H \<Longrightarrow> arrivalsWithin W arrive is n s \<Longrightarrow> runOps arrive is s = (s', ms) \<Longrightarrow>
    \<exists>n' H'. rel s' n' H' \<and> n \<le> n' \<and> ms = map item [n..<n'] \<and> n' \<notin> H'
      \<and> H \<union> {i \<in> set is. n \<le> i} \<subseteq> {n..<n'} \<union> H' \<and> {n..<n'} \<union> H' \<subseteq> H \<union> set is"
proof (induction "is" arbitrary: s n H ms)
  case (Cons i "is")
  obtain s1 ms1 where a: "arrive i s = (s1, ms1)" by fastforce
  from arrive_step [OF Cons.prems(1) _ a] Cons.prems(3) obtain n1 H1 where
    r: "rel s1 n1 H1" "n \<le> n1" "ms1 = map item [n..<n1]" "n1 \<notin> H1"
    and i: "n \<le> i \<longrightarrow> i < n1 \<or> i \<in> H1" "H \<subseteq> {n..<n1} \<union> H1" "{n..<n1} \<union> H1 \<subseteq> insert i H" by auto
  obtain ms2 where run: "runOps arrive is s1 = (s', ms2)" "ms = ms1 @ ms2"
    using Cons.prems(4) a by (auto split: prod.splits)
  have "arrivalsWithin W arrive is n1 s1" using Cons.prems(3) a r by simp
  from Cons.IH [OF r(1,4) this run(1)] obtain n' H' where
    n': "rel s' n' H'" "n1 \<le> n'" "ms2 = map item [n1..<n']" "n' \<notin> H'"
    "H1 \<union> {i \<in> set is. n1 \<le> i} \<subseteq> {n1..<n'} \<union> H'" "{n1..<n'} \<union> H' \<subseteq> H1 \<union> set is" by blast
  have "ms = map item [n..<n']"
    using r(2,3) n'(2,3) run(2) by (metis le_Suc_ex map_append upt_add_eq_append)
  moreover have "H \<union> {j \<in> set (i # is). n \<le> j} \<subseteq> {n..<n'} \<union> H'"
  proof
    fix j assume j: "j \<in> H \<union> {j \<in> set (i # is). n \<le> j}"
    then have "j \<in> {n..<n1} \<union> H1 \<or> j \<in> set is \<and> n1 \<le> j"
      using i Cons.prems(1) by (cases "j < n1") auto
    then show "j \<in> {n..<n'} \<union> H'" using n'(2,5) r(2) by auto
  qed
  moreover have "{n..<n'} \<union> H' \<subseteq> H \<union> set (i # is)"
  proof
    fix j assume "j \<in> {n..<n'} \<union> H'"
    then have "j \<in> {n..<n1} \<or> j \<in> {n1..<n'} \<union> H'" by auto
    then show "j \<in> H \<union> set (i # is)" using n'(6) i(3) by auto
  qed
  moreover have "n \<le> n'" using n'(2) r(2) by simp
  ultimately show ?case using n'(1,4) by (intro exI [of _ n'] exI [of _ H']) blast
next
  case Nil
  then show ?case by (intro exI [of _ n] exI [of _ H]) auto
qed

end

section \<open>The reorder buffer\<close>

text \<open>
  \<^verbatim>\<open>ReorderBuffer<N>\<close>, with \<open>N\<close> the length of the slot array. The drain loop empties an
  occupied slot in each round.
\<close>

record ReorderBuffer =
  rb_slots :: "Packet option list"
  rb_nextSeq :: u16
  rb_ready :: "Packet list"

definition newReorderBuffer :: "nat \<Rightarrow> ReorderBuffer" where
  "newReorderBuffer n = \<lparr>rb_slots = replicate n None, rb_nextSeq = 0, rb_ready = []\<rparr>"

definition rb_insert :: "Packet \<Rightarrow> ReorderBuffer \<Rightarrow> ReorderBuffer" where
  "rb_insert pkt b =
     (let offset = pkt_seq pkt - rb_nextSeq b in
      if length (rb_slots b) \<le> unat offset then b
      else if slotAt (rb_slots b) (pkt_seq pkt) \<noteq> None then b
      else b\<lparr>rb_slots := (rb_slots b)[slotIndex (pkt_seq pkt) (length (rb_slots b)) := Some pkt]\<rparr>)"

function rb_drainLoop :: "ReorderBuffer \<Rightarrow> ReorderBuffer" where
  "rb_drainLoop b =
     (case slotAt (rb_slots b) (rb_nextSeq b) of
        None \<Rightarrow> b
      | Some pkt \<Rightarrow> rb_drainLoop
          (b\<lparr>rb_ready := rb_ready b @ [pkt],
             rb_slots := (rb_slots b)[slotIndex (rb_nextSeq b) (length (rb_slots b)) := None],
             rb_nextSeq := rb_nextSeq b + 1\<rparr>))"
  by pat_completeness auto
termination
  by (relation "measure (\<lambda>b. occupied (rb_slots b))") (auto dest!: slotAt_SomeD simp flip: occupied_clear)

declare rb_drainLoop.simps [simp del]

definition rb_drain :: "ReorderBuffer \<Rightarrow> ReorderBuffer \<times> Packet list" where
  "rb_drain b = (let b = rb_drainLoop (b\<lparr>rb_ready := []\<rparr>) in (b, rb_ready b))"

definition rb_empty :: "ReorderBuffer \<Rightarrow> bool" where
  "rb_empty b = (slotAt (rb_slots b) (rb_nextSeq b) = None)"

text \<open>A stream of packets: the packet of index \<open>i\<close> carries the wrapped number.\<close>

definition numbered :: "(nat \<Rightarrow> Packet) \<Rightarrow> nat \<Rightarrow> Packet" where
  "numbered pk i = (pk i)\<lparr>pkt_seq := of_nat i\<rparr>"

lemma numbered_seq [simp]: "pkt_seq (numbered pk i) = of_nat i"
  by (simp add: numbered_def)

definition rb_rel :: "nat \<Rightarrow> (nat \<Rightarrow> Packet) \<Rightarrow> ReorderBuffer \<Rightarrow> nat \<Rightarrow> nat set \<Rightarrow> bool" where
  "rb_rel W pk b n H \<longleftrightarrow> length (rb_slots b) = W \<and> W \<le> 32768 \<and> rb_nextSeq b = of_nat n
     \<and> ring_rel (numbered pk) (rb_slots b) n H"

lemma slotAt_ring:
  assumes "ring_rel item xs n H"
  shows "slotAt xs (of_nat i) = xs ! (i mod length xs)"
    and "slotIndex (of_nat i) (length xs) = i mod length xs"
proof -
  have "slotIndex (of_nat i) (length xs) = i mod length xs"
    using assms by (simp add: slotIndex_def of_nat_mod_slot ring_rel_def)
  then show "slotIndex (of_nat i) (length xs) = i mod length xs"
    "slotAt xs (of_nat i) = xs ! (i mod length xs)"
    using ring_rel_nonempty [OF assms] by (auto simp: slotAt_def)
qed

text \<open>The window test on wrapped numbers is the window test on indices.\<close>

lemma offset_inside:
  "n \<le> i \<Longrightarrow> i < n + W \<Longrightarrow> W \<le> 65536 \<Longrightarrow> unat (of_nat i - of_nat n :: u16) < W"
  by (simp add: unat_diff_of_nat_u16)

lemma offset_outside:
  assumes "near n i" and "i < n \<or> n + W \<le> i" and "W \<le> 32768"
  shows "W \<le> unat (of_nat i - of_nat n :: u16)"
proof (cases "i < n")
  case True
  then have "n - i \<le> 32768" using assms(1) by (auto simp: near_def)
  then show ?thesis using True assms(3) by (simp add: unat_diff_of_nat_u16_back)
next
  case False
  then have "i - n < 32768" using assms(1) by (auto simp: near_def)
  then show ?thesis using False assms(2) by (simp add: unat_diff_of_nat_u16)
qed

lemma rb_insert_inside:
  assumes r: "rb_rel W pk b n H" and i: "n \<le> i" "i < n + W"
  shows "rb_rel W pk (rb_insert (numbered pk i) b) n (insert i H)"
proof -
  have ring: "ring_rel (numbered pk) (rb_slots b) n H" and W: "length (rb_slots b) = W"
    and nx: "rb_nextSeq b = of_nat n"
    using r by (simp_all add: rb_rel_def)
  have off: "unat (of_nat i - of_nat n :: u16) < W"
    using offset_inside [OF i] ring_rel_nonempty [OF ring] W by simp
  have slot: "rb_slots b ! (i mod W) = (if i \<in> H then Some (numbered pk i) else None)"
    using ring_rel_slot [OF ring] i W by simp
  show ?thesis
    using r off slot ring_rel_insert [OF ring i(1)] i
    by (auto simp: rb_rel_def rb_insert_def Let_def nx slotAt_ring [OF ring, unfolded W] W insert_absorb)
qed

lemma rb_drainLoop_run:
  "rb_rel W pk b n H \<Longrightarrow>
    \<exists>n'. n \<le> n' \<and> {n..<n'} \<subseteq> H \<and> n' \<notin> H
      \<and> rb_ready (rb_drainLoop b) = rb_ready b @ map (numbered pk) [n..<n']
      \<and> rb_rel W pk (rb_drainLoop b) n' (H - {n..<n'})"
proof (induction b arbitrary: n H rule: rb_drainLoop.induct)
  case (1 b)
  have ring: "ring_rel (numbered pk) (rb_slots b) n H" and nx: "rb_nextSeq b = of_nat n"
    and W: "length (rb_slots b) = W"
    using "1.prems" by (simp_all add: rb_rel_def)
  note at = slotAt_ring [OF ring, unfolded W]
  show ?case
  proof (cases "n \<in> H")
    case False
    then have "slotAt (rb_slots b) (rb_nextSeq b) = None"
      using ring_rel_head [OF ring] by (simp add: nx at W)
    then have "rb_drainLoop b = b" by (subst rb_drainLoop.simps) simp
    then show ?thesis using "1.prems" False by (intro exI [of _ n]) simp
  next
    case True
    let ?b = "b\<lparr>rb_ready := rb_ready b @ [numbered pk n],
        rb_slots := (rb_slots b)[slotIndex (rb_nextSeq b) (length (rb_slots b)) := None],
        rb_nextSeq := rb_nextSeq b + 1\<rparr>"
    have s: "slotAt (rb_slots b) (rb_nextSeq b) = Some (numbered pk n)"
      using ring_rel_head [OF ring] True by (simp add: nx at W)
    have eq: "rb_drainLoop b = rb_drainLoop ?b"
      by (subst rb_drainLoop.simps) (simp add: s)
    have "rb_rel W pk ?b (Suc n) (H - {n})"
      using ring_rel_advance [OF ring True] "1.prems" by (simp add: rb_rel_def nx at W add.commute)
    from "1.IH" [OF s this] obtain n' where
      n': "Suc n \<le> n'" "{Suc n..<n'} \<subseteq> H - {n}" "n' \<notin> H - {n}"
      "rb_ready (rb_drainLoop ?b) = rb_ready ?b @ map (numbered pk) [Suc n..<n']"
      "rb_rel W pk (rb_drainLoop ?b) n' (H - {n} - {Suc n..<n'})"
      by blast
    note up = upto_step [OF n'(1)]
    have "H - {n} - {Suc n..<n'} = H - {n..<n'}" "{n..<n'} \<subseteq> H"
      using n'(2) True by (auto simp: up)
    then show ?thesis using n' unfolding eq by (intro exI [of _ n']) (auto simp: up)
  qed
qed

text \<open>
  The reorder buffer provides the contract, for every size that divides the number space and is at
  most half of it.
\<close>

interpretation rb: reorder_store "rb_rel W pk" "\<lambda>i. rb_insert (numbered pk i)" rb_drain "numbered pk" W
  for W pk
proof
  fix b n H i
  assume r: "rb_rel W pk b n H"
  show "rb_rel W pk (rb_insert (numbered pk i) b) n (insert i H)" if "n \<le> i" "i < n + W"
    using rb_insert_inside [OF r that] .
  show "rb_rel W pk (rb_insert (numbered pk i) b) n H" if "near n i" "i < n \<or> n + W \<le> i"
    using r offset_outside [OF that] by (auto simp: rb_rel_def rb_insert_def Let_def)
  fix b' ms
  assume "rb_drain b = (b', ms)"
  moreover have "rb_rel W pk (b\<lparr>rb_ready := []\<rparr>) n H" using r by (simp add: rb_rel_def)
  ultimately show "\<exists>n'\<ge>n. {n..<n'} \<subseteq> H \<and> n' \<notin> H \<and> ms = map (numbered pk) [n..<n']
      \<and> rb_rel W pk b' n' (H - {n..<n'})"
    using rb_drainLoop_run by (fastforce simp: rb_drain_def Let_def)
qed

section \<open>Properties\<close>

text \<open>One arrival at the buffer: \<open>insert\<close>, then \<open>drain\<close>.\<close>

definition rb_arrive :: "(nat \<Rightarrow> Packet) \<Rightarrow> nat \<Rightarrow> ReorderBuffer \<Rightarrow> ReorderBuffer \<times> Packet list" where
  "rb_arrive pk = arriveBy (\<lambda>i. rb_insert (numbered pk i)) rb_drain"

text \<open>
  C24: the reorder buffer restores the stream. For every size that divides the sequence number space
  and is at most half of it, any order of arrivals with repetitions, none ahead of the window of
  its moment, makes \<open>drain\<close> return the packets from index 0 on, in order, each once, exactly up to
  the first index that has not arrived, across any number of wraps of the 16-bit number.
\<close>

theorem reorder_buffer_restores_order:
  assumes "0 < W" and "W dvd 65536" and "W \<le> 32768"
    and "arrivalsWithin W (rb_arrive pk) is 0 (newReorderBuffer W)"
    and "runOps (rb_arrive pk) is (newReorderBuffer W) = (b, ms)"
  shows "\<exists>n. ms = map (numbered pk) [0..<n] \<and> {0..<n} \<subseteq> set is \<and> n \<notin> set is
    \<and> rb_nextSeq b = of_nat n"
proof -
  have "rb_rel W pk (newReorderBuffer W) 0 {}"
    using assms(1-3) by (simp add: rb_rel_def newReorderBuffer_def ring_rel_def)
  from rb.complete [OF this _ assms(4,5) [unfolded rb_arrive_def]] obtain n' H' where
    "rb_rel W pk b n' H'" "ms = map (numbered pk) [0..<n']" "n' \<notin> H'"
    "{} \<union> {i \<in> set is. 0 \<le> i} \<subseteq> {0..<n'} \<union> H'" "{0..<n'} \<union> H' \<subseteq> {} \<union> set is"
    by blast
  then show ?thesis by (intro exI [of _ n']) (auto simp: rb_rel_def)
qed

definition echoPacket :: "nat \<Rightarrow> Packet" where
  "echoPacket i = newPacket\<lparr>pkt_payload := [of_nat i]\<rparr>"

theorem reorder_buffer_restores_order_witness:
  "\<exists>b ms. runOps (rb_arrive echoPacket) [1, 3, 1, 0, 4] (newReorderBuffer 4) = (b, ms)
    \<and> (\<exists>n. ms = map (numbered echoPacket) [0..<n] \<and> {0..<n} \<subseteq> set [1, 3, 1, 0, 4] \<and> n \<notin> set [1, 3, 1, 0, 4])
    \<and> map pkt_payload ms = [[0], [1]]"
proof -
  obtain b ms where r: "runOps (rb_arrive echoPacket) [1, 3, 1, 0, 4] (newReorderBuffer 4) = (b, ms)"
    by fastforce
  have w: "arrivalsWithin 4 (rb_arrive echoPacket) [1, 3, 1, 0, 4] 0 (newReorderBuffer 4)"
    by code_simp
  have "map pkt_payload (snd (runOps (rb_arrive echoPacket) [1, 3, 1, 0, 4] (newReorderBuffer 4))) = [[0], [1]]"
    by code_simp
  moreover have "(4 :: nat) dvd 65536" by simp
  ultimately show ?thesis
    using r reorder_buffer_restores_order [OF _ _ _ w r] by auto
qed

end
