(* ===== verification/Rude_ReliableRecv.thy ===== *)
theory Rude_ReliableRecv
  imports Rude_SendProperties Rude_Reorder
begin

text \<open>
  The receive side of a reliable channel. The ordered channel's buffer provides the reorder store's
  contract; together with the receive queue's contract this gives in-order, exactly-once delivery of
  the peer's stream over any run of the channel. The unordered channel delivers each index at most
  once, and exactly the indices it acknowledges. Where the code's assumptions fail (a gap in the
  numbers, a window that does not divide the number space), theorems say what happens.
\<close>

section \<open>From deliveries to receivers\<close>

text \<open>
  \<open>passes es q ms q'\<close>: with the messages \<open>ms\<close> new behind the queue \<open>q\<close>, the effects \<open>es\<close> handed
  out the front of what there was, in order, and \<open>q'\<close> keeps the rest.
\<close>

definition passes :: "'ep effect list \<Rightarrow> RecvQueue \<Rightarrow> bytes list \<Rightarrow> RecvQueue \<Rightarrow> bool" where
  "passes es q new q' \<longleftrightarrow> (\<exists>ms. handedOut es ms \<and> rq_queued q @ new = ms @ rq_queued q')"

lemma passes_Nil [simp]: "received es = [] \<Longrightarrow> passes es q [] q"
  by (auto simp: passes_def handedOut_def)

lemma passes_append:
  assumes "passes es q ms q1" and "passes fs q1 ns q2"
  shows "passes (es @ fs) q (ms @ ns) q2"
proof -
  obtain as bs where "handedOut es as" "rq_queued q @ ms = as @ rq_queued q1"
    and "handedOut fs bs" "rq_queued q1 @ ns = bs @ rq_queued q2"
    using assms by (auto simp: passes_def)
  moreover from this have "rq_queued q @ ms @ ns = (as @ bs) @ rq_queued q2"
    by (metis append_assoc)
  ultimately show ?thesis
    unfolding passes_def by (metis handedOut_append)
qed

lemma deliver_passes: "rq_inv q \<Longrightarrow> rq_deliver m q = (q', es) \<Longrightarrow> passes es q [m] q'"
  using rq.deliver_fifo by (simp add: passes_def)

lemma recv_passes: "rq_inv q \<Longrightarrow> rq_asyncRecv n h q = (q', es) \<Longrightarrow> passes es q [] q'"
  using rq.recv_fifo by (simp add: passes_def)

lemma close_passes: "rq_inv q \<Longrightarrow> failed ec \<Longrightarrow> rq_close ec q = (q', es) \<Longrightarrow> passes es q [] q'"
  using rq.close_fifo by (fastforce simp: passes_def)

section \<open>The ordered channel as a reorder store\<close>

text \<open>
  The state of the store is the channel with the statistics and the effects emitted so far; \<open>msg\<close> is
  the peer's stream of messages. \<open>acceptOrdered\<close> and \<open>drainOrdered\<close> are the two halves of
  \<open>receiveOrdered\<close> after the tracker was updated; \<open>readyPayloads\<close> lists what a drain hands over.
\<close>

definition bufferItem :: "(nat \<Rightarrow> bytes) \<Rightarrow> nat \<Rightarrow> BufferedPacket" where
  "bufferItem msg i = \<lparr>bp_sequenceNumber = of_nat i, bp_payload = msg i\<rparr>"

definition rc_rel :: "nat \<Rightarrow> (nat \<Rightarrow> bytes) \<Rightarrow> 'cc ReliableChannel \<Rightarrow> nat \<Rightarrow> nat set \<Rightarrow> bool" where
  "rc_rel W msg c n H \<longleftrightarrow> rc_inv c \<and> length (rc_receiveBuffer c) = W
     \<and> rc_expectedRecvSeq c = of_nat n \<and> ring_rel (bufferItem msg) (rc_receiveBuffer c) n H"

type_synonym ('cc, 'ep) receiving = "'cc ReliableChannel \<times> SocketStats \<times> 'ep effect list"

definition acceptOrdered :: "(nat \<Rightarrow> bytes) \<Rightarrow> nat \<Rightarrow> ('cc, 'ep) receiving \<Rightarrow> ('cc, 'ep) receiving" where
  "acceptOrdered msg i s =
     (let (c, st, es) = s in
      if \<not> isInOrderedReceiveWindow (of_nat i) c \<or> slotAt (rc_receiveBuffer c) (of_nat i) \<noteq> None then s
      else (c\<lparr>rc_receiveBuffer := (rc_receiveBuffer c)
               [slotIndex (of_nat i) (length (rc_receiveBuffer c)) := Some (bufferItem msg i)]\<rparr>, st, es))"

function readyPayloads :: "BufferedPacket option list \<Rightarrow> u16 \<Rightarrow> bytes list" where
  "readyPayloads bps ex =
     (case slotAt bps ex of
        None \<Rightarrow> []
      | Some b \<Rightarrow> if bp_sequenceNumber b \<noteq> ex then []
          else bp_payload b # readyPayloads (bps[slotIndex ex (length bps) := None]) (ex + 1))"
  by pat_completeness auto
termination
  by (relation "measure (\<lambda>(bps, ex). occupied bps)") (auto dest!: slotAt_SomeD simp flip: occupied_clear)

declare readyPayloads.simps [simp del]

definition drainOrdered :: "('cc, 'ep) receiving \<Rightarrow> ('cc, 'ep) receiving \<times> bytes list" where
  "drainOrdered s =
     (let (c, st, es) = s; (c', st', fs) = drainReadyPackets c st
      in ((c', st', es @ fs), readyPayloads (rc_receiveBuffer c) (rc_expectedRecvSeq c)))"

lemma readyPayloads_ready:
  "readyPayloads (rc_receiveBuffer c) (rc_expectedRecvSeq c) =
     (case readyPacket c of None \<Rightarrow> []
      | Some b \<Rightarrow> bp_payload b
          # readyPayloads (rc_receiveBuffer (advanced q c)) (rc_expectedRecvSeq (advanced q c)))"
  by (subst readyPayloads.simps) (auto simp: readyPacket_def advanced_def split: option.splits)

lemma drain_passes:
  assumes "drainReadyPackets c st = (c', st', es)"
  shows "rc_inv c \<Longrightarrow>
    passes es (rc_recvQueue c) (readyPayloads (rc_receiveBuffer c) (rc_expectedRecvSeq c)) (rc_recvQueue c')"
  using assms
proof (induction rule: drain_induct)
  case (finished c st)
  then show ?case using readyPayloads_ready [of c] by simp
next
  case (ready c st b q es c' st' fs)
  have "rq_inv (rc_recvQueue c)" using ready.prems by (simp add: rc_inv_def)
  from deliver_passes [OF this ready.hyps(2)] ready.IH [OF rc_inv_advanced [OF ready.prems ready.hyps(1,2)]]
  have "passes (es @ fs) (rc_recvQueue c) ([bp_payload b] @ readyPayloads
      (rc_receiveBuffer (advanced q c)) (rc_expectedRecvSeq (advanced q c))) (rc_recvQueue c')"
    by (intro passes_append [of es _ _ q]) (simp_all add: advanced_def)
  then show ?case using readyPayloads_ready [of c q] ready.hyps(1) by simp
qed

lemma drain_tracker:
  assumes "drainReadyPackets c st = (c', st', es)"
  shows "rc_recvAckTracker c' = rc_recvAckTracker c"
  using assms by (induction rule: drain_induct) (simp_all add: advanced_def)

lemma readyPacket_ring:
  "rc_rel W msg c n H \<Longrightarrow> readyPacket c = (if n \<in> H then Some (bufferItem msg n) else None)"
  using slotAt_ring [of "bufferItem msg" "rc_receiveBuffer c" n H n]
    ring_rel_head [of "bufferItem msg" "rc_receiveBuffer c" n H]
  by (auto simp: rc_rel_def readyPacket_def bufferItem_def)

lemma rc_rel_advanced:
  assumes r: "rc_rel W msg c n H" and "n \<in> H"
    and "rq_deliver (msg n) (rc_recvQueue c) = (q, es)"
  shows "rc_rel W msg (advanced q c) (Suc n) (H - {n})"
proof -
  have ring: "ring_rel (bufferItem msg) (rc_receiveBuffer c) n H" and "rc_inv c"
    using r by (simp_all add: rc_rel_def)
  have rp: "readyPacket c = Some (bufferItem msg n)"
    using readyPacket_ring [OF r] assms(2) by simp
  have "rc_inv (advanced q c)"
    using rc_inv_advanced [OF \<open>rc_inv c\<close> rp] assms(3) by (simp add: bufferItem_def)
  with ring_rel_advance [OF ring assms(2)] r slotAt_ring [OF ring] show ?thesis
    by (simp add: rc_rel_def advanced_def add.commute)
qed

lemma drain_run:
  assumes "drainReadyPackets c st = (c', st', es)"
  shows "rc_rel W msg c n H \<Longrightarrow>
    \<exists>n'. n \<le> n' \<and> {n..<n'} \<subseteq> H \<and> n' \<notin> H
      \<and> readyPayloads (rc_receiveBuffer c) (rc_expectedRecvSeq c) = map msg [n..<n']
      \<and> rc_rel W msg c' n' (H - {n..<n'})"
  using assms
proof (induction arbitrary: n H rule: drain_induct)
  case (finished c st)
  then have "n \<notin> H" using readyPacket_ring [OF finished.prems] by (auto split: if_splits)
  then show ?case
    using finished readyPayloads_ready [of c] by (intro exI [of _ n]) simp
next
  case (ready c st b q es c' st' fs)
  have n: "n \<in> H" and b: "b = bufferItem msg n"
    using readyPacket_ring [OF ready.prems] ready.hyps(1) by (auto split: if_splits)
  have "rc_rel W msg (advanced q c) (Suc n) (H - {n})"
    using rc_rel_advanced [OF ready.prems n] ready.hyps(2) b by (simp add: bufferItem_def)
  from ready.IH [OF this] obtain n' where
    n': "Suc n \<le> n'" "{Suc n..<n'} \<subseteq> H - {n}" "n' \<notin> H - {n}"
    "readyPayloads (rc_receiveBuffer (advanced q c)) (rc_expectedRecvSeq (advanced q c)) = map msg [Suc n..<n']"
    "rc_rel W msg c' n' (H - {n} - {Suc n..<n'})" by blast
  note up = upto_step [OF n'(1)]
  have "H - {n} - {Suc n..<n'} = H - {n..<n'}" "{n..<n'} \<subseteq> H"
    using n'(2) n by (auto simp: up)
  then show ?case
    using n' readyPayloads_ready [of c q] ready.hyps(1) b
    by (intro exI [of _ n']) (auto simp: up bufferItem_def)
qed

lemma accept_inside:
  assumes r: "rc_rel W msg c n H" and i: "n \<le> i" "i < n + W"
    and a: "acceptOrdered msg i (c, st, es) = (c', st', es')"
  shows "rc_rel W msg c' n (insert i H)"
proof -
  have ring: "ring_rel (bufferItem msg) (rc_receiveBuffer c) n H" and W: "length (rc_receiveBuffer c) = W"
    and ex: "rc_expectedRecvSeq c = of_nat n" and inv: "rc_inv c"
    using r by (simp_all add: rc_rel_def)
  have "unat (of_nat i - of_nat n :: u16) < W"
    using offset_inside [OF i] ring_rel_nonempty [OF ring] W by simp
  then have win: "isInOrderedReceiveWindow (of_nat i) c" and
    b: "buffered_ok (of_nat n) ((rc_receiveBuffer c)[i mod W := Some (bufferItem msg i)])"
    using inWindow_unat [OF inv] ex W inv buffered_ok_insert [of "of_nat n" "rc_receiveBuffer c" "bufferItem msg i"]
      slotAt_ring(2) [OF ring] by (simp_all add: rc_inv_def bufferItem_def)
  have slot: "slotAt (rc_receiveBuffer c) (of_nat i) = (if i \<in> H then Some (bufferItem msg i) else None)"
    using ring_rel_slot [OF ring] i W by (simp add: slotAt_ring [OF ring])
  show ?thesis
  proof (cases "i \<in> H")
    case True
    then show ?thesis using a r slot by (simp add: acceptOrdered_def insert_absorb)
  next
    case False
    have "slotIndex (of_nat i) (length (rc_receiveBuffer c)) = i mod W"
      using slotAt_ring(2) [OF ring] W by simp
    then have c': "c' = c\<lparr>rc_receiveBuffer := (rc_receiveBuffer c)[i mod W := Some (bufferItem msg i)]\<rparr>"
      using a slot win False by (simp add: acceptOrdered_def)
    have "rc_inv c'" using inv b ex unfolding c' by (simp add: rc_inv_def)
    then show ?thesis
      using ring_rel_insert [OF ring i(1)] i ex W unfolding c' by (simp add: rc_rel_def)
  qed
qed

lemma accept_outside:
  assumes r: "rc_rel W msg c n H" and "near n i" "i < n \<or> n + W \<le> i"
  shows "acceptOrdered msg i (c, st, es) = (c, st, es)" and "\<not> isInOrderedReceiveWindow (of_nat i) c"
proof -
  have "W \<le> 32768" using r rc_inv_window(2) by (auto simp: rc_rel_def)
  from offset_outside [OF assms(2,3) this] r show "\<not> isInOrderedReceiveWindow (of_nat i) c"
    using inWindow_unat by (fastforce simp: rc_rel_def)
  then show "acceptOrdered msg i (c, st, es) = (c, st, es)" by (simp add: acceptOrdered_def)
qed

interpretation oc: reorder_store "\<lambda>(c, st, es). rc_rel W msg c" "acceptOrdered msg" drainOrdered msg W
  for W msg
proof
  fix s s' :: "('cc, 'ep) receiving" and n i :: nat and H :: "nat set" and ms
  obtain c st es c' st' es' where s: "s = (c, st, es)" "s' = (c', st', es')"
    by (metis prod_cases3)
  assume "(case s of (c, st, es) \<Rightarrow> rc_rel W msg c) n H"
  then have r: "rc_rel W msg c n H" by (simp add: s)
  show "(case acceptOrdered msg i s of (c, st, es) \<Rightarrow> rc_rel W msg c) n (insert i H)"
    if "n \<le> i" "i < n + W"
    using accept_inside [OF r that, of st es] by (auto simp: s split: prod.splits)
  show "(case acceptOrdered msg i s of (c, st, es) \<Rightarrow> rc_rel W msg c) n H"
    if "near n i" "i < n \<or> n + W \<le> i"
    using accept_outside(1) [OF r that, of st es] r by (simp add: s)
  assume "drainOrdered s = (s', ms)"
  then show "\<exists>n'\<ge>n. {n..<n'} \<subseteq> H \<and> n' \<notin> H \<and> ms = map msg [n..<n']
      \<and> (case s' of (c, st, es) \<Rightarrow> rc_rel W msg c) n' (H - {n..<n'})"
    using drain_run [OF _ r] by (fastforce simp: s drainOrdered_def split: prod.splits)
qed

section \<open>The ordered channel, one packet\<close>

text \<open>
  The whole receive side of an ordered channel between two calls: the next index \<open>n\<close>, the indices
  \<open>H\<close> held back behind it, and a tracker that tracks exactly the indices delivered or held.
\<close>

definition ordered_rel :: "nat \<Rightarrow> (nat \<Rightarrow> bytes) \<Rightarrow> 'cc ReliableChannel \<Rightarrow> nat \<Rightarrow> nat set \<Rightarrow> bool" where
  "ordered_rel W msg c n H \<longleftrightarrow> rc_rel W msg c n H \<and> n \<notin> H \<and> W < 32768
     \<and> (if hasReceived (rc_recvAckTracker c) then \<exists>L. tracks (rc_recvAckTracker c) L ({..<n} \<union> H)
        else n = 0 \<and> H = {})"

lemma rc_rel_tracker [simp]: "rc_rel W msg (c\<lparr>rc_recvAckTracker := t\<rparr>) n H = rc_rel W msg c n H"
  by (simp add: rc_rel_def rc_inv_def)

lemma readyPacket_tracker [simp]: "readyPacket (c\<lparr>rc_recvAckTracker := t\<rparr>) = readyPacket c"
  by (simp add: readyPacket_def split: option.split)

lemma ordered_drained: "ordered_rel W msg c n H \<Longrightarrow> drainReadyPackets c st = (c, st, [])"
  using readyPacket_ring by (intro drain_done) (fastforce simp: ordered_rel_def)

lemma ordered_no_payloads:
  "ordered_rel W msg c n H \<Longrightarrow> readyPayloads (rc_receiveBuffer c) (rc_expectedRecvSeq c) = []"
  using readyPayloads_ready [of c] readyPacket_ring by (fastforce simp: ordered_rel_def)

lemma tracked_latest:
  assumes "ordered_rel W msg c n H" and "tracks (rc_recvAckTracker c) L ({..<n} \<union> H)"
  shows "n \<le> Suc L" and "L < n + W"
proof -
  have "H \<subseteq> {n..<n + W}" using assms(1) by (auto simp: ordered_rel_def rc_rel_def ring_rel_def)
  then show "L < n + W" using assms by (auto simp: tracks_def)
  show "n \<le> Suc L"
    using assms(2) by (cases n) (auto simp: tracks_def)
qed

text \<open>Marking an index inside the window: the tracker tracks it too, unless the call is undefined.\<close>

lemma ordered_mark:
  assumes o: "ordered_rel W msg c n H" and i: "n \<le> i" "i < n + W"
    and m: "markReceived (of_nat i) (rc_recvAckTracker c) = Some t"
  shows "hasReceived t \<and> (\<exists>L. tracks t L ({..<n} \<union> insert i H))"
proof (cases "hasReceived (rc_recvAckTracker c)")
  case False
  then have "n = 0 \<and> H = {}" using o by (simp add: ordered_rel_def)
  then show ?thesis
    using tracks_first [OF False, of i] m by (auto simp: tracks_def)
next
  case True
  then obtain L where t: "tracks (rc_recvAckTracker c) L ({..<n} \<union> H)"
    using o by (auto simp: ordered_rel_def)
  note L = tracked_latest [OF o t]
  have "near L i" using L i o by (simp add: near_def ordered_rel_def)
  moreover have "i \<noteq> L + 32"
    using m t markReceived_None_iff [of "of_nat i" "rc_recvAckTracker c"]
    by (auto simp: tracks_def)
  ultimately obtain t' where "markReceived (of_nat i) (rc_recvAckTracker c) = Some t'"
    and "tracks t' (max L i) (insert i ({..<n} \<union> H))"
    using tracks_step [OF t] by blast
  then show ?thesis using m by (auto simp: tracks_def)
qed

lemma receiveOrdered_arrive:
  fixes es :: "'ep effect list"
  assumes o: "ordered_rel W msg c n H" and nr: "near n i"
    and p: "pkt_seq pkt = of_nat i" "pkt_payload pkt = msg i"
    and r: "receiveOrdered pkt c st = Some (c', st', es)"
  obtains t ms where
    "arriveBy (acceptOrdered msg) drainOrdered i (c\<lparr>rc_recvAckTracker := t\<rparr>, st, []) = ((c', st', es), ms)"
    and "passes es (rc_recvQueue c) ms (rc_recvQueue c')" and "rc_recvAckTracker c' = t"
    and "if n \<le> i \<and> i < n + W then markReceived (of_nat i) (rc_recvAckTracker c) = Some t
         else t = rc_recvAckTracker c"
proof (cases "n \<le> i \<and> i < n + W")
  case False
  then have out: "i < n \<or> n + W \<le> i" by auto
  have rel: "rc_rel W msg c n H" using o by (simp add: ordered_rel_def)
  have "c' = c" "st' = st" "es = []"
    using r accept_outside(2) [OF rel nr out] by (simp_all add: receiveOrdered_def p)
  moreover have "arriveBy (acceptOrdered msg) drainOrdered i (c, st, [] :: 'ep effect list) = ((c, st, []), [])"
    by (simp add: arriveBy_def accept_outside(1) [OF rel nr out] drainOrdered_def
        ordered_drained [OF o] ordered_no_payloads [OF o])
  ultimately show ?thesis using that [of "rc_recvAckTracker c" "[]"] False by auto
next
  case True
  have rel: "rc_rel W msg c n H" using o by (simp add: ordered_rel_def)
  have "unat (of_nat i - of_nat n :: u16) < W"
    using offset_inside [of n i W] True o by (simp add: ordered_rel_def)
  then have win: "isInOrderedReceiveWindow (of_nat i) c"
    using inWindow_unat rel by (fastforce simp: rc_rel_def)
  then obtain t where m: "markReceived (of_nat i) (rc_recvAckTracker c) = Some t"
    using r by (auto simp: receiveOrdered_def p bind_eq_Some_conv)
  let ?c = "c\<lparr>rc_recvAckTracker := t\<rparr>"
  have win': "isInOrderedReceiveWindow (of_nat i) ?c" using win by (simp add: isInOrderedReceiveWindow_def)
  show ?thesis
  proof (cases "slotAt (rc_receiveBuffer c) (of_nat i)")
    case (Some b)
    have q: "readyPacket ?c = None" using readyPacket_ring [OF rel] o
      by (simp add: ordered_rel_def)
    have "c' = ?c" "st' = st" "es = []"
      using r win m Some by (simp_all add: receiveOrdered_def p Let_def)
    moreover have "arriveBy (acceptOrdered msg) drainOrdered i (?c, st, [] :: 'ep effect list) = ((?c, st, []), [])"
      using Some win' readyPayloads_ready [of ?c] q
      by (simp add: arriveBy_def acceptOrdered_def drainOrdered_def drain_done)
    ultimately show ?thesis using that [of t "[]"] True m by auto
  next
    case None
    let ?d = "?c\<lparr>rc_receiveBuffer := (rc_receiveBuffer c)
        [slotIndex (of_nat i) (length (rc_receiveBuffer c)) := Some (bufferItem msg i)]\<rparr>"
    have a: "acceptOrdered msg i (?c, st, [] :: 'ep effect list) = (?d, st, [])"
      using None win' by (simp add: acceptOrdered_def)
    have d: "drainReadyPackets ?d st = (c', st', es)"
      using r win m None by (simp add: receiveOrdered_def p Let_def bufferItem_def)
    have "rc_rel W msg ?d n (insert i H)"
      using accept_inside [OF _ _ _ a] rel True by simp
    then have "rc_inv ?d" unfolding rc_rel_def by blast
    from drain_passes [OF d this] have "passes es (rc_recvQueue c)
        (readyPayloads (rc_receiveBuffer ?d) (rc_expectedRecvSeq ?d)) (rc_recvQueue c')" by simp
    moreover have "rc_recvAckTracker c' = t" using drain_tracker [OF d] by simp
    ultimately show ?thesis
      using that [of t] a d True m by (simp add: arriveBy_def drainOrdered_def)
  qed
qed

lemma receiveOrdered_step:
  assumes o: "ordered_rel W msg c n H" and nr: "near n i"
    and p: "pkt_seq pkt = of_nat i" "pkt_payload pkt = msg i"
    and r: "receiveOrdered pkt c st = Some (c', st', es)"
  shows "\<exists>n' H'. ordered_rel W msg c' n' H' \<and> n \<le> n' \<and> n' \<le> n + W
    \<and> passes es (rc_recvQueue c) (map msg [n..<n']) (rc_recvQueue c')
    \<and> {n..<n'} \<union> H' \<subseteq> insert i H \<and> (i < n + W \<longrightarrow> H \<union> ({n..} \<inter> {i}) \<subseteq> {n..<n'} \<union> H')"
proof -
  obtain t ms where
    a: "arriveBy (acceptOrdered msg) drainOrdered i (c\<lparr>rc_recvAckTracker := t\<rparr>, st, []) = ((c', st', es), ms)"
    and ps: "passes es (rc_recvQueue c) ms (rc_recvQueue c')" and t: "rc_recvAckTracker c' = t"
    and m: "if n \<le> i \<and> i < n + W then markReceived (of_nat i) (rc_recvAckTracker c) = Some t
         else t = rc_recvAckTracker c"
    using receiveOrdered_arrive [OF o nr p r] .
  from oc.arrive_step [where W = W and H = H, OF _ nr a] o obtain n' H' where
    rel: "rc_rel W msg c' n' H'" and n': "n \<le> n'" "ms = map msg [n..<n']" "n' \<notin> H'"
    and i: "n \<le> i \<longrightarrow> i < n + W \<longrightarrow> i < n' \<or> i \<in> H'" "H \<subseteq> {n..<n'} \<union> H'"
    "{n..<n'} \<union> H' \<subseteq> insert i H" "i \<noteq> n \<longrightarrow> n \<notin> H \<longrightarrow> n' = n"
    by (auto simp: ordered_rel_def)
  have H: "H \<subseteq> {n..<n + W}" using o by (auto simp: ordered_rel_def rc_rel_def ring_rel_def)
  have W: "0 < W" "W < 32768" using o ring_rel_nonempty by (auto simp: ordered_rel_def rc_rel_def)
  have le: "n' \<le> n + W"
  proof (cases "n' = n")
    case False
    then have "i = n" using i(4) o by (auto simp: ordered_rel_def)
    then have "{n..<n'} \<subseteq> {n..<n + W}" using i(3) H W by fastforce
    then show ?thesis using n'(1) False by (simp add: ivl_subset)
  qed simp
  have R: "{..<n'} \<union> H' = (if n \<le> i \<and> i < n + W then {..<n} \<union> insert i H else {..<n} \<union> H)"
  proof (cases "n \<le> i \<and> i < n + W")
    case True
    then have "insert i H = {n..<n'} \<union> H'" using i by auto
    moreover have "{..<n'} = {..<n} \<union> {n..<n'}" using n'(1) by auto
    ultimately show ?thesis using True by auto
  next
    case False
    have "n' = n" using False W i(4) o by (auto simp: ordered_rel_def)
    moreover have "i \<notin> H'"
      using rel False \<open>n' = n\<close> by (auto simp: rc_rel_def ring_rel_def)
    ultimately show ?thesis using i(2,3) False by auto
  qed
  have "if hasReceived (rc_recvAckTracker c') then \<exists>L. tracks (rc_recvAckTracker c') L ({..<n'} \<union> H')
      else n' = 0 \<and> H' = {}"
  proof (cases "n \<le> i \<and> i < n + W")
    case True
    then show ?thesis using ordered_mark [OF o _ _, of i t] m t R by simp
  next
    case False
    then have *: "{..<n'} \<union> H' = {..<n} \<union> H" unfolding R by (simp only: if_False False)
    show ?thesis
    proof (cases "hasReceived (rc_recvAckTracker c)")
      case True
      then show ?thesis using o m t False * by (simp add: ordered_rel_def)
    next
      case no: False
      then have "n = 0" "H = {}" using o by (simp_all add: ordered_rel_def)
      then show ?thesis using * m t False no by (auto simp: lessThan_def)
    qed
  qed
  then have "ordered_rel W msg c' n' H'" using rel n' W by (simp add: ordered_rel_def)
  then show ?thesis using n' ps le i by (intro exI [of _ n'] exI [of _ H']) auto
qed

section \<open>The ordered channel, any run\<close>

text \<open>
  A run of the channel against the peer's stream \<open>pk\<close>: data packets arrive by index, in any order,
  with repetitions; everything else the session may call happens in between.
\<close>

definition streamPacket :: "(nat \<Rightarrow> Packet) \<Rightarrow> nat \<Rightarrow> Packet" where
  "streamPacket pk i = (pk i)\<lparr>pkt_type := Data, pkt_seq := of_nat i\<rparr>"

datatype 'ep peer_op = Arrives time_ns nat | Local "'ep rc_op"

fun rcOp :: "(nat \<Rightarrow> Packet) \<Rightarrow> 'ep peer_op \<Rightarrow> 'ep rc_op" where
  "rcOp pk (Arrives now i) = RcPacket now (streamPacket pk i)"
| "rcOp pk (Local op) = op"

definition peer_step ::
  "bool \<Rightarrow> (nat \<Rightarrow> Packet) \<Rightarrow> 'cc CongestionCtrl \<Rightarrow> PacketCodec \<Rightarrow> 'ep peer_op \<Rightarrow> 'cc ReliableChannel \<times> SocketStats
    \<Rightarrow> (('cc ReliableChannel \<times> SocketStats) \<times> 'ep effect list) option" where
  "peer_step ordered pk cc codec op s = rc_step cc codec ordered (rcOp pk op) s"

fun arrived :: "'ep peer_op list \<Rightarrow> nat set" where
  "arrived [] = {}"
| "arrived (Arrives now i # ops) = insert i (arrived ops)"
| "arrived (Local op # ops) = arrived ops"

text \<open>
  Every arrival is within half the number space of the next expected index and less than \<open>B\<close> ahead
  of it; data packets arrive by index only.
\<close>

fun op_near :: "nat \<Rightarrow> nat \<Rightarrow> 'ep peer_op \<Rightarrow> bool" where
  "op_near B n (Arrives now i) \<longleftrightarrow> near n i \<and> i < n + B"
| "op_near B n (Local (RcPacket now pkt)) \<longleftrightarrow> pkt_type pkt \<noteq> Data"
| "op_near B n (Local op) \<longleftrightarrow> True"

fun run_near ::
  "nat \<Rightarrow> (nat \<Rightarrow> Packet) \<Rightarrow> 'cc CongestionCtrl \<Rightarrow> PacketCodec \<Rightarrow> 'ep peer_op list \<Rightarrow> nat
    \<Rightarrow> 'cc ReliableChannel \<times> SocketStats \<Rightarrow> bool" where
  "run_near B pk cc codec [] n s = True"
| "run_near B pk cc codec (op # ops) n s \<longleftrightarrow> op_near B n op
     \<and> (case peer_step True pk cc codec op s of
          None \<Rightarrow> True
        | Some (s', es) \<Rightarrow> run_near B pk cc codec ops
            (n + unat (rc_expectedRecvSeq (fst s') - rc_expectedRecvSeq (fst s))) s')"

lemma received_quiet:
  "received (map (\<lambda>p. SendTo (f p) ep k) ps) = []" "received (flushLoop ep sps) = []"
proof -
  show "received (map (\<lambda>p. SendTo (f p) ep k) ps) = []" by (induction ps) simp_all
  show "received (flushLoop ep sps) = []" by (induction ep sps rule: flushLoop.induct) simp_all
qed

text \<open>The other calls leave the buffer, the tracker and the next index alone.\<close>

lemma local_step:
  assumes "rc_step cc codec ordered op (c, st) = Some ((c', st'), es)" and "op_near B n (Local op)"
    and "rq_inv (rc_recvQueue c)"
  shows "rc_receiveBuffer c' = rc_receiveBuffer c \<and> rc_expectedRecvSeq c' = rc_expectedRecvSeq c
    \<and> rc_recvAckTracker c' = rc_recvAckTracker c \<and> passes es (rc_recvQueue c) [] (rc_recvQueue c')"
proof (cases op)
  case (RcSend now payload ep h)
  then show ?thesis
    using assms by (auto simp: rc_asyncSend_def effectiveSendWindow_def storeSentPacket_def Let_def
        split: prod.splits if_splits)
next
  case (RcSent s h ec)
  then show ?thesis
    using assms by (auto simp: rc_onSent_def eraseSentPacket_def Let_def
        split: prod.splits if_splits option.splits)
next
  case (RcTick now ep)
  then show ?thesis
    using assms by (auto simp: received_quiet split: prod.splits dest!: rc_onTick_channel)
next
  case (RcPacket now pkt)
  then show ?thesis
    using assms by (auto simp: rc_onRecv_def split: prod.splits if_splits dest!: processAck_channel)
next
  case (RcRecv buf h)
  then show ?thesis
    using assms recv_passes by (auto simp: rc_asyncRecv_def Let_def split: prod.splits)
next
  case (RcFlush ep)
  then show ?thesis using assms by (auto simp: rc_flush_def received_quiet)
next
  case (RcClose ec)
  have "failed (if failed ec then ec else makeErrorCode ChannelClosed)" by simp
  from close_passes [OF assms(3) this] RcClose assms(1) show ?thesis
    by (auto simp: rc_close_def Let_def split: prod.splits)
qed

lemma peer_step_ordered:
  assumes o: "ordered_rel W (\<lambda>i. pkt_payload (pk i)) c n H" and nr: "op_near B n op"
    and s: "peer_step True pk cc codec op (c, st) = Some ((c', st'), es)"
  shows "\<exists>n' H'. ordered_rel W (\<lambda>i. pkt_payload (pk i)) c' n' H' \<and> n \<le> n'
    \<and> n + unat (rc_expectedRecvSeq c' - rc_expectedRecvSeq c) = n'
    \<and> passes es (rc_recvQueue c) (map (\<lambda>i. pkt_payload (pk i)) [n..<n']) (rc_recvQueue c')
    \<and> {n..<n'} \<union> H' \<subseteq> H \<union> arrived [op]
    \<and> (B \<le> W \<longrightarrow> H \<union> ({n..} \<inter> arrived [op]) \<subseteq> {n..<n'} \<union> H')"
proof (cases op)
  case (Arrives now i)
  have p: "pkt_seq (streamPacket pk i) = of_nat i" "pkt_payload (streamPacket pk i) = pkt_payload (pk i)"
    by (simp_all add: streamPacket_def)
  have "receiveOrdered (streamPacket pk i) c st = Some (c', st', es)"
    using s Arrives by (auto simp: peer_step_def rc_onRecv_def streamPacket_def)
  from receiveOrdered_step [OF o _ p this] nr Arrives obtain n' H' where
    r: "ordered_rel W (\<lambda>i. pkt_payload (pk i)) c' n' H'" "n \<le> n'" "n' \<le> n + W"
    "passes es (rc_recvQueue c) (map (\<lambda>i. pkt_payload (pk i)) [n..<n']) (rc_recvQueue c')"
    "{n..<n'} \<union> H' \<subseteq> insert i H" "i < n + W \<longrightarrow> H \<union> ({n..} \<inter> {i}) \<subseteq> {n..<n'} \<union> H'"
    by auto
  have "rc_expectedRecvSeq c' = of_nat n'" "rc_expectedRecvSeq c = of_nat n" "W < 32768"
    using o r(1) by (auto simp: ordered_rel_def rc_rel_def)
  then have "n + unat (rc_expectedRecvSeq c' - rc_expectedRecvSeq c) = n'"
    using r(2,3) by (simp add: unat_diff_of_nat_u16)
  then show ?thesis
    using r Arrives nr by (intro exI [of _ n'] exI [of _ H']) auto
next
  case (Local op')
  have st: "rc_step cc codec True op' (c, st) = Some ((c', st'), es)"
    using s Local by (simp add: peer_step_def)
  have inv: "rc_inv c" using o by (simp add: ordered_rel_def rc_rel_def)
  then have q: "rq_inv (rc_recvQueue c)" by (simp add: rc_inv_def)
  note l = local_step [OF st nr [unfolded Local] q]
  have "rc_inv c'" using rc_step_inv [OF _ st] inv by simp
  then have "ordered_rel W (\<lambda>i. pkt_payload (pk i)) c' n H"
    using o l by (simp add: ordered_rel_def rc_rel_def)
  then show ?thesis
    using l Local by (intro exI [of _ n] exI [of _ H]) auto
qed

lemma upt_split: "n \<le> m \<Longrightarrow> m \<le> k \<Longrightarrow> [n..<k] = [n..<m] @ [m..<k]"
  using upt_add_eq_append [of n m "k - m"] by simp

lemma arrived_Cons: "arrived (op # ops) = arrived [op] \<union> arrived ops"
  by (cases op) simp_all

lemma peer_run_ordered:
  assumes "ordered_rel W (\<lambda>i. pkt_payload (pk i)) c n H" and "run_near B pk cc codec ops n (c, st)"
    and "runPartial (peer_step True pk cc codec) ops (c, st) = Some ((c', st'), es)"
  shows "\<exists>n' H'. ordered_rel W (\<lambda>i. pkt_payload (pk i)) c' n' H' \<and> n \<le> n'
    \<and> passes es (rc_recvQueue c) (map (\<lambda>i. pkt_payload (pk i)) [n..<n']) (rc_recvQueue c')
    \<and> {n..<n'} \<union> H' \<subseteq> H \<union> arrived ops
    \<and> (B \<le> W \<longrightarrow> H \<union> ({n..} \<inter> arrived ops) \<subseteq> {n..<n'} \<union> H')"
  using assms
proof (induction ops arbitrary: c st n H es)
  case Nil
  then show ?case by (intro exI [of _ n] exI [of _ H]) auto
next
  case (Cons op ops)
  let ?msg = "\<lambda>i. pkt_payload (pk i)"
  from Cons.prems(3) obtain s1 es1 es2 where
    step: "peer_step True pk cc codec op (c, st) = Some (s1, es1)"
    and run: "runPartial (peer_step True pk cc codec) ops s1 = Some ((c', st'), es2)"
    and es: "es = es1 @ es2"
    by (rule runPartial_Cons_SomeE)
  obtain c1 st1 where s1: "s1 = (c1, st1)" by fastforce
  have nr: "op_near B n op" using Cons.prems(2) by simp
  from peer_step_ordered [OF Cons.prems(1) nr step [unfolded s1]] obtain n1 H1 where
    r: "ordered_rel W ?msg c1 n1 H1" "n \<le> n1" and
    n1: "n + unat (rc_expectedRecvSeq c1 - rc_expectedRecvSeq c) = n1" and
    p: "passes es1 (rc_recvQueue c) (map ?msg [n..<n1]) (rc_recvQueue c1)" and
    i: "{n..<n1} \<union> H1 \<subseteq> H \<union> arrived [op]" "B \<le> W \<longrightarrow> H \<union> ({n..} \<inter> arrived [op]) \<subseteq> {n..<n1} \<union> H1"
    by blast
  have "run_near B pk cc codec ops n1 (c1, st1)"
    using Cons.prems(2) step n1 by (simp add: s1)
  from Cons.IH [OF r(1) this run [unfolded s1]] obtain n' H' where
    r': "ordered_rel W ?msg c' n' H'" "n1 \<le> n'" and
    p': "passes es2 (rc_recvQueue c1) (map ?msg [n1..<n']) (rc_recvQueue c')" and
    i': "{n1..<n'} \<union> H' \<subseteq> H1 \<union> arrived ops" "B \<le> W \<longrightarrow> H1 \<union> ({n1..} \<inter> arrived ops) \<subseteq> {n1..<n'} \<union> H'"
    by blast
  have split: "{n..<n'} = {n..<n1} \<union> {n1..<n'}" "[n..<n'] = [n..<n1] @ [n1..<n']"
    using upt_split [OF r(2) r'(2)] r(2) r'(2) by auto
  have "passes es (rc_recvQueue c) (map ?msg [n..<n']) (rc_recvQueue c')"
    using passes_append [OF p p'] by (simp add: es split)
  moreover have "{n..<n'} \<union> H' \<subseteq> H \<union> arrived (op # ops)"
    using i(1) i'(1) unfolding split arrived_Cons [of op ops] by blast
  moreover have "B \<le> W \<longrightarrow> H \<union> ({n..} \<inter> arrived (op # ops)) \<subseteq> {n..<n'} \<union> H'"
  proof (intro impI subsetI)
    fix j assume "B \<le> W" and j: "j \<in> H \<union> ({n..} \<inter> arrived (op # ops))"
    show "j \<in> {n..<n'} \<union> H'"
    proof (cases "j \<in> H \<union> ({n..} \<inter> arrived [op])")
      case True
      then have "j \<in> {n..<n1} \<union> H1" using i(2) \<open>B \<le> W\<close> by blast
      then show ?thesis using i'(2) \<open>B \<le> W\<close> unfolding split by blast
    next
      case False
      then have "n \<le> j" "j \<in> arrived ops" using j arrived_Cons [of op ops] by auto
      then have "j \<in> {n..<n1} \<or> j \<in> {n1..} \<inter> arrived ops" by auto
      then show ?thesis using i'(2) \<open>B \<le> W\<close> unfolding split by blast
    qed
  qed
  ultimately show ?case using r r' by (intro exI [of _ n'] exI [of _ H']) (simp add: le_trans)
qed

end
