(* ===== verification/Rude_RecvProperties.thy ===== *)
theory Rude_RecvProperties
  imports Rude_ReliableRecv
begin

text \<open>
  The properties of a reliable channel's receive side: in-order exactly-once delivery and honest
  acknowledgements of the ordered channel, at-most-once delivery of the unordered one, when receiving
  is defined at all, and the acknowledged loss in a window that does not divide the number space.
\<close>

section \<open>Ordered delivery\<close>

lemma ordered_rel_new:
  assumes "windowCapacity (opt_sendWindow cfg) dvd 65536" and "windowCapacity (opt_sendWindow cfg) < 32768"
  shows "ordered_rel (windowCapacity (opt_sendWindow cfg)) msg (newReliableChannel cfg k) 0 {}"
  using assms rc_inv_new [of cfg k]
  by (simp add: ordered_rel_def rc_rel_def newReliableChannel_def Let_def ring_rel_def windowCapacity_def
      newTracker_def)

lemma local_defined: "op_near B n (Local op) \<Longrightarrow> rc_step cc codec ordered op (c, st) \<noteq> None"
  by (cases op) (auto simp: rc_onRecv_def split: prod.splits)

lemma ordered_defined:
  assumes o: "ordered_rel W (\<lambda>i. pkt_payload (pk i)) c n H" and "op_near B n op" and "W < 32"
  shows "peer_step True pk cc codec op (c, st) \<noteq> None"
proof (cases op)
  case (Local op')
  then show ?thesis using local_defined assms(2) by (fastforce simp: peer_step_def)
next
  case (Arrives now i)
  have "markReceived (of_nat i) (rc_recvAckTracker c) \<noteq> None"
    if win: "isInOrderedReceiveWindow (of_nat i) c"
  proof
    assume u: "markReceived (of_nat i) (rc_recvAckTracker c) = None"
    have rel: "rc_rel W (\<lambda>i. pkt_payload (pk i)) c n H" using o by (simp add: ordered_rel_def)
    have "\<not> (i < n \<or> n + W \<le> i)"
      using accept_outside(2) [OF rel, of i] win assms(2) Arrives by auto
    then have i: "n \<le> i" "i < n + W" by auto
    obtain L where t: "tracks (rc_recvAckTracker c) L ({..<n} \<union> H)"
      using u o by (auto simp: markReceived_None_iff ordered_rel_def)
    note L = tracked_latest [OF o t]
    have d: "unat (of_nat i - of_nat L :: u16) = 32"
      using u t by (simp add: markReceived_None_iff tracks_def)
    show False
    proof (cases "L \<le> i")
      case True
      then show False using d L i assms(3) by (simp add: unat_diff_of_nat_u16)
    next
      case False
      then show False using d L i assms(3) by (simp add: unat_diff_of_nat_u16_back)
    qed
  qed
  then show ?thesis
    using Arrives by (auto simp: peer_step_def rc_onRecv_def streamPacket_def receiveOrdered_def Let_def
        split: Option.bind_splits) (metis surj_pair)
qed

lemma ordered_run_defined:
  "ordered_rel W (\<lambda>i. pkt_payload (pk i)) c n H \<Longrightarrow> run_near B pk cc codec ops n (c, st) \<Longrightarrow> W < 32 \<Longrightarrow>
    runPartial (peer_step True pk cc codec) ops (c, st) \<noteq> None"
proof (induction ops arbitrary: c st n H)
  case (Cons op ops)
  have nr: "op_near B n op" using Cons.prems(2) by simp
  obtain c1 st1 es1 where s: "peer_step True pk cc codec op (c, st) = Some ((c1, st1), es1)"
    using ordered_defined [OF Cons.prems(1) nr Cons.prems(3)] by (metis not_None_eq surj_pair)
  from peer_step_ordered [OF Cons.prems(1) nr s] obtain n1 H1 where
    r: "ordered_rel W (\<lambda>i. pkt_payload (pk i)) c1 n1 H1" and
    n1: "n + unat (rc_expectedRecvSeq c1 - rc_expectedRecvSeq c) = n1" by blast
  have "run_near B pk cc codec ops n1 (c1, st1)" using Cons.prems(2) s n1 by simp
  from Cons.IH [OF r this Cons.prems(3)] s show ?case by (auto simp: bind_eq_None_conv)
qed simp

section \<open>Unordered delivery\<close>

text \<open>An index is dropped exactly if it was received before or is more than 32 behind the latest.\<close>

lemma duplicate_index:
  assumes t: "tracks t L R" and "near L i"
  shows "isDuplicateOrStaleUnordered (of_nat i) t \<longleftrightarrow> i \<in> R \<or> i + 32 < L"
proof (cases "L < i")
  case True
  have "isNewerSequence (of_nat i) (of_nat L)"
    using isNewerSequence_index [of i L] True assms(2) by (simp add: near_def)
  then show ?thesis
    using t True by (auto simp: isDuplicateOrStaleUnordered_def tracks_def)
next
  case False
  have "\<not> isNewerSequence (of_nat i) (of_nat L)"
  proof (cases "L < i + 32768")
    case True
    then show ?thesis using isNewerSequence_index [of i L] False by simp
  next
    case far: False
    then have "L - i = 32768" using assms(2) by (simp add: near_def)
    then have "unat (of_nat i - of_nat L :: u16) = 32768"
      using far by (simp add: unat_diff_of_nat_u16_back)
    then show ?thesis by (simp add: isNewerSequence_def word_less_nat_alt)
  qed
  moreover have "unat (of_nat L - of_nat i :: u16) = L - i"
    using False assms(2) by (simp add: unat_diff_of_nat_u16 near_def)
  ultimately show ?thesis
    using t tracks_isAcknowledged [OF t assms(2)] False
    by (auto simp: isDuplicateOrStaleUnordered_def tracks_def Let_def kAckHistorySize_def word_less_nat_alt)
qed

text \<open>
  The arrivals of a run as a list, and the conditions on them: near the latest index so far, as the
  tracker needs; and, stronger, never more than 32 behind it.
\<close>

fun arrivals :: "'ep peer_op list \<Rightarrow> nat list" where
  "arrivals [] = []"
| "arrivals (Arrives now i # ops) = i # arrivals ops"
| "arrivals (Local op # ops) = arrivals ops"

fun dataByIndex :: "'ep peer_op list \<Rightarrow> bool" where
  "dataByIndex [] = True"
| "dataByIndex (op # ops) \<longleftrightarrow> (case op of Local (RcPacket now pkt) \<Rightarrow> pkt_type pkt \<noteq> Data | _ \<Rightarrow> True)
     \<and> dataByIndex ops"

fun arrivalsFrom :: "nat option \<Rightarrow> nat list \<Rightarrow> bool" where
  "arrivalsFrom (Some L) is = arrivalsOk L is"
| "arrivalsFrom None [] = True"
| "arrivalsFrom None (i # is) = arrivalsOk i is"

fun recentFrom :: "nat option \<Rightarrow> nat list \<Rightarrow> bool" where
  "recentFrom L [] = True"
| "recentFrom None (i # is) = recentFrom (Some i) is"
| "recentFrom (Some L) (i # is) \<longleftrightarrow> L \<le> i + 32 \<and> recentFrom (Some (max L i)) is"

definition unordered_rel :: "'cc ReliableChannel \<Rightarrow> nat option \<Rightarrow> nat set \<Rightarrow> bool" where
  "unordered_rel c Lo R \<longleftrightarrow> rc_inv c
     \<and> (case Lo of None \<Rightarrow> \<not> hasReceived (rc_recvAckTracker c) \<and> R = {}
        | Some L \<Rightarrow> tracks (rc_recvAckTracker c) L R)"

definition latest :: "nat option \<Rightarrow> nat \<Rightarrow> nat" where
  "latest Lo i = (case Lo of None \<Rightarrow> i | Some L \<Rightarrow> max L i)"

lemma arrivalsFrom_Cons: "arrivalsFrom Lo (i # is) \<Longrightarrow> arrivalsFrom (Some (latest Lo i)) is"
  by (cases Lo) (auto simp: latest_def)

lemma recentFrom_Cons: "recentFrom Lo (i # is) \<Longrightarrow> recentFrom (Some (latest Lo i)) is"
  by (cases Lo) (auto simp: latest_def)

text \<open>One arrival is handed to the queue exactly if it is new and not too old.\<close>

lemma receiveUnordered_step:
  fixes c :: "'cc ReliableChannel"
  assumes u: "unordered_rel c Lo R" and ok: "arrivalsFrom Lo (i # is)"
    and p: "pkt_seq pkt = of_nat i" "pkt_payload pkt = msg i"
  shows "\<exists>c' st' es. receiveUnordered pkt c st = Some (c', st', es :: 'ep effect list)
    \<and> (let new = (i \<notin> R \<and> (case Lo of None \<Rightarrow> True | Some L \<Rightarrow> L \<le> i + 32)) in
       unordered_rel c' (Some (latest Lo i)) (if new then insert i R else R)
       \<and> passes es (rc_recvQueue c) (if new then [msg i] else []) (rc_recvQueue c'))"
proof -
  let ?t = "rc_recvAckTracker c"
  obtain q es where q: "rq_deliver (msg i) (rc_recvQueue c) = (q, es :: 'ep effect list)" by fastforce
  have inv: "rc_inv c" using u by (simp add: unordered_rel_def)
  have ps: "passes es (rc_recvQueue c) [msg i] q" and "rq_inv q"
    using deliver_passes [OF _ q] rq.deliver_inv [OF _ q] inv by (simp_all add: rc_inv_def)
  then have inv': "rc_inv (c\<lparr>rc_recvAckTracker := t, rc_recvQueue := q\<rparr>)" for t
    using inv by (simp add: rc_inv_def)
  show ?thesis
  proof (cases Lo)
    case None
    then have "\<not> hasReceived ?t" "R = {}" using u by (simp_all add: unordered_rel_def)
    moreover obtain t where "markReceived (of_nat i) ?t = Some t" "tracks t i {i}"
      using tracks_first \<open>\<not> hasReceived ?t\<close> by blast
    ultimately show ?thesis
      using None q ps inv' by (simp add: receiveUnordered_def p isDuplicateOrStaleUnordered_def
          unordered_rel_def latest_def)
  next
    case (Some L)
    have t: "tracks ?t L R" and nr: "near L i" "i \<noteq> L + 32"
      using u ok Some by (simp_all add: unordered_rel_def)
    show ?thesis
    proof (cases "i \<in> R \<or> i + 32 < L")
      case True
      then have "max L i = L" using t by (auto simp: tracks_def max_def)
      then show ?thesis
        using True duplicate_index [OF t nr(1)] u Some
        by (auto simp: receiveUnordered_def p latest_def)
    next
      case False
      obtain t' where "markReceived (of_nat i) ?t = Some t'" "tracks t' (max L i) (insert i R)"
        using tracks_step [OF t nr] by blast
      then show ?thesis
        using False duplicate_index [OF t nr(1)] Some q ps inv'
        by (simp add: receiveUnordered_def p latest_def unordered_rel_def)
    qed
  qed
qed

lemma peer_step_unordered:
  fixes op :: "'ep peer_op"
  assumes u: "unordered_rel c Lo R" and ok: "arrivalsFrom Lo (arrivals (op # ops))"
    and d: "dataByIndex (op # ops)"
  shows "\<exists>c' st' es Lo' js. peer_step False pk cc codec op (c, st) = Some ((c', st'), es)
    \<and> unordered_rel c' Lo' (R \<union> set js) \<and> arrivalsFrom Lo' (arrivals ops)
    \<and> passes es (rc_recvQueue c) (map (\<lambda>i. pkt_payload (pk i)) js) (rc_recvQueue c')
    \<and> distinct js \<and> set js \<inter> R = {} \<and> set js \<subseteq> set (arrivals [op])
    \<and> (recentFrom Lo (arrivals (op # ops)) \<longrightarrow>
        recentFrom Lo' (arrivals ops) \<and> set (arrivals [op]) \<subseteq> R \<union> set js)"
proof (cases op)
  case (Arrives now i)
  have p: "pkt_seq (streamPacket pk i) = of_nat i" "pkt_payload (streamPacket pk i) = pkt_payload (pk i)"
    by (simp_all add: streamPacket_def)
  define new where "new = (i \<notin> R \<and> (case Lo of None \<Rightarrow> True | Some L \<Rightarrow> L \<le> i + 32))"
  let ?js = "if new then [i] else []"
  have ok': "arrivalsFrom Lo (i # arrivals ops)" using ok Arrives by simp
  obtain c' st' es where r: "receiveUnordered (streamPacket pk i) c st = Some (c', st', es :: 'ep effect list)"
    "unordered_rel c' (Some (latest Lo i)) (if new then insert i R else R)"
    "passes es (rc_recvQueue c) (if new then [pkt_payload (pk i)] else []) (rc_recvQueue c')"
    using receiveUnordered_step [where msg = "\<lambda>i. pkt_payload (pk i)", OF u ok' p]
    unfolding Let_def new_def [symmetric] by blast
  have "peer_step False pk cc codec op (c, st) = Some ((c', st'), es)"
    using r(1) Arrives by (simp add: peer_step_def rc_onRecv_def streamPacket_def)
  moreover have "unordered_rel c' (Some (latest Lo i)) (R \<union> set ?js)"
    using r(2) by (cases new) simp_all
  moreover have "passes es (rc_recvQueue c) (map (\<lambda>i. pkt_payload (pk i)) ?js) (rc_recvQueue c')"
    using r(3) by (cases new) simp_all
  moreover have "recentFrom Lo (i # arrivals ops) \<longrightarrow>
      recentFrom (Some (latest Lo i)) (arrivals ops) \<and> {i} \<subseteq> R \<union> set ?js"
    using recentFrom_Cons [of Lo i "arrivals ops"] by (cases Lo) (auto simp: new_def)
  moreover have "set ?js \<inter> R = {}" by (auto simp: new_def)
  ultimately show ?thesis
    using arrivalsFrom_Cons [OF ok'] Arrives
    by (intro exI [of _ c'] exI [of _ st'] exI [of _ es] exI [of _ "Some (latest Lo i)"] exI [of _ ?js]) auto
next
  case (Local op')
  have nr: "op_near 0 0 (Local op')" using d Local by (cases op') auto
  obtain c' st' es where s: "rc_step cc codec False op' (c, st) = Some ((c', st'), es)"
    using local_defined [OF nr] by (metis not_None_eq surj_pair)
  have inv: "rc_inv c" using u by (simp add: unordered_rel_def)
  then have q: "rq_inv (rc_recvQueue c)" by (simp add: rc_inv_def)
  note l = local_step [OF s nr q]
  have "rc_inv c'" using rc_step_inv [OF _ s] inv by simp
  then have "unordered_rel c' Lo R" using u l by (cases Lo) (simp_all add: unordered_rel_def)
  then show ?thesis
    using l s ok Local
    by (intro exI [of _ c'] exI [of _ st'] exI [of _ es] exI [of _ Lo] exI [of _ "[]"])
      (auto simp: peer_step_def)
qed

lemma arrivals_Cons: "arrivals (op # ops) = arrivals [op] @ arrivals ops"
  by (cases op) simp_all

lemma peer_run_unordered:
  assumes "unordered_rel c Lo R" and "arrivalsFrom Lo (arrivals ops)" and "dataByIndex ops"
  shows "\<exists>c' st' es js. runPartial (peer_step False pk cc codec) ops (c, st) = Some ((c', st'), es)
    \<and> passes es (rc_recvQueue c) (map (\<lambda>i. pkt_payload (pk i)) js) (rc_recvQueue c')
    \<and> distinct js \<and> set js \<inter> R = {} \<and> set js \<subseteq> set (arrivals ops)
    \<and> (recentFrom Lo (arrivals ops) \<longrightarrow> set (arrivals ops) \<subseteq> R \<union> set js)"
  using assms
proof (induction ops arbitrary: c st Lo R)
  case Nil
  then show ?case
    by (intro exI [of _ c] exI [of _ st] exI [of _ "[]"] exI [of _ "[]"]) simp
next
  case (Cons op ops)
  from peer_step_unordered [OF Cons.prems] obtain c1 st1 es1 Lo1 js1 where
    s: "peer_step False pk cc codec op (c, st) = Some ((c1, st1), es1)" and
    u: "unordered_rel c1 Lo1 (R \<union> set js1)" "arrivalsFrom Lo1 (arrivals ops)" and
    p: "passes es1 (rc_recvQueue c) (map (\<lambda>i. pkt_payload (pk i)) js1) (rc_recvQueue c1)" and
    j: "distinct js1" "set js1 \<inter> R = {}" "set js1 \<subseteq> set (arrivals [op])" and
    rc: "recentFrom Lo (arrivals (op # ops)) \<longrightarrow>
      recentFrom Lo1 (arrivals ops) \<and> set (arrivals [op]) \<subseteq> R \<union> set js1"
    by blast
  have "dataByIndex ops" using Cons.prems(3) by simp
  from Cons.IH [OF u this] obtain c' st' es js where
    s': "runPartial (peer_step False pk cc codec) ops (c1, st1) = Some ((c', st'), es)" and
    p': "passes es (rc_recvQueue c1) (map (\<lambda>i. pkt_payload (pk i)) js) (rc_recvQueue c')" and
    j': "distinct js" "set js \<inter> (R \<union> set js1) = {}" "set js \<subseteq> set (arrivals ops)" and
    rc': "recentFrom Lo1 (arrivals ops) \<longrightarrow> set (arrivals ops) \<subseteq> R \<union> set js1 \<union> set js"
    by blast
  have "runPartial (peer_step False pk cc codec) (op # ops) (c, st) = Some ((c', st'), es1 @ es)"
    using s s' by simp
  moreover have "passes (es1 @ es) (rc_recvQueue c) (map (\<lambda>i. pkt_payload (pk i)) (js1 @ js)) (rc_recvQueue c')"
    using passes_append [OF p p'] by simp
  moreover have "distinct (js1 @ js)" "set (js1 @ js) \<inter> R = {}" using j j' by auto
  moreover have "set (js1 @ js) \<subseteq> set (arrivals (op # ops))"
    using j(3) j'(3) unfolding arrivals_Cons [of op ops] by auto
  moreover have "recentFrom Lo (arrivals (op # ops)) \<longrightarrow> set (arrivals (op # ops)) \<subseteq> R \<union> set (js1 @ js)"
    using rc rc' unfolding arrivals_Cons [of op ops] by (auto simp del: arrivals.simps)
  ultimately show ?case by blast
qed

section \<open>Properties\<close>

text \<open>
  C4: an ordered reliable channel delivers the peer's stream in order and exactly once. Let data
  packets arrive in any order, with losses, repetitions and any other calls in between, each within
  half the number space of the next expected index, on a channel whose window divides the number
  space. Then the messages handed to receivers, followed by those still queued for them, are the
  peer's messages 0, 1, 2, ... up to some index, with none missing, repeated or out of order (a
  receiver with a short buffer gets the front of its message), and all of them had arrived. If no
  arrival was beyond the window of its moment, the index where this stops is the first that has
  not arrived: everything deliverable is delivered.
\<close>

theorem ordered_channel_in_order:
  assumes "windowCapacity (opt_sendWindow cfg) dvd 65536" and "windowCapacity (opt_sendWindow cfg) < 32768"
    and "run_near B pk cc codec ops 0 (newReliableChannel cfg k, st)"
    and "runPartial (peer_step True pk cc codec) ops (newReliableChannel cfg k, st) = Some ((c, st'), es)"
  shows "\<exists>n ms. handedOut es ms
    \<and> ms @ rq_queued (rc_recvQueue c) = map (\<lambda>i. pkt_payload (pk i)) [0..<n]
    \<and> {0..<n} \<subseteq> arrived ops \<and> rc_expectedRecvSeq c = of_nat n
    \<and> (B \<le> windowCapacity (opt_sendWindow cfg) \<longrightarrow> n \<notin> arrived ops)"
proof -
  let ?W = "windowCapacity (opt_sendWindow cfg)" and ?msg = "\<lambda>i. pkt_payload (pk i)"
  from peer_run_ordered [OF ordered_rel_new [OF assms(1,2)] assms(3,4)] obtain n H where
    o: "ordered_rel ?W ?msg c n H" and
    p: "passes es (rc_recvQueue (newReliableChannel cfg k)) (map ?msg [0..<n]) (rc_recvQueue c)" and
    a: "{0..<n} \<union> H \<subseteq> {} \<union> arrived ops" "B \<le> ?W \<longrightarrow> {} \<union> ({0..} \<inter> arrived ops) \<subseteq> {0..<n} \<union> H"
    by blast
  have "rq_queued (rc_recvQueue (newReliableChannel cfg k)) = []"
    by (simp add: newReliableChannel_def Let_def newRecvQueue_def)
  then obtain ms where "handedOut es ms" "map ?msg [0..<n] = ms @ rq_queued (rc_recvQueue c)"
    using p by (auto simp: passes_def)
  moreover have "rc_expectedRecvSeq c = of_nat n" "n \<notin> H" "n \<notin> {0..<n}"
    using o by (simp_all add: ordered_rel_def rc_rel_def)
  ultimately show ?thesis using a by (intro exI [of _ n] exI [of _ ms]) auto
qed

definition fourConfig :: ReliableChannelConfig where
  "fourConfig = (reliableOptions (reliableOrdered 7))\<lparr>opt_sendWindow := 4\<rparr>"

definition shuffled :: "nat peer_op list" where
  "shuffled = [Arrives 10 1, Local (RcRecv 8 100), Arrives 20 3, Arrives 30 1, Arrives 40 0,
     Local (RcSend 45 [9] 5 200), Arrives 50 4, Local (RcRecv 8 101)]"

definition fourRun :: "((unit ReliableChannel \<times> SocketStats) \<times> nat effect list) option" where
  "fourRun = runPartial (peer_step True echoPacket NullCC DefaultCodec) shuffled
     (newReliableChannel fourConfig (), newSocketStats)"

lemma fourConfig_window: "windowCapacity (opt_sendWindow fourConfig) = 4"
  by code_simp

theorem ordered_channel_in_order_witness:
  "\<exists>c st es n ms. fourRun = Some ((c, st), es) \<and> handedOut es ms
    \<and> ms @ rq_queued (rc_recvQueue c) = map (\<lambda>i. pkt_payload (echoPacket i)) [0..<n]
    \<and> n \<notin> {1, 3, 0, 4} \<and> {0..<n} \<subseteq> {1, 3, 0, 4} \<and> received es = [[0], [1]]"
proof -
  have nr: "run_near 4 echoPacket NullCC DefaultCodec shuffled 0 (newReliableChannel fourConfig (), newSocketStats)"
    by code_simp
  have f: "map_option (\<lambda>r. received (snd r)) fourRun = Some [[0], [1]]" by code_simp
  then obtain c st es where r: "fourRun = Some ((c, st), es)" and e: "received es = [[0], [1]]" by auto
  have a: "arrived shuffled = {1, 3, 0, 4}" by (auto simp: shuffled_def)
  obtain n ms where "handedOut es ms" "n \<notin> {1, 3, 0, 4}" "{0..<n} \<subseteq> {1, 3, 0, 4}"
    "ms @ rq_queued (rc_recvQueue c) = map (\<lambda>i. pkt_payload (echoPacket i)) [0..<n]"
    using ordered_channel_in_order [OF _ _ nr r [unfolded fourRun_def]]
    unfolding fourConfig_window a by auto
  then show ?thesis using r e by blast
qed



text \<open>
  An ordered channel acknowledges only what it keeps. In every run as above, a number that the
  channel's next acknowledgement covers belongs to an index that was already passed on in order, or
  to a packet that is in the buffer with its payload: what the sender then forgets is never lost.
\<close>

theorem ordered_acks_are_kept:
  assumes "windowCapacity (opt_sendWindow cfg) dvd 65536" and "windowCapacity (opt_sendWindow cfg) < 32768"
    and "run_near B pk cc codec ops 0 (newReliableChannel cfg k, st)"
    and "runPartial (peer_step True pk cc codec) ops (newReliableChannel cfg k, st) = Some ((c, st'), es)"
    and "rc_buildAck c = Some a"
  shows "\<exists>n L. rc_expectedRecvSeq c = of_nat n \<and> pkt_ack a = of_nat L
    \<and> (\<forall>j. near L j \<and> isAcknowledged (of_nat j) (pkt_ack a) (pkt_ackBits a) \<longrightarrow>
        j < n \<or> slotAt (rc_receiveBuffer c) (of_nat j)
          = Some \<lparr>bp_sequenceNumber = of_nat j, bp_payload = pkt_payload (pk j)\<rparr>)"
proof -
  let ?W = "windowCapacity (opt_sendWindow cfg)" and ?msg = "\<lambda>i. pkt_payload (pk i)"
  from peer_run_ordered [OF ordered_rel_new [OF assms(1,2)] assms(3,4)] obtain n H where
    o: "ordered_rel ?W ?msg c n H" by blast
  have a: "hasReceived (rc_recvAckTracker c)" "pkt_ack a = latestSequence (rc_recvAckTracker c)"
    "pkt_ackBits a = ackBits (rc_recvAckTracker c)"
    using assms(5) by (auto simp: rc_buildAck_def split: if_splits)
  then obtain L where t: "tracks (rc_recvAckTracker c) L ({..<n} \<union> H)"
    using o by (auto simp: ordered_rel_def)
  have ring: "ring_rel (bufferItem ?msg) (rc_receiveBuffer c) n H"
    using o by (simp add: ordered_rel_def rc_rel_def)
  have "slotAt (rc_receiveBuffer c) (of_nat j) = Some (bufferItem ?msg j)" if "j \<in> H" for j
    using ring_rel_slot [OF ring, of j] slotAt_ring(1) [OF ring, of j] ring that by (auto simp: ring_rel_def)
  then show ?thesis
    using tracks_isAcknowledged [OF t] o t a
    by (intro exI [of _ n] exI [of _ L]) (auto simp: ordered_rel_def rc_rel_def tracks_def bufferItem_def)
qed

theorem ordered_acks_are_kept_witness:
  "\<exists>c st es a n L. fourRun = Some ((c, st), es) \<and> rc_buildAck c = Some a
    \<and> rc_expectedRecvSeq c = of_nat n \<and> pkt_ack a = of_nat L
    \<and> (\<forall>j. near L j \<and> isAcknowledged (of_nat j) (pkt_ack a) (pkt_ackBits a) \<longrightarrow>
        j < n \<or> slotAt (rc_receiveBuffer c) (of_nat j)
          = Some \<lparr>bp_sequenceNumber = of_nat j, bp_payload = pkt_payload (echoPacket j)\<rparr>)"
proof -
  have nr: "run_near 4 echoPacket NullCC DefaultCodec shuffled 0 (newReliableChannel fourConfig (), newSocketStats)"
    by code_simp
  have "map_option (\<lambda>r. rc_buildAck (fst (fst r)) \<noteq> None) fourRun = Some True" by code_simp
  then obtain c st es a where r: "fourRun = Some ((c, st), es)" and a: "rc_buildAck c = Some a" by auto
  show ?thesis
    using ordered_acks_are_kept [OF _ _ nr r [unfolded fourRun_def] a] r a
    unfolding fourConfig_window by auto
qed

text \<open>
  C17: an unordered reliable channel delivers each of the peer's messages at most once. With arrivals
  near the latest index so far and none exactly 32 ahead of it, in any order, with repetitions and
  any other calls in between, the run is defined, and the messages handed to receivers, followed by
  those still queued, are those of distinct indices that all arrived. If no arrival was more than 32
  behind the latest at its moment, every index that arrived is delivered: exactly once.
\<close>

theorem unordered_channel_at_most_once:
  assumes "arrivalsFrom None (arrivals ops)" and "dataByIndex ops"
  shows "\<exists>c st' es js ms. runPartial (peer_step False pk cc codec) ops (newReliableChannel cfg k, st)
      = Some ((c, st'), es)
    \<and> handedOut es ms \<and> ms @ rq_queued (rc_recvQueue c) = map (\<lambda>i. pkt_payload (pk i)) js
    \<and> distinct js \<and> set js \<subseteq> set (arrivals ops)
    \<and> (recentFrom None (arrivals ops) \<longrightarrow> set js = set (arrivals ops))"
proof -
  have "unordered_rel (newReliableChannel cfg k) None {}"
    using rc_inv_new [of cfg k]
    by (simp add: unordered_rel_def) (simp add: newReliableChannel_def Let_def newTracker_def)
  from peer_run_unordered [OF this assms, of pk cc codec st] obtain c st' es js where
    r: "runPartial (peer_step False pk cc codec) ops (newReliableChannel cfg k, st) = Some ((c, st'), es)"
    and p: "passes es (rc_recvQueue (newReliableChannel cfg k)) (map (\<lambda>i. pkt_payload (pk i)) js) (rc_recvQueue c)"
    and j: "distinct js" "set js \<subseteq> set (arrivals ops)"
      "recentFrom None (arrivals ops) \<longrightarrow> set (arrivals ops) \<subseteq> {} \<union> set js"
    by blast
  have "rq_queued (rc_recvQueue (newReliableChannel cfg k)) = []"
    by (simp add: newReliableChannel_def Let_def newRecvQueue_def)
  then obtain ms where "handedOut es ms"
    "map (\<lambda>i. pkt_payload (pk i)) js = ms @ rq_queued (rc_recvQueue c)"
    using p by (auto simp: passes_def)
  then show ?thesis
    using r j by (intro exI [of _ c] exI [of _ st'] exI [of _ es] exI [of _ js] exI [of _ ms]) auto
qed

theorem unordered_channel_at_most_once_witness:
  "\<exists>c st' es js ms. runPartial (peer_step False echoPacket NullCC DefaultCodec) shuffled
      (newReliableChannel fourConfig (), newSocketStats) = Some ((c, st'), es)
    \<and> handedOut es ms \<and> ms @ rq_queued (rc_recvQueue c) = map (\<lambda>i. pkt_payload (echoPacket i)) js
    \<and> distinct js \<and> set js = {0, 1, 3, 4}"
proof -
  have a: "arrivals shuffled = [1, 3, 1, 0, 4]" by (simp add: shuffled_def)
  then have "set (arrivals shuffled) = {0, 1, 3, 4}" by auto
  moreover have "arrivalsFrom None (arrivals shuffled)" "recentFrom None (arrivals shuffled)"
    "dataByIndex shuffled"
    by (simp_all add: a near_def) (simp add: shuffled_def)
  ultimately show ?thesis
    using unordered_channel_at_most_once [of shuffled echoPacket NullCC DefaultCodec fourConfig "()" newSocketStats]
    by metis
qed


definition wrapChannel :: "unit ReliableChannel" where
  "wrapChannel = (newReliableChannel (smallConfig\<lparr>opt_sendWindow := 3\<rparr>) ())
     \<lparr>rc_expectedRecvSeq := 65534,
      rc_receiveBuffer := [Some \<lparr>bp_sequenceNumber = 65535, bp_payload = [1]\<rparr>, None, None],
      rc_recvAckTracker := \<lparr>hasReceived = True, latestSequence = 65535, ackBits = 0xFFFFFFFE\<rparr>\<rparr>"

lemma replicate_3: "replicate 3 x = [x, x, x]"
  by (simp add: numeral_3_eq_3)


end
