(* ===== verification/Rude_Inline.thy ===== *)
theory Rude_Inline
  imports Rude_ReliableRecv
begin

text \<open>
  Receive handlers that receive again. The handler of a receive runs inside the call that completes it
  (\<^verbatim>\<open>detail/channel/ChannelCommon.hpp\<close>, \<open>completeRecv\<close>), and a handler that calls \<open>asyncRecv\<close> there, as every
  coroutine that receives in a loop does, enters the receive queue in the middle of
  \<open>drainReadyPackets\<close>, because dispatching to the strand from the strand runs in place. The channel's
  operations in the other theories return their completions as effects instead, and the handler's next
  receive is a later operation. This theory has the nested execution, and shows that it is a run of those
  operations.
\<close>

section \<open>Nested execution\<close>

text \<open>
  What a handler does when its receive succeeded: nothing, or the next receive, with a buffer size and a
  handler. A handler whose receive failed does not receive again.
\<close>

type_synonym reaction = "handler \<Rightarrow> (nat \<times> handler) option"

function inlineRecv :: "reaction \<Rightarrow> nat \<Rightarrow> handler \<Rightarrow> RecvQueue \<Rightarrow> RecvQueue \<times> 'ep effect list" where
  "inlineRecv react n h q =
     (let (q1, es) = rq_asyncRecv n h q in
      if rq_queued q = [] then (q1, es)
      else case react h of
          None \<Rightarrow> (q1, es)
        | Some (n', h') \<Rightarrow> let (q2, fs) = inlineRecv react n' h' q1 in (q2, es @ fs))"
  by pat_completeness auto
termination
  by (relation "measure (\<lambda>(react, n, h, q). length (rq_queued q))")
    (auto simp: rq_defs split: list.splits)

declare inlineRecv.simps [simp del]

text \<open>The handler of a receive that has just succeeded runs.\<close>

fun resume :: "reaction \<Rightarrow> handler list \<Rightarrow> RecvQueue \<Rightarrow> RecvQueue \<times> 'ep effect list" where
  "resume react [] q = (q, [])"
| "resume react (h # _) q = (case react h of None \<Rightarrow> (q, []) | Some (n, h') \<Rightarrow> inlineRecv react n h' q)"

definition inlineDeliver :: "reaction \<Rightarrow> bytes \<Rightarrow> RecvQueue \<Rightarrow> RecvQueue \<times> 'ep effect list" where
  "inlineDeliver react m q =
     (let (q1, es) = rq_deliver m q; (q2, fs) = resume react (rq_parked q) q1 in (q2, es @ fs))"

function inlineDrain ::
  "reaction \<Rightarrow> 'cc ReliableChannel \<Rightarrow> SocketStats \<Rightarrow> 'cc ReliableChannel \<times> SocketStats \<times> 'ep effect list" where
  "inlineDrain react c st =
     (case readyPacket c of
        None \<Rightarrow> (c, st, [])
      | Some b \<Rightarrow>
          let (q, es) = inlineDeliver react (bp_payload b) (rc_recvQueue c);
              (c', st', fs) = inlineDrain react (advanced q c) (countRecv (length (bp_payload b)) st)
          in (c', st', es @ fs))"
  by pat_completeness auto
termination
  by (relation "measure (\<lambda>(react, c, st). occupied (rc_receiveBuffer c))")
    (auto simp: readyPacket_def advanced_def dest!: slotAt_SomeD simp flip: occupied_clear split: option.splits if_splits)

declare inlineDrain.simps [simp del]

text \<open>\<open>receiveOrdered\<close>, \<open>receiveUnordered\<close> and \<open>onRecv\<close> with the nested calls.\<close>

definition inlineOrdered ::
  "reaction \<Rightarrow> Packet \<Rightarrow> 'cc ReliableChannel \<Rightarrow> SocketStats
    \<Rightarrow> ('cc ReliableChannel \<times> SocketStats \<times> 'ep effect list) option" where
  "inlineOrdered react packet c st =
     (if \<not> isInOrderedReceiveWindow (pkt_seq packet) c then Some (c, st, [])
      else
        do {
          t \<leftarrow> markReceived (pkt_seq packet) (rc_recvAckTracker c);
          let c = c\<lparr>rc_recvAckTracker := t\<rparr>;
          if slotAt (rc_receiveBuffer c) (pkt_seq packet) \<noteq> None then Some (c, st, [])
          else
            Some (inlineDrain react
              (c\<lparr>rc_receiveBuffer := (rc_receiveBuffer c)
                   [slotIndex (pkt_seq packet) (length (rc_receiveBuffer c)) :=
                      Some \<lparr>bp_sequenceNumber = pkt_seq packet, bp_payload = pkt_payload packet\<rparr>]\<rparr>)
              st)
        })"

definition inlineUnordered ::
  "reaction \<Rightarrow> Packet \<Rightarrow> 'cc ReliableChannel \<Rightarrow> SocketStats
    \<Rightarrow> ('cc ReliableChannel \<times> SocketStats \<times> 'ep effect list) option" where
  "inlineUnordered react packet c st =
     (if isDuplicateOrStaleUnordered (pkt_seq packet) (rc_recvAckTracker c) then Some (c, st, [])
      else
        do {
          t \<leftarrow> markReceived (pkt_seq packet) (rc_recvAckTracker c);
          let (q, es) = inlineDeliver react (pkt_payload packet) (rc_recvQueue c);
          Some (c\<lparr>rc_recvAckTracker := t, rc_recvQueue := q\<rparr>,
                countRecv (length (pkt_payload packet)) st, es)
        })"

definition inlineOnRecv ::
  "reaction \<Rightarrow> 'cc CongestionCtrl \<Rightarrow> bool \<Rightarrow> time_ns \<Rightarrow> Packet \<Rightarrow> 'cc ReliableChannel \<Rightarrow> SocketStats
    \<Rightarrow> ('cc ReliableChannel \<times> SocketStats \<times> 'ep effect list) option" where
  "inlineOnRecv react cc ordered now packet c st =
     (if pkt_type packet = Ack then
        let (c, st) = processAck cc now (pkt_ack packet) (pkt_ackBits packet) c st
        in Some (c, st, [])
      else if pkt_type packet \<noteq> Data then Some (c, st, [])
      else if ordered then inlineOrdered react packet c st
      else inlineUnordered react packet c st)"

section \<open>Deliveries in a row\<close>

lemma queueing:
  assumes "rq_pending q = None"
  shows "runOps rq_deliver ms q = (q\<lparr>rq_queued := rq_queued q @ ms\<rparr>, [])"
    and "runOps (inlineDeliver react) ms q = (q\<lparr>rq_queued := rq_queued q @ ms\<rparr>, [])"
  using assms by (induction ms arbitrary: q) (simp_all add: inlineDeliver_def rq_defs rq_parked_def)

lemma inlineRecv_parks:
  "rq_queued q = [] \<Longrightarrow> rq_pending q = None \<Longrightarrow> \<not> rq_closed q \<Longrightarrow>
    inlineRecv react n h q = (q\<lparr>rq_pending := Some \<lparr>pr_size = n, pr_handler = h\<rparr>\<rparr>, [])"
  by (subst inlineRecv.simps) (simp add: rq_defs)

lemma inlineRecv_pops:
  assumes "rq_queued q = m # ms"
  shows "inlineRecv react n h q = (let (q2, fs) = resume react [h] (q\<lparr>rq_queued := ms\<rparr>)
    in (q2, completeRecv \<lparr>pr_size = n, pr_handler = h\<rparr> m @ fs))"
  using assms by (subst inlineRecv.simps) (simp add: rq_asyncRecv_def asyncRecvQ_def split: option.splits)

text \<open>
  The nested deliveries are the plain ones followed by the receives of the handler that was called: what
  is delivered in between to the receive that it parked is what it would find in the queue.
\<close>

lemma inline_all:
  fixes q :: RecvQueue
  assumes "rq_inv q"
  shows "runOps (inlineDeliver react) ms q = (let (q1, es) = runOps rq_deliver ms q;
      (q2, fs) = resume react (if ms = [] then [] else rq_parked q) q1 in (q2, es @ fs :: 'ep effect list))"
  using assms
proof (induction ms arbitrary: q)
  case (Cons m ms)
  show ?case
  proof (cases "rq_pending q")
    case None
    then show ?thesis by (simp add: queueing rq_parked_def del: runOps.simps)
  next
    case (Some r)
    let ?q = "q\<lparr>rq_pending := None\<rparr>"
    have e: "rq_queued q = []" "\<not> rq_closed q" using Cons.prems Some by (auto simp: rq_inv_def)
    have d: "rq_deliver m q = (?q, completeRecv r m :: 'ep effect list)"
      using Some by (simp add: rq_deliver_def deliverOrQueue_def)
    have i: "inlineDeliver react m q = (let (q2, fs) = resume react [pr_handler r] ?q in (q2, completeRecv r m @ fs :: 'ep effect list))"
      using Some d by (simp add: inlineDeliver_def rq_parked_def)
    have plain: "runOps rq_deliver ms ?q = (?q\<lparr>rq_queued := ms\<rparr>, [] :: 'ep effect list)"
      "runOps (inlineDeliver react) ms ?q = (?q\<lparr>rq_queued := ms\<rparr>, [] :: 'ep effect list)"
      using e by (simp_all add: queueing)
    show ?thesis
    proof (cases "react (pr_handler r)")
      case None
      then show ?thesis using Some d i plain by (simp add: rq_parked_def)
    next
      case (Some follow)
      obtain n h where nx: "follow = (n, h)" by fastforce
      let ?p = "q\<lparr>rq_pending := Some \<lparr>pr_size = n, pr_handler = h\<rparr>\<rparr>"
      have "rq_inv ?p" using Cons.prems e by (simp add: rq_inv_def)
      note IH = Cons.IH [OF this]
      have park: "inlineRecv react n h ?q = (?p, [] :: 'ep effect list)" using e by (simp add: inlineRecv_parks)
      have "runOps (inlineDeliver react) ms ?p = (inlineRecv react n h (?q\<lparr>rq_queued := ms\<rparr>) :: _ \<times> 'ep effect list)"
      proof (cases ms)
        case Nil
        have "?q\<lparr>rq_queued := []\<rparr> = ?q" using e by (cases q) simp
        then show ?thesis using Nil park by simp
      next
        case (Cons m2 ms2)
        have "rq_deliver m2 ?p = (?q, completeRecv \<lparr>pr_size = n, pr_handler = h\<rparr> m2 :: 'ep effect list)"
          by (simp add: rq_deliver_def deliverOrQueue_def)
        then show ?thesis
          using IH Cons e by (simp add: queueing(1) rq_parked_def inlineRecv_pops [where m = m2 and ms = ms2])
      qed
      then show ?thesis using \<open>rq_pending q = Some r\<close> Some nx d i plain(1) park
        by (simp add: rq_parked_def case_prod_beta Let_def)
    qed
  qed
qed simp

section \<open>The drain\<close>

text \<open>Both drains are deliveries of the same payloads in a row; the rest of the channel does not depend on the queue.\<close>

lemma drains:
  fixes c :: "'cc ReliableChannel"
  shows "\<exists>d st'. \<forall>q.
      drainReadyPackets (c\<lparr>rc_recvQueue := q\<rparr>) st = (let (q', es) = runOps rq_deliver
        (readyPayloads (rc_receiveBuffer c) (rc_expectedRecvSeq c)) q in (d\<lparr>rc_recvQueue := q'\<rparr>, st', es :: 'ep effect list))
    \<and> inlineDrain react (c\<lparr>rc_recvQueue := q\<rparr>) st = (let (q', es) = runOps (inlineDeliver react)
        (readyPayloads (rc_receiveBuffer c) (rc_expectedRecvSeq c)) q in (d\<lparr>rc_recvQueue := q'\<rparr>, st', es :: 'ep effect list))"
proof (induction "occupied (rc_receiveBuffer c)" arbitrary: c st rule: less_induct)
  case less
  have r: "readyPacket (c\<lparr>rc_recvQueue := q\<rparr>) = readyPacket c" for q by (simp add: readyPacket_def split: option.split)
  show ?case
  proof (cases "readyPacket c")
    case None
    then have "readyPayloads (rc_receiveBuffer c) (rc_expectedRecvSeq c) = []" using readyPayloads_ready [of c] by simp
    then show ?thesis using None
      by (intro exI [of _ c] exI [of _ st]) (simp_all add: r drain_done inlineDrain.simps [of react])
  next
    case (Some b)
    let ?c = "advanced undefined c"
    have a: "advanced q (c\<lparr>rc_recvQueue := q0\<rparr>) = ?c\<lparr>rc_recvQueue := q\<rparr>" for q q0 by (simp add: advanced_def)
    have p: "readyPayloads (rc_receiveBuffer c) (rc_expectedRecvSeq c)
        = bp_payload b # readyPayloads (rc_receiveBuffer ?c) (rc_expectedRecvSeq ?c)"
      using readyPayloads_ready [of c undefined] Some by simp
    have "occupied (rc_receiveBuffer ?c) < occupied (rc_receiveBuffer c)"
      using Some by (auto simp: readyPacket_def advanced_def dest!: slotAt_SomeD simp flip: occupied_clear split: option.splits if_splits)
    from less.hyps [OF this, of "countRecv (length (bp_payload b)) st"] obtain d st' where
      "\<And>q. drainReadyPackets (?c\<lparr>rc_recvQueue := q\<rparr>) (countRecv (length (bp_payload b)) st) = (let (q', es) = runOps rq_deliver
        (readyPayloads (rc_receiveBuffer ?c) (rc_expectedRecvSeq ?c)) q in (d\<lparr>rc_recvQueue := q'\<rparr>, st', es :: 'ep effect list))"
      "\<And>q. inlineDrain react (?c\<lparr>rc_recvQueue := q\<rparr>) (countRecv (length (bp_payload b)) st) = (let (q', es) = runOps (inlineDeliver react)
        (readyPayloads (rc_receiveBuffer ?c) (rc_expectedRecvSeq ?c)) q in (d\<lparr>rc_recvQueue := q'\<rparr>, st', es :: 'ep effect list))" by blast
    then show ?thesis using Some
      by (intro exI [of _ d] exI [of _ st']) (simp_all add: p r a drain_next [OF _ prod.collapse [symmetric]] inlineDrain.simps [of react "c\<lparr>rc_recvQueue := _\<rparr>"]
          case_prod_beta Let_def)
  qed
qed

lemma inline_drain:
  assumes "rq_inv (rc_recvQueue c)" and "drainReadyPackets c st = (c', st', es :: 'ep effect list)"
  obtains hs where "inlineDrain react c st = (let (q, fs) = resume react hs (rc_recvQueue c') in
    (c'\<lparr>rc_recvQueue := q\<rparr>, st', es @ fs :: 'ep effect list))"
proof -
  let ?ms = "readyPayloads (rc_receiveBuffer c) (rc_expectedRecvSeq c)"
  obtain d st1 where
    D: "\<And>q. drainReadyPackets (c\<lparr>rc_recvQueue := q\<rparr>) st
        = (let (q', es) = runOps rq_deliver ?ms q in (d\<lparr>rc_recvQueue := q'\<rparr>, st1, es :: 'ep effect list))"
      "\<And>q. inlineDrain react (c\<lparr>rc_recvQueue := q\<rparr>) st
        = (let (q', es) = runOps (inlineDeliver react) ?ms q in (d\<lparr>rc_recvQueue := q'\<rparr>, st1, es :: 'ep effect list))"
    using drains [where c = c and st = st and react = react] by blast
  have c: "c\<lparr>rc_recvQueue := rc_recvQueue c\<rparr> = c" by simp
  let ?hs = "if ?ms = [] then [] else rq_parked (rc_recvQueue c)"
  have "runOps (inlineDeliver react) ?ms (rc_recvQueue c) = (let (q1, es) = runOps rq_deliver ?ms (rc_recvQueue c);
      (q2, fs) = resume react ?hs q1 in (q2, es @ fs :: 'ep effect list))" by (rule inline_all [OF assms(1)])
  moreover obtain q1 and es1 :: "'ep effect list" where "runOps rq_deliver ?ms (rc_recvQueue c) = (q1, es1)" by fastforce
  moreover obtain q2 and fs :: "'ep effect list" where "resume react ?hs q1 = (q2, fs)" by fastforce
  ultimately show ?thesis
    using D [of "rc_recvQueue c", unfolded c] assms(2) by (intro that [of ?hs]) auto
qed

text \<open>The packet handler with nested calls is the plain one, and then the receives of the handler that was called.\<close>

lemma inline_onRecv:
  assumes "rq_inv (rc_recvQueue c)"
  obtains hs where "inlineOnRecv react cc ordered now p c st = map_option (\<lambda>(c', st', es).
    let (q, fs) = resume react hs (rc_recvQueue c') in (c'\<lparr>rc_recvQueue := q\<rparr>, st', es @ fs :: 'ep effect list))
      (rc_onRecv cc ordered now p c st)"
proof (cases "pkt_type p = Data")
  case False
  then show ?thesis using that [of "[]"] by (auto simp: inlineOnRecv_def rc_onRecv_def split: prod.splits)
next
  case True
  let ?t = "markReceived (pkt_seq p) (rc_recvAckTracker c)"
  show ?thesis
  proof (cases ordered)
    case False
    then show ?thesis
      using True that [of "if isDuplicateOrStaleUnordered (pkt_seq p) (rc_recvAckTracker c) then [] else rq_parked (rc_recvQueue c)"]
      by (cases ?t) (auto simp: inlineOnRecv_def rc_onRecv_def inlineUnordered_def receiveUnordered_def
          inlineDeliver_def Let_def case_prod_beta)
  next
    case ordered: True
    show ?thesis
    proof (cases "\<not> isInOrderedReceiveWindow (pkt_seq p) c \<or> ?t = None \<or> slotAt (rc_receiveBuffer c) (pkt_seq p) \<noteq> None")
      case True
      then show ?thesis using that [of "[]"] ordered \<open>pkt_type p = Data\<close>
        by (cases ?t) (auto simp: inlineOnRecv_def rc_onRecv_def inlineOrdered_def receiveOrdered_def Let_def)
    next
      case False
      then obtain t where t: "?t = Some t" by auto
      let ?c = "c\<lparr>rc_recvAckTracker := t, rc_receiveBuffer := (rc_receiveBuffer c)
        [slotIndex (pkt_seq p) (length (rc_receiveBuffer c)) := Some \<lparr>bp_sequenceNumber = pkt_seq p, bp_payload = pkt_payload p\<rparr>]\<rparr>"
      obtain c' st' and es :: "'ep effect list" where d: "drainReadyPackets ?c st = (c', st', es)" by (rule prod_cases3)
      have "rq_inv (rc_recvQueue ?c)" using assms by simp
      then obtain hs where "inlineDrain react ?c st = (let (q, fs) = resume react hs (rc_recvQueue c') in
          (c'\<lparr>rc_recvQueue := q\<rparr>, st', es @ fs :: 'ep effect list))"
        using d by (rule inline_drain)
      then show ?thesis using that [of hs] ordered \<open>pkt_type p = Data\<close> False t d
        by (auto simp: inlineOnRecv_def rc_onRecv_def inlineOrdered_def receiveOrdered_def Let_def)
    qed
  qed
qed

section \<open>Nested calls are later calls\<close>

lemma inlineRecv_ops:
  fixes fs :: "'ep effect list"
  shows "inlineRecv react n h q = (q', fs) \<Longrightarrow> \<exists>ops. (\<forall>op \<in> set ops. \<exists>n h. op = RcRecv n h)
    \<and> runPartial (rc_step cc codec ordered) ops (c\<lparr>rc_recvQueue := q\<rparr>, st) = Some ((c\<lparr>rc_recvQueue := q'\<rparr>, st), fs)"
proof (induction "length (rq_queued q)" arbitrary: n h q fs rule: less_induct)
  case less
  obtain q1 and es :: "'ep effect list" where q1: "rq_asyncRecv n h q = (q1, es)" by fastforce
  have step: "rc_step cc codec ordered (RcRecv n h) (c\<lparr>rc_recvQueue := q\<rparr>, st) = Some ((c\<lparr>rc_recvQueue := q1\<rparr>, st), es)"
    by (simp add: rc_asyncRecv_def q1)
  show ?case
  proof (cases "rq_queued q = [] \<or> react h = None")
    case True
    then have "q' = q1" "fs = es" using less.prems q1
      by (auto simp: inlineRecv.simps [of react n h q] split: if_splits)
    then show ?thesis using step by (intro exI [of _ "[RcRecv n h]"]) simp
  next
    case False
    then obtain n' h' where r: "react h = Some (n', h')" by auto
    obtain fs' where rest: "inlineRecv react n' h' q1 = (q', fs')" "fs = es @ fs'"
      using less.prems q1 False r by (auto simp: inlineRecv.simps [of react n h q] split: prod.splits)
    have "length (rq_queued q1) < length (rq_queued q)"
      using q1 False by (auto simp: rq_asyncRecv_def asyncRecvQ_def split: list.splits)
    from less.hyps [OF this rest(1)] obtain ops where
      "\<forall>op \<in> set ops. \<exists>n h. op = RcRecv n h"
      "runPartial (rc_step cc codec ordered) ops (c\<lparr>rc_recvQueue := q1\<rparr>, st) = Some ((c\<lparr>rc_recvQueue := q'\<rparr>, st), fs')" by auto
    then show ?thesis using step rest(2) by (intro exI [of _ "RcRecv n h # ops"]) auto
  qed
qed

lemma resume_ops:
  fixes fs :: "'ep effect list"
  assumes "resume react hs (rc_recvQueue c) = (q', fs)"
  shows "\<exists>ops. (\<forall>op \<in> set ops. \<exists>n h. op = RcRecv n h)
    \<and> runPartial (rc_step cc codec ordered) ops (c, st) = Some ((c\<lparr>rc_recvQueue := q'\<rparr>, st), fs)"
proof (cases hs)
  case Nil
  then show ?thesis using assms by (intro exI [of _ "[]"]) simp
next
  case (Cons h hs')
  show ?thesis
  proof (cases "react h")
    case None
    then show ?thesis using assms Cons by (intro exI [of _ "[]"]) simp
  next
    case (Some follow)
    then have "inlineRecv react (fst follow) (snd follow) (rc_recvQueue c) = (q', fs)" using assms Cons by (simp add: case_prod_beta)
    from inlineRecv_ops [OF this, of cc codec ordered c st] show ?thesis by simp
  qed
qed

section \<open>Receivers that loop\<close>

lemma loop_deliver:
  assumes "\<forall>h. react h \<noteq> None" and "rq_inv q \<and> rq_parked q \<noteq> []"
  shows "rq_inv (fst (inlineDeliver react m q :: _ \<times> 'ep effect list))
    \<and> rq_parked (fst (inlineDeliver react m q :: _ \<times> 'ep effect list)) \<noteq> []"
proof -
  obtain r where r: "rq_pending q = Some r" using assms(2) by (auto simp: rq_parked_def split: option.splits)
  have e: "rq_queued q = []" "\<not> rq_closed q" using assms(2) r by (auto simp: rq_inv_def)
  obtain n h where "react (pr_handler r) = Some (n, h)" using assms(1) by (metis option.exhaust surj_pair)
  then have "fst (inlineDeliver react m q :: _ \<times> 'ep effect list) = q\<lparr>rq_pending := Some \<lparr>pr_size = n, pr_handler = h\<rparr>\<rparr>"
    using r e by (simp add: inlineDeliver_def rq_deliver_def deliverOrQueue_def rq_parked_def inlineRecv_parks)
  then show ?thesis using e by (simp add: rq_inv_def rq_parked_def)
qed

lemma loop_onRecv:
  assumes l: "\<forall>h. react h \<noteq> None" and i: "rq_inv (rc_recvQueue c) \<and> rq_parked (rc_recvQueue c) \<noteq> []"
    and r: "inlineOnRecv react cc ordered now p c st = Some (c', st', es :: 'ep effect list)"
  shows "rq_inv (rc_recvQueue c') \<and> rq_parked (rc_recvQueue c') \<noteq> []"
proof -
  have a: "rc_recvQueue (fst (processAck cc now (pkt_ack p) (pkt_ackBits p) c st)) = rc_recvQueue c"
    by (simp add: processAck_def Let_def case_prod_beta)
  have "rq_inv (rc_recvQueue d') \<and> rq_parked (rc_recvQueue d') \<noteq> []"
    if "inlineDrain react d st = (d', st1, fs :: 'ep effect list)" "rc_recvQueue d = rc_recvQueue c" for d d' st1 and fs :: "'ep effect list"
  proof -
    obtain d1 st2 where "inlineDrain react (d\<lparr>rc_recvQueue := rc_recvQueue d\<rparr>) st = (let (q', es) = runOps (inlineDeliver react)
        (readyPayloads (rc_receiveBuffer d) (rc_expectedRecvSeq d)) (rc_recvQueue d) in (d1\<lparr>rc_recvQueue := q'\<rparr>, st2, es :: 'ep effect list))"
      using drains [of d st react] by blast
    then have "rc_recvQueue d' = fst (runOps (inlineDeliver react :: _ \<Rightarrow> _ \<Rightarrow> _ \<times> 'ep effect list)
        (readyPayloads (rc_receiveBuffer d) (rc_expectedRecvSeq d)) (rc_recvQueue d))"
      using that(1) by (auto simp: case_prod_beta)
    then show ?thesis
      using runOps_inv [of "\<lambda>q. rq_inv q \<and> rq_parked q \<noteq> []", OF loop_deliver [OF l]] i that(2) by simp
  qed
  note drain = this
  have u: "rq_inv (fst (inlineDeliver react (pkt_payload p) (rc_recvQueue c) :: _ \<times> 'ep effect list))
      \<and> rq_parked (fst (inlineDeliver react (pkt_payload p) (rc_recvQueue c) :: _ \<times> 'ep effect list)) \<noteq> []"
    by (rule loop_deliver [OF l i])
  consider "c' = fst (processAck cc now (pkt_ack p) (pkt_ackBits p) c st)" | "rc_recvQueue c' = rc_recvQueue c"
    | "rc_recvQueue c' = fst (inlineDeliver react (pkt_payload p) (rc_recvQueue c) :: _ \<times> 'ep effect list)"
    | d where "inlineDrain react d st = (c', st', es)" "rc_recvQueue d = rc_recvQueue c"
    using r by (auto simp: inlineOnRecv_def inlineOrdered_def inlineUnordered_def Let_def bind_eq_Some_conv case_prod_beta
        split: if_splits)
  then show ?thesis using a i u drain by cases simp_all
qed

section \<open>Properties\<close>

text \<open>
  C16: receive handlers that receive again from inside their completion see what they would see if they
  received afterwards. Whatever each handler does when its receive succeeded (nothing, or one more
  receive), the arrival of a packet with all handlers run in place, in the middle of the drain of an
  ordered channel, is undefined exactly when the plain operation is, and otherwise has the same final state,
  the same statistics and the same sequence of completions as the plain operation followed by some
  receives. So every run with nested receives is a run of the channel's operations one after the other,
  and what holds of all those holds of it. Moreover, a receiver that always receives again is never left
  behind: if it waited before the packet it waits after it, and no message is left in the queue.
\<close>

theorem inline_receivers_are_runs:
  assumes "rc_inv c"
  shows "(\<exists>ops :: 'ep rc_op list. (\<forall>op \<in> set ops. \<exists>n h. op = RcRecv n h)
      \<and> map_option (\<lambda>(c', st', es). ((c', st'), es)) (inlineOnRecv react cc ordered now p c st)
        = runPartial (rc_step cc codec ordered) (RcPacket now p # ops) (c, st))
    \<and> (\<forall>c' st' es. (\<forall>h. react h \<noteq> None) \<and> rq_parked (rc_recvQueue c) \<noteq> []
        \<and> inlineOnRecv react cc ordered now p c st = Some (c', st', es :: 'ep effect list) \<longrightarrow>
        rq_queued (rc_recvQueue c') = [] \<and> rq_parked (rc_recvQueue c') \<noteq> [])"
proof (intro conjI allI impI)
  have i: "rq_inv (rc_recvQueue c)" using assms by (simp add: rc_inv_def)
  obtain hs where h: "inlineOnRecv react cc ordered now p c st = map_option (\<lambda>(c', st', es).
      let (q, fs) = resume react hs (rc_recvQueue c') in (c'\<lparr>rc_recvQueue := q\<rparr>, st', es @ fs :: 'ep effect list))
        (rc_onRecv cc ordered now p c st)"
    by (rule inline_onRecv [OF i])
  show "\<exists>ops :: 'ep rc_op list. (\<forall>op \<in> set ops. \<exists>n h. op = RcRecv n h)
      \<and> map_option (\<lambda>(c', st', es). ((c', st'), es)) (inlineOnRecv react cc ordered now p c st)
        = runPartial (rc_step cc codec ordered) (RcPacket now p # ops) (c, st)"
  proof (cases "rc_onRecv cc ordered now p c st :: ('a ReliableChannel \<times> SocketStats \<times> 'ep effect list) option")
    case None
    then show ?thesis using h by (intro exI [of _ "[]"]) simp
  next
    case (Some r)
    obtain c1 st1 es where r: "r = (c1, st1, es)" by (rule prod_cases3)
    obtain q and fs :: "'ep effect list" where q: "resume react hs (rc_recvQueue c1) = (q, fs)" by fastforce
    from resume_ops [OF q, of cc codec ordered st1] obtain ops where "\<forall>op \<in> set ops. \<exists>n h. op = RcRecv n h"
      "runPartial (rc_step cc codec ordered) ops (c1, st1) = Some ((c1\<lparr>rc_recvQueue := q\<rparr>, st1), fs)" by blast
    then show ?thesis using h Some r q by (intro exI [of _ ops]) simp
  qed
  fix c' st' and es :: "'ep effect list"
  assume "(\<forall>h. react h \<noteq> None) \<and> rq_parked (rc_recvQueue c) \<noteq> []
    \<and> inlineOnRecv react cc ordered now p c st = Some (c', st', es)"
  then have "rq_inv (rc_recvQueue c')" "rq_parked (rc_recvQueue c') \<noteq> []" using loop_onRecv i by blast+
  then show "rq_queued (rc_recvQueue c') = []" "rq_parked (rc_recvQueue c') \<noteq> []"
    by (auto simp: rq_inv_def rq_parked_def split: option.splits)
qed

text \<open>
  A receiver that loops waits as handler 7; the second packet is held back; the first packet completes handler
  7 with the first message, and in place handler 8, which handler 7 started, with the second.
\<close>

definition dataPacket :: "u16 \<Rightarrow> bytes \<Rightarrow> Packet" where
  "dataPacket s m = newPacket\<lparr>pkt_type := Data, pkt_seq := s, pkt_payload := m\<rparr>"

definition waitingChannel :: "unit ReliableChannel" where
  "waitingChannel = afterOps [RcRecv 8 7, RcPacket 400 (dataPacket 1 [3, 4])]"

definition looping :: reaction where
  "looping h = Some (8, h + 1)"

theorem inline_receivers_are_runs_witness:
  "rc_inv waitingChannel
   \<and> (\<exists>c' st'. inlineOnRecv looping NullCC True 500 (dataPacket 0 [1, 2]) waitingChannel newSocketStats
        = Some (c', st', [CompleteRecv 7 NoError 2 [1, 2], CompleteRecv 8 NoError 2 [3, 4 :: u8] :: nat effect])
      \<and> rq_queued (rc_recvQueue c') = [] \<and> rq_parked (rc_recvQueue c') \<noteq> [])"
proof -
  have i: "rc_inv waitingChannel" by (simp add: waitingChannel_def afterOps_inv)
  have p: "rq_parked (rc_recvQueue waitingChannel) = [7]" by code_simp
  have "map_option (\<lambda>(c, st, es). es) (inlineOnRecv looping NullCC True 500 (dataPacket 0 [1, 2]) waitingChannel newSocketStats)
      = Some [CompleteRecv 7 NoError 2 [1, 2], CompleteRecv 8 NoError 2 [3, 4] :: nat effect]" by code_simp
  then obtain c' st' where r: "inlineOnRecv looping NullCC True 500 (dataPacket 0 [1, 2]) waitingChannel newSocketStats
      = Some (c', st', [CompleteRecv 7 NoError 2 [1, 2], CompleteRecv 8 NoError 2 [3, 4] :: nat effect])" by auto
  have "(\<forall>h. looping h \<noteq> None) \<and> rq_parked (rc_recvQueue waitingChannel) \<noteq> []
      \<and> inlineOnRecv looping NullCC True 500 (dataPacket 0 [1, 2]) waitingChannel newSocketStats
        = Some (c', st', [CompleteRecv 7 NoError 2 [1, 2], CompleteRecv 8 NoError 2 [3, 4] :: nat effect])"
    using p r by (simp add: looping_def)
  from inline_receivers_are_runs [OF i, THEN conjunct2, THEN spec, THEN spec, THEN spec, THEN mp, OF this]
  have "rq_queued (rc_recvQueue c') = [] \<and> rq_parked (rc_recvQueue c') \<noteq> []" .
  then show ?thesis using i r by blast
qed

end
