(* ===== verification/Rude_UnreliableChannel.thy ===== *)
theory Rude_UnreliableChannel
  imports Rude_ReliableRecv
begin

text \<open>
  \<^verbatim>\<open>detail/channel/UnreliableChannel.hpp\<close>: the fire-and-forget channel with sequenced delivery,
  and the theorem that what it delivers is exactly the sequence of new maxima among the arrivals.
\<close>

section \<open>The channel\<close>

record UnreliableChannel =
  uc_id :: u8
  uc_nextSeq :: u16
  uc_lastSeq :: u16
  uc_hasDelivered :: bool
  uc_recvQueue :: RecvQueue

definition newUnreliableChannel :: "UnreliableChannelConfig \<Rightarrow> UnreliableChannel" where
  "newUnreliableChannel cfg = \<lparr>uc_id = opt_id cfg, uc_nextSeq = 0, uc_lastSeq = 0,
     uc_hasDelivered = False, uc_recvQueue = newRecvQueue\<rparr>"

definition uc_asyncSend ::
  "PacketCodec \<Rightarrow> bytes \<Rightarrow> 'ep \<Rightarrow> handler \<Rightarrow> UnreliableChannel \<Rightarrow> SocketStats
    \<Rightarrow> UnreliableChannel \<times> SocketStats \<times> 'ep effect list" where
  "uc_asyncSend codec payload ep h c st =
     (let packet = newPacket\<lparr>pkt_type := Data, pkt_seq := uc_nextSeq c, pkt_channel := uc_id c,
                             pkt_payload := payload\<rparr>;
          c = c\<lparr>uc_nextSeq := uc_nextSeq c + 1\<rparr>;
          (encodedSize, encodedPacket) =
            cdc_encode codec packet (replicate (length payload + cdc_maxOverhead codec) 0)
      in if encodedSize = 0 then (c, st, [CompleteSend h (makeErrorCode BadPacket)])
         else (c, countSent encodedSize st,
               [SendTo (resizeBytes encodedSize encodedPacket) ep (SendUser h)]))"

definition uc_asyncRecv :: "nat \<Rightarrow> handler \<Rightarrow> UnreliableChannel \<Rightarrow> UnreliableChannel \<times> 'ep effect list" where
  "uc_asyncRecv buf h c =
     (let (q, es) = rq_asyncRecv buf h (uc_recvQueue c) in (c\<lparr>uc_recvQueue := q\<rparr>, es))"

definition uc_onTick ::
  "time_ns \<Rightarrow> 'ep \<Rightarrow> UnreliableChannel \<Rightarrow> SocketStats \<Rightarrow> UnreliableChannel \<times> SocketStats \<times> 'ep effect list" where
  "uc_onTick now ep c st = (c, st, [])"

definition uc_close :: "error_code \<Rightarrow> UnreliableChannel \<Rightarrow> UnreliableChannel \<times> 'ep effect list" where
  "uc_close reason c =
     (let (q, es) = rq_close reason (uc_recvQueue c) in (c\<lparr>uc_recvQueue := q\<rparr>, es))"

definition uc_onRecv ::
  "Packet \<Rightarrow> UnreliableChannel \<Rightarrow> SocketStats \<Rightarrow> UnreliableChannel \<times> SocketStats \<times> 'ep effect list" where
  "uc_onRecv packet c st =
     (if pkt_type packet \<noteq> Data then (c, st, [])
      else if uc_hasDelivered c \<and> isStaleOrDuplicate (pkt_seq packet) (uc_lastSeq c) then (c, st, [])
      else
        let c = c\<lparr>uc_hasDelivered := True, uc_lastSeq := pkt_seq packet\<rparr>;
            st = countRecv (length (pkt_payload packet)) st;
            (q, es) = rq_deliver (pkt_payload packet) (uc_recvQueue c)
        in (c\<lparr>uc_recvQueue := q\<rparr>, st, es))"

definition uc_flush :: "'ep \<Rightarrow> UnreliableChannel \<Rightarrow> 'ep effect list" where
  "uc_flush ep c = []"

definition uc_buildAck :: "UnreliableChannel \<Rightarrow> Packet option" where
  "uc_buildAck c = None"

section \<open>Runs\<close>

datatype 'ep uc_op =
    UcArrives nat
  | UcSend bytes 'ep handler
  | UcRecv nat handler
  | UcClose error_code

fun uc_step ::
  "PacketCodec \<Rightarrow> (nat \<Rightarrow> Packet) \<Rightarrow> 'ep uc_op \<Rightarrow> UnreliableChannel \<times> SocketStats
    \<Rightarrow> (UnreliableChannel \<times> SocketStats) \<times> 'ep effect list" where
  "uc_step codec pk (UcArrives i) (c, st) =
     (let (c, st, es) = uc_onRecv (streamPacket pk i) c st in ((c, st), es))"
| "uc_step codec pk (UcSend payload ep h) (c, st) =
     (let (c, st, es) = uc_asyncSend codec payload ep h c st in ((c, st), es))"
| "uc_step codec pk (UcRecv buf h) (c, st) = (let (c, es) = uc_asyncRecv buf h c in ((c, st), es))"
| "uc_step codec pk (UcClose ec) (c, st) =
     (let (c, es) = uc_close (if failed ec then ec else makeErrorCode ChannelClosed) c
      in ((c, st), es))"

fun ucArrivals :: "'ep uc_op list \<Rightarrow> nat list" where
  "ucArrivals [] = []"
| "ucArrivals (UcArrives i # ops) = i # ucArrivals ops"
| "ucArrivals (_ # ops) = ucArrivals ops"

text \<open>
  The specification: of a list of indices, those larger than everything before them; and the
  condition that no index is half the number space or more away from the largest before it.
\<close>

fun maxima :: "nat option \<Rightarrow> nat list \<Rightarrow> nat list" where
  "maxima Lo [] = []"
| "maxima None (i # is) = i # maxima (Some i) is"
| "maxima (Some L) (i # is) = (if L < i then i # maxima (Some i) is else maxima (Some L) is)"

fun closeBy :: "nat option \<Rightarrow> nat list \<Rightarrow> bool" where
  "closeBy Lo [] = True"
| "closeBy None (i # is) = closeBy (Some i) is"
| "closeBy (Some L) (i # is) \<longleftrightarrow> i < L + 32768 \<and> L < i + 32768 \<and> closeBy (Some (max L i)) is"

definition uc_rel :: "UnreliableChannel \<Rightarrow> nat option \<Rightarrow> bool" where
  "uc_rel c Lo \<longleftrightarrow> rq_inv (uc_recvQueue c)
     \<and> (case Lo of None \<Rightarrow> \<not> uc_hasDelivered c | Some L \<Rightarrow> uc_hasDelivered c \<and> uc_lastSeq c = of_nat L)"

lemma uc_onRecv_step:
  fixes es :: "'ep effect list"
  assumes u: "uc_rel c Lo" and cl: "closeBy Lo (i # is)"
    and r: "uc_onRecv (streamPacket pk i) c st = (c', st', es)"
  shows "\<exists>Lo' js. uc_rel c' Lo' \<and> closeBy Lo' is \<and> maxima Lo (i # is) = js @ maxima Lo' is
    \<and> passes es (uc_recvQueue c) (map (\<lambda>i. pkt_payload (pk i)) js) (uc_recvQueue c')"
proof -
  obtain q fs where q: "rq_deliver (pkt_payload (pk i)) (uc_recvQueue c) = (q, fs :: 'ep effect list)"
    by fastforce
  have i: "rq_inv (uc_recvQueue c)" using u by (simp add: uc_rel_def)
  note d = deliver_passes [OF i q] rq.deliver_inv [OF i q]
  have p: "pkt_type (streamPacket pk i) = Data" "pkt_seq (streamPacket pk i) = of_nat i"
    "pkt_payload (streamPacket pk i) = pkt_payload (pk i)"
    by (simp_all add: streamPacket_def)
  show ?thesis
  proof (cases Lo)
    case None
    then show ?thesis
      using u cl r d q by (intro exI [of _ "Some i"] exI [of _ "[i]"]) (auto simp: uc_onRecv_def uc_rel_def p Let_def)
  next
    case (Some L)
    have n: "isNewerSequence (of_nat i) (of_nat L) \<longleftrightarrow> L < i"
      using cl Some by (intro isNewerSequence_index) simp_all
    show ?thesis
    proof (cases "L < i")
      case True
      then show ?thesis
        using u cl r d q n Some
        by (intro exI [of _ "Some i"] exI [of _ "[i]"])
          (auto simp: uc_onRecv_def uc_rel_def p Let_def isStaleOrDuplicate_def max_def)
    next
      case False
      then show ?thesis
        using u cl r n Some
        by (intro exI [of _ "Some L"] exI [of _ "[]"])
          (auto simp: uc_onRecv_def uc_rel_def p isStaleOrDuplicate_def max_def)
    qed
  qed
qed

lemma uc_step_rel:
  assumes u: "uc_rel c Lo" and cl: "closeBy Lo (ucArrivals (op # ops))"
    and s: "uc_step codec pk op (c, st) = ((c', st'), es)"
  shows "\<exists>Lo' js. uc_rel c' Lo' \<and> closeBy Lo' (ucArrivals ops)
    \<and> maxima Lo (ucArrivals (op # ops)) = js @ maxima Lo' (ucArrivals ops)
    \<and> passes es (uc_recvQueue c) (map (\<lambda>i. pkt_payload (pk i)) js) (uc_recvQueue c')"
proof (cases op)
  case (UcArrives i)
  then show ?thesis
    using uc_onRecv_step [OF u, of i "ucArrivals ops" pk st c' st' es] cl s by (auto split: prod.splits)
next
  case (UcSend payload ep h)
  then show ?thesis
    using u cl s
    by (intro exI [of _ Lo] exI [of _ "[]"])
      (auto simp: uc_asyncSend_def uc_rel_def Let_def split: prod.splits if_splits option.splits)
next
  case (UcRecv buf h)
  have i: "rq_inv (uc_recvQueue c)" using u by (simp add: uc_rel_def)
  from UcRecv show ?thesis
    using u cl s recv_passes [OF i] rq.recv_inv [OF i]
    by (intro exI [of _ Lo] exI [of _ "[]"])
      (auto simp: uc_asyncRecv_def uc_rel_def Let_def split: prod.splits option.splits)
next
  case (UcClose ec)
  have i: "rq_inv (uc_recvQueue c)" and f: "failed (if failed ec then ec else makeErrorCode ChannelClosed)"
    using u by (simp_all add: uc_rel_def)
  from UcClose show ?thesis
    using u cl s close_passes [OF i f] rq.close_inv [OF i f]
    by (intro exI [of _ Lo] exI [of _ "[]"])
      (auto simp: uc_close_def uc_rel_def Let_def split: prod.splits option.splits)
qed

lemma uc_run_rel:
  "uc_rel c Lo \<Longrightarrow> closeBy Lo (ucArrivals ops) \<Longrightarrow> runOps (uc_step codec pk) ops (c, st) = ((c', st'), es) \<Longrightarrow>
    passes es (uc_recvQueue c) (map (\<lambda>i. pkt_payload (pk i)) (maxima Lo (ucArrivals ops))) (uc_recvQueue c')"
proof (induction ops arbitrary: c st Lo es)
  case (Cons op ops)
  obtain c1 st1 es1 where s: "uc_step codec pk op (c, st) = ((c1, st1), es1)" by (metis surj_pair)
  obtain es2 where r: "runOps (uc_step codec pk) ops (c1, st1) = ((c', st'), es2)" "es = es1 @ es2"
    using Cons.prems(3) s by (auto split: prod.splits)
  from uc_step_rel [OF Cons.prems(1,2) s] obtain Lo' js where
    u: "uc_rel c1 Lo'" "closeBy Lo' (ucArrivals ops)" and
    m: "maxima Lo (ucArrivals (op # ops)) = js @ maxima Lo' (ucArrivals ops)" and
    p: "passes es1 (uc_recvQueue c) (map (\<lambda>i. pkt_payload (pk i)) js) (uc_recvQueue c1)" by blast
  show ?case
    using passes_append [OF p Cons.IH [OF u r(1)]] unfolding m r(2) by simp
qed simp

section \<open>Properties\<close>

text \<open>
  C18: the unreliable channel delivers exactly the new maxima. With arrivals less than half the
  number space away from the newest so far, in any order, with losses, repetitions and other calls
  in between, the messages handed to receivers followed by those still queued are those of the
  arrivals that were newer than every arrival before them: strictly newer each time, never a
  duplicate, and nothing newer is ever held back.
\<close>

theorem unreliable_channel_delivers_maxima:
  assumes "closeBy None (ucArrivals ops)"
    and "runOps (uc_step codec pk) ops (newUnreliableChannel cfg, st) = ((c, st'), es)"
  shows "(\<exists>ms. handedOut es ms \<and> ms @ rq_queued (uc_recvQueue c)
      = map (\<lambda>i. pkt_payload (pk i)) (maxima None (ucArrivals ops)))
    \<and> sorted_wrt (<) (maxima None (ucArrivals ops))"
proof -
  have u: "uc_rel (newUnreliableChannel cfg) None" "rq_queued (uc_recvQueue (newUnreliableChannel cfg)) = []"
    by (simp_all add: uc_rel_def newUnreliableChannel_def) (simp add: newRecvQueue_def)
  have "sorted_wrt (<) (maxima Lo is) \<and> (\<forall>L. Lo = Some L \<longrightarrow> (\<forall>j\<in>set (maxima Lo is). L < j))" for Lo "is"
    by (induction Lo "is" rule: maxima.induct) (auto intro: less_trans)
  with uc_run_rel [OF u(1) assms] u(2) show ?thesis
    by (auto simp: passes_def)
qed

definition ucSample :: "nat uc_op list" where
  "ucSample = [UcArrives 1, UcArrives 0, UcRecv 8 50, UcArrives 4, UcSend [7] 9 60, UcArrives 4, UcArrives 2]"

theorem unreliable_channel_delivers_maxima_witness:
  "\<exists>c st es ms. runOps (uc_step DefaultCodec echoPacket) ucSample
      (newUnreliableChannel (unreliableOptions (unreliableSequenced 2)), newSocketStats) = ((c, st), es)
    \<and> handedOut es ms \<and> ms @ rq_queued (uc_recvQueue c) = [[1], [4]]"
proof -
  have a: "ucArrivals ucSample = [1, 0, 4, 4, 2]" by (simp add: ucSample_def)
  have c: "closeBy None (ucArrivals ucSample)" by (simp add: a)
  have m: "map (\<lambda>i. pkt_payload (echoPacket i)) (maxima None (ucArrivals ucSample)) = [[1], [4]]"
    by (simp add: a echoPacket_def)
  obtain c st es where "runOps (uc_step DefaultCodec echoPacket) ucSample
      (newUnreliableChannel (unreliableOptions (unreliableSequenced 2)), newSocketStats) = ((c, st), es)"
    by (metis surj_pair)
  from this unreliable_channel_delivers_maxima [OF c this] m show ?thesis by auto
qed

end
