(* ===== verification/Rude_Channels.thy ===== *)
theory Rude_Channels
  imports Rude_UnreliableChannel
begin

text \<open>
  \<^verbatim>\<open>detail/channel/ChannelVariant.hpp\<close> and the contract between a session and its channels:
  which handlers a call completes, parks or sends along with a datagram, where datagrams go, and what
  closing does. The contract is a locale; the reliable channels, the unreliable channel and the
  variant of both provide it.
\<close>

section \<open>Ledgers\<close>

text \<open>
  What a list of effects does to handlers: the send handlers it completes, the send handlers that
  travel with its datagrams, the receive handlers it completes. A channel only sends to the given
  endpoint and only completes handlers; the lifecycle effects are the session's.
\<close>

fun completedSends :: "'ep effect list \<Rightarrow> handler list" where
  "completedSends [] = []"
| "completedSends (CompleteSend h ec # es) = h # completedSends es"
| "completedSends (_ # es) = completedSends es"

fun carried :: "send_cont \<Rightarrow> handler list" where
  "carried SendDiscard = []"
| "carried (SendUser h) = [h]"
| "carried (SendReliable i s h) = [h]"
| "carried SendFlush = []"
| "carried (SendDisconnect h) = [h]"

fun carriedSends :: "'ep effect list \<Rightarrow> handler list" where
  "carriedSends [] = []"
| "carriedSends (SendTo bs ep k # es) = carried k @ carriedSends es"
| "carriedSends (_ # es) = carriedSends es"

fun channelEffect :: "'ep \<Rightarrow> 'ep effect \<Rightarrow> bool" where
  "channelEffect ep (SendTo bs ep' k) \<longleftrightarrow> ep' = ep \<and> (\<forall>h. k \<noteq> SendDisconnect h)"
| "channelEffect ep (CompleteSend h ec) = True"
| "channelEffect ep (CompleteRecv h ec n bs) = True"
| "channelEffect ep _ = False"

definition quiet :: "'ep effect list \<Rightarrow> bool" where
  "quiet es \<longleftrightarrow> datagrams es = []"

lemma ledger_append [simp]:
  "completedSends (es @ fs) = completedSends es @ completedSends fs"
  "carriedSends (es @ fs) = carriedSends es @ carriedSends fs"
  "quiet (es @ fs) \<longleftrightarrow> quiet es \<and> quiet fs"
proof -
  show "completedSends (es @ fs) = completedSends es @ completedSends fs"
    by (induction es rule: completedSends.induct) simp_all
  show "carriedSends (es @ fs) = carriedSends es @ carriedSends fs"
    by (induction es rule: carriedSends.induct) simp_all
qed (simp add: quiet_def)

lemma quiet_Nil [simp]: "quiet []"
  by (simp add: quiet_def)

lemma quiet_carried: "quiet es \<Longrightarrow> carriedSends es = []"
  unfolding quiet_def by (induction es rule: carriedSends.induct) simp_all

text \<open>
  \<open>ledger ep es S K R\<close>: channel effects towards \<open>ep\<close> only, completing the send handlers \<open>S\<close>,
  carrying the send handlers \<open>K\<close>, completing the receive handlers \<open>R\<close>.
\<close>

definition ledger ::
  "'ep \<Rightarrow> 'ep effect list \<Rightarrow> handler multiset \<Rightarrow> handler multiset \<Rightarrow> handler multiset \<Rightarrow> bool" where
  "ledger ep es S K R \<longleftrightarrow> (\<forall>e\<in>set es. channelEffect ep e) \<and> mset (completedSends es) = S
     \<and> mset (carriedSends es) = K \<and> mset (completedRecvs es) = R"

lemma ledger_Nil [simp]: "ledger ep [] S K R \<longleftrightarrow> S = {#} \<and> K = {#} \<and> R = {#}"
  by (auto simp: ledger_def)

lemma ledger_appendI:
  "ledger ep es S K R \<Longrightarrow> ledger ep fs S' K' R' \<Longrightarrow> ledger ep (es @ fs) (S + S') (K + K') (R + R')"
  by (auto simp: ledger_def)

section \<open>Loops over the channels\<close>

text \<open>
  The loop of a session over its open channels, in the order of their ids, threading the statistics
  and collecting the effects.
\<close>

fun visitOpen ::
  "('c \<Rightarrow> SocketStats \<Rightarrow> 'c \<times> SocketStats \<times> 'ep effect list) \<Rightarrow> bool list \<Rightarrow> 'c list \<Rightarrow> SocketStats
    \<Rightarrow> 'c list \<times> SocketStats \<times> 'ep effect list" where
  "visitOpen f (opn # opns) (c # cs) st =
     (let (c', st', es) = (if opn then f c st else (c, st, []));
          (cs', st'', fs) = visitOpen f opns cs st'
      in (c' # cs', st'', es @ fs))"
| "visitOpen f _ cs st = (cs, st, [])"

lemma visitOpen_length [simp]: "visitOpen f opns cs st = (cs', st', es) \<Longrightarrow> length cs' = length cs"
  by (induction f opns cs st arbitrary: cs' st' es rule: visitOpen.induct)
    (auto simp: Let_def split: prod.splits)

section \<open>The contract\<close>

locale session_channel =
  fixes send :: "time_ns \<Rightarrow> bytes \<Rightarrow> 'ep \<Rightarrow> handler \<Rightarrow> 'c \<Rightarrow> SocketStats \<Rightarrow> 'c \<times> SocketStats \<times> 'ep effect list"
    and recv :: "nat \<Rightarrow> handler \<Rightarrow> 'c \<Rightarrow> 'c \<times> 'ep effect list"
    and tick :: "time_ns \<Rightarrow> 'ep \<Rightarrow> 'c \<Rightarrow> SocketStats \<Rightarrow> 'c \<times> SocketStats \<times> 'ep effect list"
    and shut :: "error_code \<Rightarrow> 'c \<Rightarrow> 'c \<times> 'ep effect list"
    and packet :: "time_ns \<Rightarrow> Packet \<Rightarrow> 'c \<Rightarrow> SocketStats \<Rightarrow> ('c \<times> SocketStats \<times> 'ep effect list) option"
    and sent :: "u16 \<Rightarrow> handler \<Rightarrow> error_code \<Rightarrow> 'c \<Rightarrow> SocketStats \<Rightarrow> 'c \<times> SocketStats \<times> 'ep effect list"
    and flush :: "'ep \<Rightarrow> 'c \<Rightarrow> 'ep effect list"
    and inv :: "'c \<Rightarrow> bool" and parked :: "'c \<Rightarrow> handler list" and isClosed :: "'c \<Rightarrow> bool"
  assumes send_law: "inv c \<Longrightarrow> send now m ep h c st = (c', st', es) \<Longrightarrow>
      inv c' \<and> isClosed c' = isClosed c \<and> parked c' = parked c
      \<and> (\<exists>S K. ledger ep es S K {#} \<and> S + K = {#h#})"
    and recv_law: "inv c \<Longrightarrow> recv n h c = (c', es) \<Longrightarrow>
      inv c' \<and> isClosed c' = isClosed c \<and> quiet es
      \<and> (\<exists>R. ledger ep es {#} {#} R \<and> R + mset (parked c') = add_mset h (mset (parked c)))"
    and tick_law: "inv c \<Longrightarrow> tick now ep c st = (c', st', es) \<Longrightarrow>
      inv c' \<and> isClosed c' = isClosed c \<and> parked c' = parked c \<and> ledger ep es {#} {#} {#}"
    and shut_law: "inv c \<Longrightarrow> failed ec \<Longrightarrow> shut ec c = (c', es) \<Longrightarrow>
      inv c' \<and> isClosed c' \<and> quiet es \<and> ledger ep es {#} {#} (mset (parked c))"
    and packet_law: "inv c \<Longrightarrow> packet now p c st = Some (c', st', es) \<Longrightarrow>
      inv c' \<and> isClosed c' = isClosed c \<and> quiet es
      \<and> (\<exists>R. ledger ep es {#} {#} R \<and> R + mset (parked c') = mset (parked c))"
    and sent_law: "inv c \<Longrightarrow> sent s h ec c st = (c', st', es) \<Longrightarrow>
      inv c' \<and> isClosed c' = isClosed c \<and> parked c' = parked c \<and> quiet es \<and> ledger ep es {#h#} {#} {#}"
    and flush_law: "inv c \<Longrightarrow> ledger ep (flush ep c) {#} {#} {#}"
    and closed_parked: "inv c \<Longrightarrow> isClosed c \<Longrightarrow> parked c = []"
begin

text \<open>
  Facts over all channels of a session, with their open flags, and what the three loops do to them.
\<close>

fun parkedAll :: "bool list \<Rightarrow> 'c list \<Rightarrow> handler multiset" where
  "parkedAll (opn # opns) (c # cs) = (if opn then mset (parked c) else {#}) + parkedAll opns cs"
| "parkedAll _ _ = {#}"

fun closedAll :: "bool list \<Rightarrow> 'c list \<Rightarrow> bool" where
  "closedAll (opn # opns) (c # cs) \<longleftrightarrow> (opn \<longrightarrow> isClosed c) \<and> closedAll opns cs"
| "closedAll _ _ \<longleftrightarrow> True"

lemma tickAll:
  "\<forall>c\<in>set cs. inv c \<Longrightarrow> visitOpen (\<lambda>c st. tick now ep c st) opns cs st = (cs', st', es) \<Longrightarrow>
    (\<forall>c\<in>set cs'. inv c) \<and> parkedAll opns cs' = parkedAll opns cs \<and> closedAll opns cs' = closedAll opns cs
    \<and> ledger ep es {#} {#} {#}"
proof (induction opns cs arbitrary: st cs' es rule: parkedAll.induct)
  case (1 opn opns c cs)
  obtain c1 st1 es1 where t: "(if opn then tick now ep c st else (c, st, [])) = (c1, st1, es1)"
    using prod_cases3 by blast
  obtain cs2 es2 where r: "visitOpen (\<lambda>c st. tick now ep c st) opns cs st1 = (cs2, st', es2)"
    "cs' = c1 # cs2" "es = es1 @ es2"
    using 1(3) t by (auto simp: Let_def split: prod.splits if_splits)
  have h: "inv c1" "isClosed c1 = isClosed c" "parked c1 = parked c" "ledger ep es1 {#} {#} {#}"
    using t tick_law [of c now ep st c1 st1 es1] 1(2) by (auto split: if_splits)
  have ih: "\<forall>c\<in>set cs2. inv c" "parkedAll opns cs2 = parkedAll opns cs"
    "closedAll opns cs2 = closedAll opns cs" "ledger ep es2 {#} {#} {#}"
    using 1(1) [OF _ r(1)] 1(2) by auto
  from ledger_appendI [OF h(4) ih(4)] h(1-3) ih(1-3) show ?case by (simp add: r(2,3))
qed auto

lemma shutAll:
  assumes "failed ec"
  shows "\<forall>c\<in>set cs. inv c \<Longrightarrow> length opns = length cs \<Longrightarrow>
    visitOpen (\<lambda>c st. let (c', es) = shut ec c in (c', st, es)) opns cs st = (cs', st', es) \<Longrightarrow>
    (\<forall>c\<in>set cs'. inv c) \<and> closedAll opns cs' \<and> quiet es \<and> ledger ep es {#} {#} (parkedAll opns cs)"
proof (induction opns cs arbitrary: st cs' es rule: parkedAll.induct)
  case (1 opn opns c cs)
  let ?f = "\<lambda>c st. let (c', es) = shut ec c in (c', st, es)"
  obtain c1 st1 es1 where t: "(if opn then ?f c st else (c, st, [])) = (c1, st1, es1)"
    using prod_cases3 by blast
  obtain cs2 es2 where r: "visitOpen ?f opns cs st1 = (cs2, st', es2)" "cs' = c1 # cs2" "es = es1 @ es2"
    using 1(4) t by (auto simp: Let_def split: prod.splits if_splits)
  have h: "inv c1" "opn \<longrightarrow> isClosed c1" "quiet es1"
    "ledger ep es1 {#} {#} (if opn then mset (parked c) else {#})"
    using t shut_law [OF _ assms, of c c1 es1 ep] 1(2) by (auto split: if_splits prod.splits)
  have ih: "\<forall>c\<in>set cs2. inv c" "closedAll opns cs2" "quiet es2" "ledger ep es2 {#} {#} (parkedAll opns cs)"
    using 1(1) [OF _ _ r(1)] 1(2,3) by auto
  from ledger_appendI [OF h(4) ih(4)] h(1-3) ih(1-3) show ?case by (simp add: r(2,3))
qed auto

lemma flushAll:
  "\<forall>c\<in>set cs. inv c \<Longrightarrow> visitOpen (\<lambda>c st. (c, st, flush ep c)) opns cs st = (cs', st', es) \<Longrightarrow>
    cs' = cs \<and> st' = st \<and> ledger ep es {#} {#} {#}"
proof (induction opns cs arbitrary: st st' cs' es rule: parkedAll.induct)
  case (1 opn opns c cs)
  obtain cs2 st2 es2 where r: "visitOpen (\<lambda>c st. (c, st, flush ep c)) opns cs st = (cs2, st2, es2)"
    using prod_cases3 by blast
  have e: "cs' = c # cs2" "st' = st2" "es = (if opn then flush ep c else []) @ es2"
    using 1(3) r by (auto simp: Let_def split: if_splits)
  have h: "ledger ep (if opn then flush ep c else []) {#} {#} {#}" using flush_law 1(2) by simp
  have ih: "cs2 = cs" "st2 = st" "ledger ep es2 {#} {#} {#}" using 1(1) [OF _ r] 1(2) by simp_all
  from ledger_appendI [OF h ih(3)] ih(1,2) show ?case by (simp add: e)
qed auto

text \<open>Replacing one open channel, whose parked receives changed.\<close>

lemma parkedAll_update:
  "ch < length cs \<Longrightarrow> length opns = length cs \<Longrightarrow> opns ! ch \<Longrightarrow>
    parkedAll opns (cs[ch := c']) + mset (parked (cs ! ch)) = parkedAll opns cs + mset (parked c')"
proof (induction opns cs arbitrary: ch rule: parkedAll.induct)
  case (1 opn opns c cs)
  then show ?case by (cases ch) (auto simp: ac_simps)
qed auto

lemma closedAll_update:
  "ch < length cs \<Longrightarrow> length opns = length cs \<Longrightarrow> closedAll opns cs \<Longrightarrow>
    (isClosed (cs ! ch) \<longrightarrow> isClosed c') \<Longrightarrow> opns ! ch \<Longrightarrow> closedAll opns (cs[ch := c'])"
proof (induction opns cs arbitrary: ch rule: parkedAll.induct)
  case (1 opn opns c cs)
  then show ?case by (cases ch) auto
qed auto

lemma closedAll_nth:
  "closedAll opns cs \<Longrightarrow> ch < length cs \<Longrightarrow> length opns = length cs \<Longrightarrow> opns ! ch \<Longrightarrow> isClosed (cs ! ch)"
proof (induction opns cs arbitrary: ch rule: parkedAll.induct)
  case (1 opn opns c cs)
  then show ?case by (cases ch) auto
qed auto

lemma closedAll_parked:
  "closedAll opns cs \<Longrightarrow> \<forall>c\<in>set cs. inv c \<Longrightarrow> parkedAll opns cs = {#}"
  by (induction opns cs rule: parkedAll.induct) (auto simp: closed_parked)

end

section \<open>The reliable channels keep the contract\<close>

lemma rq_ledger:
  assumes i: "rq_inv q"
  shows "rq_deliver m q = (q', es) \<Longrightarrow> rq_closed q' = rq_closed q \<and> quiet es
      \<and> (\<exists>R. ledger ep es {#} {#} R \<and> R + mset (rq_parked q') = mset (rq_parked q))"
    and "rq_asyncRecv n h q = (q', es) \<Longrightarrow> rq_closed q' = rq_closed q \<and> quiet es
      \<and> (\<exists>R. ledger ep es {#} {#} R \<and> R + mset (rq_parked q') = add_mset h (mset (rq_parked q)))"
    and "rq_close ec q = (q', es) \<Longrightarrow> rq_closed q' \<and> rq_parked q' = [] \<and> quiet es
      \<and> ledger ep es {#} {#} (mset (rq_parked q))"
  using i
  by (auto simp: rq_inv_def rq_parked_def rq_defs ledger_def quiet_def
      split: option.splits list.splits if_splits)

lemma rq_closed_parked: "rq_inv q \<Longrightarrow> rq_closed q \<Longrightarrow> rq_parked q = []"
  by (auto simp: rq_inv_def rq_parked_def split: option.splits)

definition rc_parked :: "'cc ReliableChannel \<Rightarrow> handler list" where
  "rc_parked c = rq_parked (rc_recvQueue c)"

definition rc_closed :: "'cc ReliableChannel \<Rightarrow> bool" where
  "rc_closed c = rq_closed (rc_recvQueue c)"

lemma drain_ledger:
  assumes "drainReadyPackets c st = (c', st', es)"
  shows "rc_inv c \<Longrightarrow> rc_closed c' = rc_closed c \<and> quiet es
    \<and> (\<exists>R. ledger ep es {#} {#} R \<and> R + mset (rc_parked c') = mset (rc_parked c))"
  using assms
proof (induction rule: drain_induct)
  case (ready c st b q es c' st' fs)
  have i: "rq_inv (rc_recvQueue c)" using ready.prems by (simp add: rc_inv_def)
  obtain R where r: "ledger ep es {#} {#} R" "R + mset (rq_parked q) = mset (rc_parked c)"
    "quiet es" "rq_closed q = rc_closed c"
    using rq_ledger(1) [OF i ready.hyps(2)] by (auto simp: rc_parked_def rc_closed_def)
  obtain R' where r': "ledger ep fs {#} {#} R'" "R' + mset (rc_parked c') = mset (rq_parked q)"
    "quiet fs" "rc_closed c' = rq_closed q"
    using ready.IH rc_inv_advanced [OF ready.prems ready.hyps(1,2)]
    by (auto simp: rc_parked_def rc_closed_def advanced_def)
  have "R + R' + mset (rc_parked c') = mset (rc_parked c)"
    using r(2) r'(2) by (metis add.assoc)
  then show ?case using ledger_appendI [OF r(1) r'(1)] r r' by auto
qed auto

lemma receive_ledger:
  fixes es :: "'ep effect list"
  assumes i: "rc_inv c" and r: "rc_onRecv cc ordered now pkt c st = Some (c', st', es)"
  shows "rc_closed c' = rc_closed c \<and> quiet es
    \<and> (\<exists>R. ledger ep es {#} {#} R \<and> R + mset (rc_parked c') = mset (rc_parked c))"
proof -
  have q: "rq_inv (rc_recvQueue c)" using i by (simp add: rc_inv_def)
  obtain q' fs where d: "rq_deliver (pkt_payload pkt) (rc_recvQueue c) = (q', fs :: 'ep effect list)"
    by fastforce
  have u: "receiveUnordered pkt c st = Some (c', st', es) \<Longrightarrow> ?thesis"
    using rq_ledger(1) [OF q d]
    by (auto simp: receiveUnordered_def bind_eq_Some_conv Let_def d rc_parked_def rc_closed_def
        split: if_splits)
  have o: ?thesis if s: "receiveOrdered pkt c st = Some (c', st', es)"
  proof (cases "isInOrderedReceiveWindow (pkt_seq pkt) c")
    case False
    with s show ?thesis by (auto simp: receiveOrdered_def)
  next
    case True
    let ?j = "slotIndex (pkt_seq pkt) (length (rc_receiveBuffer c))"
    let ?b = "\<lparr>bp_sequenceNumber = pkt_seq pkt, bp_payload = pkt_payload pkt\<rparr>"
    have "buffered_ok (rc_expectedRecvSeq c) ((rc_receiveBuffer c)[?j := Some ?b])"
      using i True inWindow_unat [OF i] buffered_ok_insert [of _ "rc_receiveBuffer c" ?b]
      by (simp add: rc_inv_def)
    then have "rc_inv (c\<lparr>rc_recvAckTracker := t, rc_receiveBuffer := (rc_receiveBuffer c)[?j := Some ?b]\<rparr>)" for t
      using i by (simp add: rc_inv_def)
    from drain_ledger [OF _ this, where ep = ep] s True show ?thesis
      by (fastforce simp: receiveOrdered_def bind_eq_Some_conv Let_def rc_parked_def rc_closed_def
          split: if_splits)
  qed
  show ?thesis
    using r o u processAck_channel [of cc now "pkt_ack pkt" "pkt_ackBits pkt" c st]
    by (auto simp: rc_onRecv_def rc_parked_def rc_closed_def split: if_splits prod.splits)
qed

lemma send_ledger:
  assumes "rc_asyncSend cc codec now m ep h c st = (c', st', es)"
  shows "rc_closed c' = rc_closed c \<and> rc_parked c' = rc_parked c
    \<and> (\<exists>S K. ledger ep es S K {#} \<and> S + K = {#h#})"
proof -
  obtain w k where w: "effectiveSendWindow cc now c = (w, c\<lparr>rc_cc := k\<rparr>)"
    using effectiveSendWindow_channel by (metis surj_pair)
  show ?thesis
    using assms unfolding rc_asyncSend_def w
    by (auto simp: Let_def storeSentPacket_def rc_closed_def rc_parked_def ledger_def
        split: if_splits prod.splits)
qed

lemma map_ledger:
  "carried k = [] \<Longrightarrow> ledger ep (map (\<lambda>p. SendTo (f p) ep k) ps) {#} {#} {#}"
  by (induction ps) (cases k; auto simp: ledger_def)+

lemma flushLoop_map:
  "flushLoop ep sps = map (\<lambda>p. SendTo (sp_encodedPacket p) ep SendFlush) [p. Some p \<leftarrow> sps]"
  by (induction ep sps rule: flushLoop.induct) auto

interpretation rch: session_channel "rc_asyncSend cc codec" rc_asyncRecv "rc_onTick cc" rc_close
    "rc_onRecv cc ordered" "rc_onSent cc" "rc_flush :: 'ep \<Rightarrow> 'cc ReliableChannel \<Rightarrow> 'ep effect list"
    rc_inv rc_parked rc_closed
  for cc :: "'cc CongestionCtrl" and codec ordered
proof
  fix c c' :: "'cc ReliableChannel" and st st' es ec h m n s now p and ep :: 'ep
  assume i: "rc_inv c"
  have q: "rq_inv (rc_recvQueue c)" using i by (simp add: rc_inv_def)
  show "ledger ep (rc_flush ep c) {#} {#} {#}"
    by (simp add: rc_flush_def flushLoop_map map_ledger)
  show "rc_parked c = []" if "rc_closed c"
    using that rq_closed_parked [OF q] by (simp add: rc_parked_def rc_closed_def)
  show "rc_inv c' \<and> rc_closed c' = rc_closed c \<and> rc_parked c' = rc_parked c
      \<and> (\<exists>S K. ledger ep es S K {#} \<and> S + K = {#h#})"
    if "rc_asyncSend cc codec now m ep h c st = (c', st', es)"
    using rc_inv_asyncSend [OF i that] send_ledger [OF that] by simp
  show "rc_inv c' \<and> rc_closed c' = rc_closed c \<and> quiet es
      \<and> (\<exists>R. ledger ep es {#} {#} R \<and> R + mset (rc_parked c') = add_mset h (mset (rc_parked c)))"
    if "rc_asyncRecv n h c = (c', es)"
    using rc_inv_asyncRecv [OF i that] that rq_ledger(2) [OF q, of n h _ es ep]
    by (auto simp: rc_asyncRecv_def Let_def rc_parked_def rc_closed_def split: prod.splits)
  show "rc_inv c' \<and> rc_closed c' \<and> quiet es \<and> ledger ep es {#} {#} (mset (rc_parked c))"
    if "failed ec" "rc_close ec c = (c', es)"
    using rc_inv_close [OF i that] that rq_ledger(3) [OF q, of ec _ es ep]
    by (auto simp: rc_close_def Let_def rc_parked_def rc_closed_def split: prod.splits)
  show "rc_inv c' \<and> rc_closed c' = rc_closed c \<and> rc_parked c' = rc_parked c \<and> ledger ep es {#} {#} {#}"
    if "rc_onTick cc now ep c st = (c', st', es)"
    using rc_inv_onTick [OF i that] rc_onTick_channel [OF that]
    by (auto simp: rc_parked_def rc_closed_def map_ledger)
  show "rc_inv c' \<and> rc_closed c' = rc_closed c \<and> quiet es
      \<and> (\<exists>R. ledger ep es {#} {#} R \<and> R + mset (rc_parked c') = mset (rc_parked c))"
    if "rc_onRecv cc ordered now p c st = Some (c', st', es)"
    using rc_inv_onRecv [OF i that] receive_ledger [OF i that] by simp
  show "rc_inv c' \<and> rc_closed c' = rc_closed c \<and> rc_parked c' = rc_parked c \<and> quiet es
      \<and> ledger ep es {#h#} {#} {#}"
    if "rc_onSent cc s h ec c st = (c', st', es)"
    using rc_inv_onSent [OF i that] that
    by (auto simp: rc_onSent_def eraseSentPacket_def Let_def rc_parked_def rc_closed_def ledger_def quiet_def
        split: if_splits prod.splits option.splits)
qed

section \<open>The unreliable channel keeps the contract\<close>

definition uc_inv :: "UnreliableChannel \<Rightarrow> bool" where
  "uc_inv c = rq_inv (uc_recvQueue c)"

definition uc_parked :: "UnreliableChannel \<Rightarrow> handler list" where
  "uc_parked c = rq_parked (uc_recvQueue c)"

definition uc_closed :: "UnreliableChannel \<Rightarrow> bool" where
  "uc_closed c = rq_closed (uc_recvQueue c)"

text \<open>The user's handler of an unreliable send runs with the result of the send.\<close>

definition uc_onSent ::
  "u16 \<Rightarrow> handler \<Rightarrow> error_code \<Rightarrow> UnreliableChannel \<Rightarrow> SocketStats
    \<Rightarrow> UnreliableChannel \<times> SocketStats \<times> 'ep effect list" where
  "uc_onSent s h ec c st = (c, st, [CompleteSend h ec])"

lemmas uc_defs = uc_asyncSend_def uc_asyncRecv_def uc_onTick_def uc_close_def uc_onRecv_def uc_flush_def
  uc_onSent_def uc_inv_def uc_parked_def uc_closed_def Let_def

interpretation uch: session_channel "\<lambda>now. uc_asyncSend codec" uc_asyncRecv uc_onTick uc_close
    "\<lambda>now p c st. Some (uc_onRecv p c st)" uc_onSent
    "uc_flush :: 'ep \<Rightarrow> UnreliableChannel \<Rightarrow> 'ep effect list" uc_inv uc_parked uc_closed
  for codec
proof
  fix c c' :: UnreliableChannel and st st' es ec h m n s now p and ep :: 'ep
  assume i: "uc_inv c"
  then have q: "rq_inv (uc_recvQueue c)" by (simp add: uc_inv_def)
  show "ledger ep (uc_flush ep c) {#} {#} {#}" by (simp add: uc_flush_def)
  show "uc_parked c = []" if "uc_closed c"
    using that rq_closed_parked [OF q] by (simp add: uc_parked_def uc_closed_def)
  show "uc_inv c' \<and> uc_closed c' = uc_closed c \<and> uc_parked c' = uc_parked c
      \<and> (\<exists>S K. ledger ep es S K {#} \<and> S + K = {#h#})"
    if "uc_asyncSend codec m ep h c st = (c', st', es)"
    using q that by (auto simp: uc_defs ledger_def split: prod.splits if_splits)
  show "uc_inv c' \<and> uc_closed c' = uc_closed c \<and> quiet es
      \<and> (\<exists>R. ledger ep es {#} {#} R \<and> R + mset (uc_parked c') = add_mset h (mset (uc_parked c)))"
    if "uc_asyncRecv n h c = (c', es)"
    using that rq_ledger(2) [OF q, of n h _ es ep] rq.recv_inv [OF q, of n h _ es]
    by (auto simp: uc_defs split: prod.splits)
  show "uc_inv c' \<and> uc_closed c' \<and> quiet es \<and> ledger ep es {#} {#} (mset (uc_parked c))"
    if "failed ec" "uc_close ec c = (c', es)"
    using that rq_ledger(3) [OF q, of ec _ es ep] rq.close_inv [OF q that(1), of _ es]
    by (auto simp: uc_defs split: prod.splits)
  show "uc_inv c' \<and> uc_closed c' = uc_closed c \<and> uc_parked c' = uc_parked c \<and> ledger ep es {#} {#} {#}"
    if "uc_onTick now ep c st = (c', st', es)"
    using that i by (simp add: uc_onTick_def)
  show "uc_inv c' \<and> uc_closed c' = uc_closed c \<and> quiet es
      \<and> (\<exists>R. ledger ep es {#} {#} R \<and> R + mset (uc_parked c') = mset (uc_parked c))"
    if "Some (uc_onRecv p c st) = Some (c', st', es)"
    using that q rq_ledger(1) [OF q, of "pkt_payload p" _ es ep] rq.deliver_inv [OF q, of "pkt_payload p" _ es]
    by (auto simp: uc_defs split: prod.splits if_splits)
  show "uc_inv c' \<and> uc_closed c' = uc_closed c \<and> uc_parked c' = uc_parked c \<and> quiet es
      \<and> ledger ep es {#h#} {#} {#}"
    if "uc_onSent s h ec c st = (c', st', es)"
    using that i by (auto simp: uc_onSent_def ledger_def quiet_def)
qed

section \<open>The variant\<close>

datatype ('o, 'u) ChannelVar =
    UnreliableVar UnreliableChannel
  | OrderedVar "'o ReliableChannel"
  | UnorderedVar "'u ReliableChannel"

text \<open>The \<open>std::visit\<close> dispatch of each operation.\<close>

fun ch_asyncSend ::
  "'o CongestionCtrl \<Rightarrow> 'u CongestionCtrl \<Rightarrow> PacketCodec \<Rightarrow> time_ns \<Rightarrow> bytes \<Rightarrow> 'ep \<Rightarrow> handler
    \<Rightarrow> ('o, 'u) ChannelVar \<Rightarrow> SocketStats \<Rightarrow> ('o, 'u) ChannelVar \<times> SocketStats \<times> 'ep effect list" where
  "ch_asyncSend cco ccu codec now m ep h (UnreliableVar c) st =
     apfst UnreliableVar (uc_asyncSend codec m ep h c st)"
| "ch_asyncSend cco ccu codec now m ep h (OrderedVar c) st =
     apfst OrderedVar (rc_asyncSend cco codec now m ep h c st)"
| "ch_asyncSend cco ccu codec now m ep h (UnorderedVar c) st =
     apfst UnorderedVar (rc_asyncSend ccu codec now m ep h c st)"

fun ch_asyncRecv :: "nat \<Rightarrow> handler \<Rightarrow> ('o, 'u) ChannelVar \<Rightarrow> ('o, 'u) ChannelVar \<times> 'ep effect list" where
  "ch_asyncRecv n h (UnreliableVar c) = apfst UnreliableVar (uc_asyncRecv n h c)"
| "ch_asyncRecv n h (OrderedVar c) = apfst OrderedVar (rc_asyncRecv n h c)"
| "ch_asyncRecv n h (UnorderedVar c) = apfst UnorderedVar (rc_asyncRecv n h c)"

fun ch_onTick ::
  "'o CongestionCtrl \<Rightarrow> 'u CongestionCtrl \<Rightarrow> time_ns \<Rightarrow> 'ep \<Rightarrow> ('o, 'u) ChannelVar \<Rightarrow> SocketStats
    \<Rightarrow> ('o, 'u) ChannelVar \<times> SocketStats \<times> 'ep effect list" where
  "ch_onTick cco ccu now ep (UnreliableVar c) st = apfst UnreliableVar (uc_onTick now ep c st)"
| "ch_onTick cco ccu now ep (OrderedVar c) st = apfst OrderedVar (rc_onTick cco now ep c st)"
| "ch_onTick cco ccu now ep (UnorderedVar c) st = apfst UnorderedVar (rc_onTick ccu now ep c st)"

fun ch_close :: "error_code \<Rightarrow> ('o, 'u) ChannelVar \<Rightarrow> ('o, 'u) ChannelVar \<times> 'ep effect list" where
  "ch_close ec (UnreliableVar c) = apfst UnreliableVar (uc_close ec c)"
| "ch_close ec (OrderedVar c) = apfst OrderedVar (rc_close ec c)"
| "ch_close ec (UnorderedVar c) = apfst UnorderedVar (rc_close ec c)"

fun ch_onRecv ::
  "'o CongestionCtrl \<Rightarrow> 'u CongestionCtrl \<Rightarrow> time_ns \<Rightarrow> Packet \<Rightarrow> ('o, 'u) ChannelVar \<Rightarrow> SocketStats
    \<Rightarrow> (('o, 'u) ChannelVar \<times> SocketStats \<times> 'ep effect list) option" where
  "ch_onRecv cco ccu now p (UnreliableVar c) st = Some (apfst UnreliableVar (uc_onRecv p c st))"
| "ch_onRecv cco ccu now p (OrderedVar c) st =
     map_option (apfst OrderedVar) (rc_onRecv cco True now p c st)"
| "ch_onRecv cco ccu now p (UnorderedVar c) st =
     map_option (apfst UnorderedVar) (rc_onRecv ccu False now p c st)"

fun ch_onSent ::
  "'o CongestionCtrl \<Rightarrow> 'u CongestionCtrl \<Rightarrow> u16 \<Rightarrow> handler \<Rightarrow> error_code \<Rightarrow> ('o, 'u) ChannelVar \<Rightarrow> SocketStats
    \<Rightarrow> ('o, 'u) ChannelVar \<times> SocketStats \<times> 'ep effect list" where
  "ch_onSent cco ccu s h ec (UnreliableVar c) st = apfst UnreliableVar (uc_onSent s h ec c st)"
| "ch_onSent cco ccu s h ec (OrderedVar c) st = apfst OrderedVar (rc_onSent cco s h ec c st)"
| "ch_onSent cco ccu s h ec (UnorderedVar c) st = apfst UnorderedVar (rc_onSent ccu s h ec c st)"

fun ch_flush :: "'ep \<Rightarrow> ('o, 'u) ChannelVar \<Rightarrow> 'ep effect list" where
  "ch_flush ep (UnreliableVar c) = uc_flush ep c"
| "ch_flush ep (OrderedVar c) = rc_flush ep c"
| "ch_flush ep (UnorderedVar c) = rc_flush ep c"

fun ch_buildAck :: "('o, 'u) ChannelVar \<Rightarrow> Packet option" where
  "ch_buildAck (UnreliableVar c) = uc_buildAck c"
| "ch_buildAck (OrderedVar c) = rc_buildAck c"
| "ch_buildAck (UnorderedVar c) = rc_buildAck c"

fun ch_inv :: "('o, 'u) ChannelVar \<Rightarrow> bool" where
  "ch_inv (UnreliableVar c) = uc_inv c"
| "ch_inv (OrderedVar c) = rc_inv c"
| "ch_inv (UnorderedVar c) = rc_inv c"

fun ch_parked :: "('o, 'u) ChannelVar \<Rightarrow> handler list" where
  "ch_parked (UnreliableVar c) = uc_parked c"
| "ch_parked (OrderedVar c) = rc_parked c"
| "ch_parked (UnorderedVar c) = rc_parked c"

fun ch_closed :: "('o, 'u) ChannelVar \<Rightarrow> bool" where
  "ch_closed (UnreliableVar c) = uc_closed c"
| "ch_closed (OrderedVar c) = rc_closed c"
| "ch_closed (UnorderedVar c) = rc_closed c"

lemma apfst_eq_conv: "apfst f x = (a, b) \<longleftrightarrow> (\<exists>a'. a = f a' \<and> x = (a', b))"
  by (cases x) auto

interpretation cv: session_channel "ch_asyncSend cco ccu codec" ch_asyncRecv "ch_onTick cco ccu" ch_close
    "ch_onRecv cco ccu" "ch_onSent cco ccu" "ch_flush :: 'ep \<Rightarrow> ('o, 'u) ChannelVar \<Rightarrow> 'ep effect list"
    ch_inv ch_parked ch_closed
  for cco :: "'o CongestionCtrl" and ccu :: "'u CongestionCtrl" and codec
proof
  fix c c' :: "('o, 'u) ChannelVar" and st st' es ec h m n s now p and ep :: 'ep
  assume i: "ch_inv c"
  show "ledger ep (ch_flush ep c) {#} {#} {#}"
    using i by (cases c) (auto intro: rch.flush_law uch.flush_law)
  show "ch_parked c = []" if "ch_closed c"
    using i that by (cases c) (auto intro: rch.closed_parked uch.closed_parked)
  show "ch_inv c' \<and> ch_closed c' = ch_closed c \<and> ch_parked c' = ch_parked c
      \<and> (\<exists>S K. ledger ep es S K {#} \<and> S + K = {#h#})"
    if "ch_asyncSend cco ccu codec now m ep h c st = (c', st', es)"
    using i that by (cases c) (auto simp: apfst_eq_conv dest: rch.send_law [rotated, where ep = ep] uch.send_law [rotated, where ep = ep])
  show "ch_inv c' \<and> ch_closed c' = ch_closed c \<and> quiet es
      \<and> (\<exists>R. ledger ep es {#} {#} R \<and> R + mset (ch_parked c') = add_mset h (mset (ch_parked c)))"
    if "ch_asyncRecv n h c = (c', es)"
    using i that by (cases c) (auto simp: apfst_eq_conv dest: rch.recv_law [rotated, where ep = ep] uch.recv_law [rotated, where ep = ep])
  show "ch_inv c' \<and> ch_closed c' \<and> quiet es \<and> ledger ep es {#} {#} (mset (ch_parked c))"
    if "failed ec" "ch_close ec c = (c', es)"
    using i that by (cases c) (auto simp: apfst_eq_conv dest: rch.shut_law [rotated 2, where ep = ep] uch.shut_law [rotated 2, where ep = ep])
  show "ch_inv c' \<and> ch_closed c' = ch_closed c \<and> ch_parked c' = ch_parked c \<and> ledger ep es {#} {#} {#}"
    if "ch_onTick cco ccu now ep c st = (c', st', es)"
    using i that by (cases c) (auto simp: apfst_eq_conv dest: rch.tick_law [rotated, where ep = ep] uch.tick_law [rotated, where ep = ep])
  show "ch_inv c' \<and> ch_closed c' = ch_closed c \<and> quiet es
      \<and> (\<exists>R. ledger ep es {#} {#} R \<and> R + mset (ch_parked c') = mset (ch_parked c))"
    if "ch_onRecv cco ccu now p c st = Some (c', st', es)"
    using i that by (cases c) (auto simp: apfst_eq_conv dest: rch.packet_law [rotated, where ep = ep] uch.packet_law [rotated, simplified, where ep = ep])
  show "ch_inv c' \<and> ch_closed c' = ch_closed c \<and> ch_parked c' = ch_parked c \<and> quiet es
      \<and> ledger ep es {#h#} {#} {#}"
    if "ch_onSent cco ccu s h ec c st = (c', st', es)"
    using i that by (cases c) (auto simp: apfst_eq_conv dest: rch.sent_law [rotated, where ep = ep] uch.sent_law [rotated, where ep = ep])
qed

end
