(* ===== verification/Rude_Session.thy ===== *)
theory Rude_Session
  imports Rude_Channels
begin

text \<open>
  \<^verbatim>\<open>session/BasicSession.hpp\<close>: the state of a session and one function per operation, completion
  handler and timer handler. Every operation is dispatched through the session's strand, so the
  functions run one at a time; their effects are in program order.

  The template arguments are the record \<open>Traits\<close>. The policy's callbacks are the effects
  \<open>OnConnected\<close> and \<open>OnDisconnected\<close>; a callback that calls back into the session is not
  modelled. The clock is read at most once per handler, as the argument \<open>now\<close>.
\<close>

section \<open>State\<close>

record ('o, 'u) Traits =
  tr_codec :: PacketCodec
  tr_ordered :: "'o CongestionCtrl"
  tr_unordered :: "'u CongestionCtrl"

record ('o, 'u, 'ep) Session =
  ss_config :: SessionConfig
  ss_remote :: 'ep
  ss_channels :: "('o, 'u) ChannelVar list"
  ss_channelOpen :: "bool list"
  ss_stats :: SocketStats
  ss_lastRecv :: time_ns
  ss_retxTick :: u32
  ss_started :: bool
  ss_closed :: bool

definition kMaxChannels :: u8 where "kMaxChannels = 8"

text \<open>\<open>ch >= kMaxChannels || !channelOpen_[ch]\<close>\<close>

definition unusable :: "u8 \<Rightarrow> ('o, 'u, 'ep) Session \<Rightarrow> bool" where
  "unusable ch s \<longleftrightarrow> kMaxChannels \<le> ch \<or> \<not> ss_channelOpen s ! unat ch"

definition channelFor :: "'o \<Rightarrow> 'u \<Rightarrow> ChannelConfig \<Rightarrow> ('o, 'u) ChannelVar" where
  "channelFor ko ku cfg =
     (case cfg_mode cfg of
        ReliableOrdered \<Rightarrow> OrderedVar (newReliableChannel (reliableOptions cfg) ko)
      | ReliableUnordered \<Rightarrow> UnorderedVar (newReliableChannel (reliableOptions cfg) ku)
      | UnreliableSequenced \<Rightarrow> UnreliableVar (newUnreliableChannel (unreliableOptions cfg)))"

definition openChannel :: "'o \<Rightarrow> 'u \<Rightarrow> ChannelConfig \<Rightarrow> ('o, 'u, 'ep) Session \<Rightarrow> ('o, 'u, 'ep) Session" where
  "openChannel ko ku cfg s =
     (if kMaxChannels \<le> cfg_id cfg then s
      else s\<lparr>ss_channels := (ss_channels s)[unat (cfg_id cfg) := channelFor ko ku cfg],
             ss_channelOpen := (ss_channelOpen s)[unat (cfg_id cfg) := True]\<rparr>)"

fun smallestTimeout :: "ChannelConfig list \<Rightarrow> u32 \<Rightarrow> u32" where
  "smallestTimeout [] smallest = smallest"
| "smallestTimeout (cfg # cfgs) smallest =
     smallestTimeout cfgs
       (if cfg_mode cfg \<noteq> UnreliableSequenced \<and> 0 < cfg_retxTimeoutMs cfg
        then min smallest (cfg_retxTimeoutMs cfg) else smallest)"

definition retransmitTick :: "SessionConfig \<Rightarrow> u32" where
  "retransmitTick cfg = max 10 (min 500 (smallestTimeout (sc_channels cfg) 200 div 2))"

text \<open>
  The constructor; the default channel of an array slot is an unreliable channel, \<open>ep\<close> the default
  endpoint, \<open>ko\<close> and \<open>ku\<close> freshly constructed controllers.
\<close>

definition newSession :: "'o \<Rightarrow> 'u \<Rightarrow> 'ep \<Rightarrow> SessionConfig \<Rightarrow> ('o, 'u, 'ep) Session" where
  "newSession ko ku ep cfg =
     (fold (openChannel ko ku) (sc_channels cfg)
       \<lparr>ss_config = cfg, ss_remote = ep,
        ss_channels = replicate 8 (UnreliableVar (newUnreliableChannel \<lparr>opt_id = 0, opt_priority = 0\<rparr>)),
        ss_channelOpen = replicate 8 False, ss_stats = newSocketStats, ss_lastRecv = 0,
        ss_retxTick = 100, ss_started = False, ss_closed = False\<rparr>)
     \<lparr>ss_retxTick := retransmitTick cfg\<rparr>"

section \<open>Helpers\<close>

definition ss_encodePacket :: "PacketCodec \<Rightarrow> Packet \<Rightarrow> bytes" where
  "ss_encodePacket codec pkt =
     (let (size, encoded) =
            cdc_encode codec pkt (replicate (length (pkt_payload pkt) + cdc_maxOverhead codec) 0)
      in resizeBytes size encoded)"

definition sendPacket :: "('o, 'u) Traits \<Rightarrow> Packet \<Rightarrow> ('o, 'u, 'ep) Session \<Rightarrow> 'ep effect list" where
  "sendPacket T pkt s =
     (let encoded = ss_encodePacket (tr_codec T) pkt in
      if encoded = [] then [] else [SendTo encoded (ss_remote s) SendDiscard])"

definition closeReason :: "error_code \<Rightarrow> error_code" where
  "closeReason reason = (if failed reason then reason else makeErrorCode ChannelClosed)"

definition ss_close :: "error_code \<Rightarrow> ('o, 'u, 'ep) Session \<Rightarrow> ('o, 'u, 'ep) Session \<times> 'ep effect list" where
  "ss_close reason s =
     (if ss_closed s then (s, [])
      else
        let (cs, st, es) = visitOpen (\<lambda>c st. let (c', es) = ch_close (closeReason reason) c in (c', st, es))
                             (ss_channelOpen s) (ss_channels s) (ss_stats s)
        in (s\<lparr>ss_closed := True, ss_channels := cs, ss_stats := st\<rparr>,
            [CancelTimers, CancelSocket, CloseSocket] @ es @ [OnDisconnected reason]))"

section \<open>Operations\<close>

definition ss_asyncSend ::
  "('o, 'u) Traits \<Rightarrow> time_ns \<Rightarrow> u8 \<Rightarrow> bytes \<Rightarrow> handler \<Rightarrow> ('o, 'u, 'ep) Session
    \<Rightarrow> ('o, 'u, 'ep) Session \<times> 'ep effect list" where
  "ss_asyncSend T now ch payload h s =
     (if ss_closed s \<or> unusable ch s then (s, [CompleteSend h (makeErrorCode ChannelClosed)])
      else if sc_mtu (ss_config s) < length payload + cdc_maxOverhead (tr_codec T)
      then (s, [CompleteSend h (makeErrorCode MessageTooLarge)])
      else
        let (c, st, es) = ch_asyncSend (tr_ordered T) (tr_unordered T) (tr_codec T) now payload
                            (ss_remote s) h (ss_channels s ! unat ch) (ss_stats s)
        in (s\<lparr>ss_channels := (ss_channels s)[unat ch := c], ss_stats := st\<rparr>, es))"

definition ss_asyncRecv ::
  "u8 \<Rightarrow> nat \<Rightarrow> handler \<Rightarrow> ('o, 'u, 'ep) Session \<Rightarrow> ('o, 'u, 'ep) Session \<times> 'ep effect list" where
  "ss_asyncRecv ch buf h s =
     (if unusable ch s then (s, [CompleteRecv h (makeErrorCode ChannelClosed) 0 []])
      else
        let (c, es) = ch_asyncRecv buf h (ss_channels s ! unat ch)
        in (s\<lparr>ss_channels := (ss_channels s)[unat ch := c]\<rparr>, es))"

text \<open>
  The completions of the flushed datagrams store into a variable of the handler's frame after it
  has returned; the result that the user's handler sees is the one before any of them.
\<close>

definition ss_asyncFlush ::
  "handler \<Rightarrow> ('o, 'u, 'ep) Session \<Rightarrow> ('o, 'u, 'ep) Session \<times> 'ep effect list" where
  "ss_asyncFlush h s =
     (if ss_closed s then (s, [CompleteSend h (makeErrorCode ChannelClosed)])
      else
        let (cs, st, es) = visitOpen (\<lambda>c st. (c, st, ch_flush (ss_remote s) c))
                             (ss_channelOpen s) (ss_channels s) (ss_stats s)
        in (s\<lparr>ss_channels := cs, ss_stats := st\<rparr>, es @ [CompleteSend h NoError]))"

definition ss_asyncDisconnect ::
  "('o, 'u) Traits \<Rightarrow> handler \<Rightarrow> ('o, 'u, 'ep) Session \<Rightarrow> ('o, 'u, 'ep) Session \<times> 'ep effect list" where
  "ss_asyncDisconnect T h s =
     (if ss_closed s then (s, [CompleteSend h NoError])
      else
        let encoded = ss_encodePacket (tr_codec T) (newPacket\<lparr>pkt_type := Disconnect\<rparr>) in
        if encoded = [] then
          let (s, es) = ss_close (makeErrorCode BadPacket) s
          in (s, es @ [CompleteSend h (makeErrorCode BadPacket)])
        else (s, [SendTo encoded (ss_remote s) (SendDisconnect h)]))"

definition ss_start ::
  "time_ns \<Rightarrow> 'ep \<Rightarrow> ('o, 'u, 'ep) Session \<Rightarrow> ('o, 'u, 'ep) Session \<times> 'ep effect list" where
  "ss_start now remote s =
     (if ss_started s \<or> ss_closed s then (s, [])
      else
        (s\<lparr>ss_started := True, ss_remote := remote, ss_lastRecv := now\<rparr>,
         [OnConnected, RecvFrom, ArmRetransmit (uint (ss_retxTick s)),
          ArmKeepalive (uint (sc_keepaliveMs (ss_config s)))]))"

definition ss_cancel :: "('o, 'u, 'ep) Session \<Rightarrow> ('o, 'u, 'ep) Session \<times> 'ep effect list" where
  "ss_cancel s = ss_close (AsioCode operation_aborted) s"

section \<open>The receive loop\<close>

definition handlePacket ::
  "('o, 'u) Traits \<Rightarrow> time_ns \<Rightarrow> bytes \<Rightarrow> ('o, 'u, 'ep) Session
    \<Rightarrow> (('o, 'u, 'ep) Session \<times> 'ep effect list) option" where
  "handlePacket T now bs s =
     (case cdc_decode (tr_codec T) bs of
        Inl e \<Rightarrow> Some (s, [])
      | Inr pkt \<Rightarrow>
          let s = s\<lparr>ss_lastRecv := now\<rparr> in
          if pkt_type pkt = Disconnect then Some (ss_close (makeErrorCode ConnectionReset) s)
          else if pkt_type pkt = Keepalive then Some (s, [])
          else if pkt_type pkt = HandshakeInit then
            Some (s, sendPacket T (newPacket\<lparr>pkt_type := HandshakeAck, pkt_ack := pkt_seq pkt\<rparr>) s)
          else if pkt_type pkt = HandshakeAck then Some (s, [])
          else if unusable (pkt_channel pkt) s then Some (s, [])
          else
            do {
              (c, st, es) \<leftarrow> ch_onRecv (tr_ordered T) (tr_unordered T) now pkt
                              (ss_channels s ! unat (pkt_channel pkt)) (ss_stats s);
              let s = s\<lparr>ss_channels := (ss_channels s)[unat (pkt_channel pkt) := c], ss_stats := st\<rparr>;
              if pkt_type pkt \<noteq> Data then Some (s, es)
              else
                case ch_buildAck c of
                  None \<Rightarrow> Some (s, es)
                | Some ack \<Rightarrow> Some (s, es @ sendPacket T ack s)
            })"

definition onSocketRecv ::
  "('o, 'u) Traits \<Rightarrow> time_ns \<Rightarrow> error_code \<Rightarrow> 'ep \<Rightarrow> bytes \<Rightarrow> ('o, 'u, 'ep) Session
    \<Rightarrow> (('o, 'u, 'ep) Session \<times> 'ep effect list) option" where
  "onSocketRecv T now ec sender bs s =
     (if ss_closed s then Some (s, [])
      else if failed ec then Some (ss_close ec s)
      else
        do {
          (s, es) \<leftarrow> (if sender = ss_remote s then handlePacket T now bs s else Some (s, []));
          Some (s, if \<not> ss_closed s then es @ [RecvFrom] else es)
        })"

section \<open>Timers and send completions\<close>

definition onRetransmit ::
  "('o, 'u) Traits \<Rightarrow> time_ns \<Rightarrow> error_code \<Rightarrow> ('o, 'u, 'ep) Session
    \<Rightarrow> ('o, 'u, 'ep) Session \<times> 'ep effect list" where
  "onRetransmit T now ec s =
     (if failed ec \<or> ss_closed s then (s, [])
      else
        let (cs, st, es) = visitOpen (\<lambda>c st. ch_onTick (tr_ordered T) (tr_unordered T) now (ss_remote s) c st)
                             (ss_channelOpen s) (ss_channels s) (ss_stats s)
        in (s\<lparr>ss_channels := cs, ss_stats := st\<rparr>, es @ [ArmRetransmit (uint (ss_retxTick s))]))"

definition onKeepalive ::
  "('o, 'u) Traits \<Rightarrow> time_ns \<Rightarrow> error_code \<Rightarrow> ('o, 'u, 'ep) Session
    \<Rightarrow> ('o, 'u, 'ep) Session \<times> 'ep effect list" where
  "onKeepalive T now ec s =
     (if failed ec \<or> ss_closed s then (s, [])
      else if millis (uint (sc_timeoutMs (ss_config s))) < now - ss_lastRecv s
      then ss_close (makeErrorCode Timeout) s
      else (s, sendPacket T (newPacket\<lparr>pkt_type := Keepalive\<rparr>) s
               @ [ArmKeepalive (uint (sc_keepaliveMs (ss_config s)))]))"

text \<open>The continuation of a datagram when the socket has sent it or failed to.\<close>

fun onSendDone ::
  "('o, 'u) Traits \<Rightarrow> send_cont \<Rightarrow> error_code \<Rightarrow> ('o, 'u, 'ep) Session
    \<Rightarrow> ('o, 'u, 'ep) Session \<times> 'ep effect list" where
  "onSendDone T SendDiscard ec s = (s, [])"
| "onSendDone T SendFlush ec s = (s, [])"
| "onSendDone T (SendUser h) ec s = (s, [CompleteSend h ec])"
| "onSendDone T (SendReliable i sq h) ec s =
     (let (c, st, es) = ch_onSent (tr_ordered T) (tr_unordered T) sq h ec (ss_channels s ! unat i) (ss_stats s)
      in (s\<lparr>ss_channels := (ss_channels s)[unat i := c], ss_stats := st\<rparr>, es))"
| "onSendDone T (SendDisconnect h) ec s =
     (let (s, es) = ss_close NoError s in (s, es @ [CompleteSend h ec]))"

end
