(* ===== verification/Rude_SessionInvariant.thy ===== *)
theory Rude_SessionInvariant
  imports Rude_Session
begin

text \<open>
  A session together with what it has outstanding at the socket and the timers, as a step relation:
  any call of the application, any completion of an outstanding operation, in any order. The
  invariant of its reachable states accounts for every handler, for the receive loop and the timers,
  and for the callbacks of the policy.
\<close>

section \<open>Effects of a session\<close>

fun isRecvFrom :: "'ep effect \<Rightarrow> bool" where
  "isRecvFrom RecvFrom = True"
| "isRecvFrom _ = False"

fun isArmRetransmit :: "'ep effect \<Rightarrow> bool" where
  "isArmRetransmit (ArmRetransmit n) = True"
| "isArmRetransmit _ = False"

fun isArmKeepalive :: "'ep effect \<Rightarrow> bool" where
  "isArmKeepalive (ArmKeepalive n) = True"
| "isArmKeepalive _ = False"

fun isOnConnected :: "'ep effect \<Rightarrow> bool" where
  "isOnConnected OnConnected = True"
| "isOnConnected _ = False"

fun isOnDisconnected :: "'ep effect \<Rightarrow> bool" where
  "isOnDisconnected (OnDisconnected ec) = True"
| "isOnDisconnected _ = False"

fun isCloseSocket :: "'ep effect \<Rightarrow> bool" where
  "isCloseSocket CloseSocket = True"
| "isCloseSocket _ = False"

definition nOf :: "('ep effect \<Rightarrow> bool) \<Rightarrow> 'ep effect list \<Rightarrow> nat" where
  "nOf P es = length (filter P es)"

lemma nOf_simps [simp]:
  "nOf P [] = 0" "nOf P (e # es) = (if P e then 1 else 0) + nOf P es"
  "nOf P (es @ fs) = nOf P es + nOf P fs"
  by (simp_all add: nOf_def)

definition conts :: "'ep effect list \<Rightarrow> send_cont multiset" where
  "conts es = mset (map (\<lambda>d. snd (snd d)) (datagrams es))"

lemma conts_simps [simp]:
  "conts [] = {#}" "conts (es @ fs) = conts es + conts fs"
  by (simp_all add: conts_def)

lemma conts_single: "conts [e] = (case e of SendTo bs ep k \<Rightarrow> {#k#} | _ \<Rightarrow> {#})"
  by (cases e) (simp_all add: conts_def)

definition carriedOf :: "send_cont multiset \<Rightarrow> handler multiset" where
  "carriedOf ks = (\<Sum>k\<in>#ks. mset (carried k))"

lemma carriedOf_simps [simp]:
  "carriedOf {#} = {#}" "carriedOf (ks + ls) = carriedOf ks + carriedOf ls"
  "carriedOf (add_mset k ks) = mset (carried k) + carriedOf ks"
  by (simp_all add: carriedOf_def)

lemma carriedOf_conts: "carriedOf (conts es) = mset (carriedSends es)"
  by (induction es rule: carriedSends.induct) (simp_all add: conts_def)

lemma carriedOf_remove: "k \<in># ks \<Longrightarrow> carriedOf (ks - {#k#}) + mset (carried k) = carriedOf ks"
  by (metis add.commute carriedOf_simps(3) insert_DiffM)

lemma quiet_conts: "quiet es \<Longrightarrow> conts es = {#}"
  by (simp add: quiet_def conts_def)

text \<open>Effects of channels count for none of the lifecycle counters.\<close>

lemma channel_counts:
  "\<forall>e\<in>set es. channelEffect ep e \<Longrightarrow> nOf isRecvFrom es = 0 \<and> nOf isArmRetransmit es = 0
    \<and> nOf isArmKeepalive es = 0 \<and> nOf isOnConnected es = 0 \<and> nOf isOnDisconnected es = 0
    \<and> nOf isCloseSocket es = 0"
  by (induction es) (auto elim: channelEffect.elims)

section \<open>Channel ids\<close>

fun ch_id :: "('o, 'u) ChannelVar \<Rightarrow> u8" where
  "ch_id (UnreliableVar c) = uc_id c"
| "ch_id (OrderedVar c) = rc_id c"
| "ch_id (UnorderedVar c) = rc_id c"

lemma ch_id_ops:
  "ch_asyncSend cco ccu codec now m ep h c st = (c', st', es) \<Longrightarrow> ch_id c' = ch_id c"
  "ch_asyncRecv n h c = (c', es) \<Longrightarrow> ch_id c' = ch_id c"
  "ch_onTick cco ccu now ep c st = (c', st', es) \<Longrightarrow> ch_id c' = ch_id c"
  "ch_close ec c = (c', es) \<Longrightarrow> ch_id c' = ch_id c"
  "ch_onRecv cco ccu now p c st = Some (c', st', es) \<Longrightarrow> ch_id c' = ch_id c"
  "ch_onSent cco ccu sq h ec c st = (c', st', es) \<Longrightarrow> ch_id c' = ch_id c"
proof -
  show "ch_asyncSend cco ccu codec now m ep h c st = (c', st', es) \<Longrightarrow> ch_id c' = ch_id c"
    by (cases c) (auto simp: apfst_eq_conv uc_asyncSend_def Let_def split: if_splits prod.splits dest: send_held)
  show "ch_asyncRecv n h c = (c', es) \<Longrightarrow> ch_id c' = ch_id c"
    by (cases c) (auto simp: apfst_eq_conv uc_asyncRecv_def rc_asyncRecv_def Let_def split: prod.splits)
  show "ch_onTick cco ccu now ep c st = (c', st', es) \<Longrightarrow> ch_id c' = ch_id c"
    by (cases c) (auto simp: apfst_eq_conv uc_onTick_def dest: tick_held)
  show "ch_close ec c = (c', es) \<Longrightarrow> ch_id c' = ch_id c"
    by (cases c) (auto simp: apfst_eq_conv uc_close_def rc_close_def Let_def split: prod.splits)
  show "ch_onRecv cco ccu now p c st = Some (c', st', es) \<Longrightarrow> ch_id c' = ch_id c"
    by (cases c) (auto simp: apfst_eq_conv uc_onRecv_def Let_def split: if_splits prod.splits dest: receive_quiet)
  show "ch_onSent cco ccu sq h ec c st = (c', st', es) \<Longrightarrow> ch_id c' = ch_id c"
    by (cases c) (auto simp: apfst_eq_conv uc_onSent_def dest: onSent_held)
qed

lemma ch_send_conts:
  assumes "ch_asyncSend cco ccu codec now m ep h c st = (c', st', es)" and "SendReliable i sq h' \<in># conts es"
  shows "i = ch_id c"
proof (cases c)
  case (UnreliableVar u)
  then show ?thesis
    using assms by (auto simp: apfst_eq_conv uc_asyncSend_def Let_def conts_def split: if_splits prod.splits)
next
  case (OrderedVar r)
  then show ?thesis
    using assms by (auto simp: apfst_eq_conv rc_asyncSend_def effectiveSendWindow_def storeSentPacket_def Let_def
        conts_def split: if_splits prod.splits)
next
  case (UnorderedVar r)
  then show ?thesis
    using assms by (auto simp: apfst_eq_conv rc_asyncSend_def effectiveSendWindow_def storeSentPacket_def Let_def
        conts_def split: if_splits prod.splits)
qed

lemma visitOpen_map:
  assumes "\<And>c st c' st' es. f c st = (c', st', es) \<Longrightarrow> g c' = g c"
  shows "visitOpen f opns cs st = (cs', st', es) \<Longrightarrow> map g cs' = map g cs"
  by (induction opns cs arbitrary: st cs' es rule: list_induct2')
    (auto simp: Let_def split: prod.splits if_splits dest: assms)

section \<open>The invariant of a session\<close>

definition sinv :: "('o, 'u, 'ep) Session \<Rightarrow> bool" where
  "sinv s \<longleftrightarrow> length (ss_channels s) = 8 \<and> length (ss_channelOpen s) = 8
     \<and> (\<forall>c\<in>set (ss_channels s). ch_inv c)
     \<and> (\<forall>j<8. ss_channelOpen s ! j \<longrightarrow> map ch_id (ss_channels s) ! j = of_nat j)
     \<and> (ss_closed s \<longrightarrow> cv.closedAll (ss_channelOpen s) (ss_channels s))"

definition parkedS :: "('o, 'u, 'ep) Session \<Rightarrow> handler multiset" where
  "parkedS s = cv.parkedAll (ss_channelOpen s) (ss_channels s)"

text \<open>
  What one call does: \<open>S\<close> and \<open>R\<close> are the send and receive handlers that enter with it.
\<close>

definition sdelta ::
  "('o, 'u, 'ep) Session \<Rightarrow> handler multiset \<Rightarrow> handler multiset \<Rightarrow> ('o, 'u, 'ep) Session \<Rightarrow> 'ep effect list
    \<Rightarrow> bool" where
  "sdelta s S R s' es \<longleftrightarrow> sinv s' \<and> ss_channelOpen s' = ss_channelOpen s
     \<and> mset (completedSends es) + mset (carriedSends es) = S
     \<and> mset (completedRecvs es) + parkedS s' = R + parkedS s
     \<and> (ss_closed s \<longrightarrow> ss_closed s' \<and> quiet es)
     \<and> nOf isOnDisconnected es + of_bool (ss_closed s) = of_bool (ss_closed s')
     \<and> nOf isCloseSocket es = nOf isOnDisconnected es
     \<and> nOf isOnConnected es + of_bool (ss_started s) = of_bool (ss_started s')
     \<and> (\<forall>i sq h. SendReliable i sq h \<in># conts es \<longrightarrow> unat i < 8 \<and> ss_channelOpen s ! unat i)
     \<and> (\<forall>bs ep k. (bs, ep, k) \<in> set (datagrams es) \<longrightarrow> ep = ss_remote s')"

definition arms :: "'ep effect list \<Rightarrow> nat \<times> nat \<times> nat" where
  "arms es = (nOf isRecvFrom es, nOf isArmRetransmit es, nOf isArmKeepalive es)"

section \<open>Every call keeps the accounts\<close>

lemma ledgerD:
  assumes "ledger ep es S K R"
  shows "mset (completedSends es) = S" "mset (carriedSends es) = K" "mset (completedRecvs es) = R"
    "arms es = (0, 0, 0)" "nOf isOnConnected es = 0" "nOf isOnDisconnected es = 0" "nOf isCloseSocket es = 0"
    "(bs, ep', k) \<in> set (datagrams es) \<Longrightarrow> ep' = ep"
  using assms channel_counts [of es ep] by (auto simp: ledger_def arms_def in_datagrams_iff)

lemma arms_simps [simp]:
  "arms [] = (0, 0, 0)"
  "arms (es @ fs) = (let (a, b, c) = arms es; (a', b', c') = arms fs in (a + a', b + b', c + c'))"
  by (simp_all add: arms_def)

lemma closeReason_failed: "failed (closeReason reason)"
  by (simp add: closeReason_def)

lemma close_delta:
  fixes s s' :: "('o, 'u, 'ep) Session"
  assumes i: "sinv s" and c: "ss_close reason s = (s', es)"
  shows "sdelta s {#} {#} s' es \<and> ss_closed s' \<and> arms es = (0, 0, 0) \<and> quiet es \<and> ss_started s' = ss_started s"
proof (cases "ss_closed s")
  case True
  then show ?thesis using assms by (simp add: ss_close_def sdelta_def)
next
  case False
  let ?f = "\<lambda>c st. let (c', es) = ch_close (closeReason reason) c in (c', st, es)"
  obtain cs st fs where v: "visitOpen ?f (ss_channelOpen s) (ss_channels s) (ss_stats s) = (cs, st, fs :: 'ep effect list)"
    using prod_cases3 by blast
  have s': "s' = s\<lparr>ss_closed := True, ss_channels := cs, ss_stats := st\<rparr>"
    and es: "es = [CancelTimers, CancelSocket, CloseSocket] @ fs @ [OnDisconnected reason]"
    using c False v by (auto simp: ss_close_def)
  have sh: "\<forall>c\<in>set cs. ch_inv c" "cv.closedAll (ss_channelOpen s) cs" "quiet fs"
    "ledger (ss_remote s) fs {#} {#} (parkedS s)"
    using cv.shutAll [OF closeReason_failed _ _ v, of "ss_remote s"] i by (auto simp: sinv_def parkedS_def)
  have "map ch_id cs = map ch_id (ss_channels s)"
    by (rule visitOpen_map [OF _ v]) (auto split: prod.splits dest: ch_id_ops)
  then have "sinv s'" using i sh v by (auto simp: sinv_def s' dest: visitOpen_length)
  moreover have "parkedS s' = {#}"
    using cv.closedAll_parked [OF sh(2,1)] by (simp add: parkedS_def s')
  ultimately show ?thesis
    using ledgerD [OF sh(4)] sh(3) False
    by (auto simp: sdelta_def s' es quiet_def conts_def arms_def in_datagrams_iff)
qed

text \<open>One open channel replaced by the result of a call on it.\<close>

lemma update_sinv:
  assumes i: "sinv s" and ch: "unat ch < 8" "ss_channelOpen s ! unat ch"
    and c: "ch_inv c'" "ch_closed c' = ch_closed (ss_channels s ! unat ch)"
      "ch_id c' = ch_id (ss_channels s ! unat ch)"
  shows "sinv (s\<lparr>ss_channels := (ss_channels s)[unat ch := c'], ss_stats := st, ss_lastRecv := t\<rparr>)"
proof -
  have "map ch_id ((ss_channels s)[unat ch := c']) = map ch_id (ss_channels s)"
    using i ch(1) c(3) by (simp add: map_update sinv_def) (metis length_map list_update_id nth_map)
  moreover have "cv.closedAll (ss_channelOpen s) ((ss_channels s)[unat ch := c'])" if "ss_closed s"
    using cv.closedAll_update [of "unat ch" "ss_channels s" "ss_channelOpen s" c'] that i ch c(2)
    by (simp add: sinv_def)
  ultimately show ?thesis
    using i c(1) by (auto simp: sinv_def dest!: set_update_subset_insert [THEN subsetD])
qed

lemma update_parked:
  assumes "sinv s" and "unat ch < 8" "ss_channelOpen s ! unat ch"
  shows "parkedS (s\<lparr>ss_channels := (ss_channels s)[unat ch := c'], ss_stats := st, ss_lastRecv := t\<rparr>)
      + mset (ch_parked (ss_channels s ! unat ch)) = parkedS s + mset (ch_parked c')"
  using cv.parkedAll_update [of "unat ch" "ss_channels s" "ss_channelOpen s" c'] assms
  by (simp add: parkedS_def sinv_def)

lemma usable:
  "\<not> unusable ch s \<Longrightarrow> unat ch < 8 \<and> ss_channelOpen s ! unat ch"
  by (simp add: unusable_def kMaxChannels_def word_less_nat_alt word_le_nat_alt not_le)

lemma sinv_channel: "sinv s \<Longrightarrow> unat ch < 8 \<Longrightarrow> ch_inv (ss_channels s ! unat ch)"
  by (simp add: sinv_def)

lemma sinv_id:
  assumes "sinv s" and "unat ch < 8" "ss_channelOpen s ! unat ch"
  shows "ch_id (ss_channels s ! unat ch) = ch"
proof -
  have "map ch_id (ss_channels s) ! unat ch = of_nat (unat ch)" "length (ss_channels s) = 8"
    using assms unfolding sinv_def by blast+
  then show ?thesis using assms(2) by simp
qed

lemma send_delta:
  assumes i: "sinv s" and c: "ss_asyncSend T now ch m h s = (s', es)"
  shows "sdelta s {#h#} {#} s' es \<and> arms es = (0, 0, 0) \<and> ss_started s' = ss_started s"
proof (cases "ss_closed s \<or> unusable ch s \<or> sc_mtu (ss_config s) < length m + cdc_maxOverhead (tr_codec T)")
  case True
  then show ?thesis
    using assms by (auto simp: ss_asyncSend_def sdelta_def quiet_def conts_def arms_def split: if_splits)
next
  case False
  then have ch: "unat ch < 8" "ss_channelOpen s ! unat ch" using usable by auto
  let ?c = "ss_channels s ! unat ch"
  obtain c' st' where v: "ch_asyncSend (tr_ordered T) (tr_unordered T) (tr_codec T) now m (ss_remote s) h ?c
      (ss_stats s) = (c', st', es)"
    and s': "s' = s\<lparr>ss_channels := (ss_channels s)[unat ch := c'], ss_stats := st'\<rparr>"
    using c False by (auto simp: ss_asyncSend_def Let_def split: prod.splits)
  from cv.send_law [OF sinv_channel [OF i ch(1)] v] obtain S K where
    l: "ch_inv c'" "ch_closed c' = ch_closed ?c" "ch_parked c' = ch_parked ?c"
    "ledger (ss_remote s) es S K {#}" "S + K = {#h#}" by blast
  have "sinv s'" "parkedS s' = parkedS s"
    using update_sinv [OF i ch l(1,2) ch_id_ops(1) [OF v], where st = st' and t = "ss_lastRecv s"]
      update_parked [OF i ch, where c' = c' and st = st' and t = "ss_lastRecv s"] l(3) by (simp_all add: s')
  moreover have "unat j < 8 \<and> ss_channelOpen s ! unat j" if "SendReliable j sq h' \<in># conts es" for j sq h'
    using ch_send_conts [OF v that] sinv_id [OF i ch] ch by simp
  ultimately show ?thesis
    using ledgerD [OF l(4)] l(5) False by (auto simp: sdelta_def s')
qed

lemma recv_delta:
  assumes i: "sinv s" and c: "ss_asyncRecv ch n h s = (s', es)"
  shows "sdelta s {#} {#h#} s' es \<and> arms es = (0, 0, 0) \<and> ss_started s' = ss_started s"
proof (cases "unusable ch s")
  case True
  then show ?thesis
    using assms by (auto simp: ss_asyncRecv_def sdelta_def quiet_def conts_def arms_def)
next
  case False
  then have ch: "unat ch < 8" "ss_channelOpen s ! unat ch" using usable by auto
  let ?c = "ss_channels s ! unat ch"
  obtain c' where v: "ch_asyncRecv n h ?c = (c', es)"
    and s': "s' = s\<lparr>ss_channels := (ss_channels s)[unat ch := c']\<rparr>"
    using c False by (auto simp: ss_asyncRecv_def Let_def split: prod.splits)
  from cv.recv_law [OF sinv_channel [OF i ch(1)] v, of "ss_remote s"] obtain R where
    l: "ch_inv c'" "ch_closed c' = ch_closed ?c" "quiet es"
    "ledger (ss_remote s) es {#} {#} R" "R + mset (ch_parked c') = add_mset h (mset (ch_parked ?c))" by blast
  have p: "parkedS s' + mset (ch_parked ?c) = parkedS s + mset (ch_parked c')"
    using update_parked [OF i ch, where c' = c' and st = "ss_stats s" and t = "ss_lastRecv s"]
    by (simp add: s')
  have "R + parkedS s' = add_mset h (parkedS s)"
  proof -
    have "R + parkedS s' + mset (ch_parked ?c) = add_mset h (parkedS s) + mset (ch_parked ?c)"
      using p l(5) by (metis (no_types, lifting) add.assoc add.commute add_mset_add_single)
    then show ?thesis by simp
  qed
  moreover have "sinv s'"
    using update_sinv [OF i ch l(1,2) ch_id_ops(2) [OF v], where st = "ss_stats s" and t = "ss_lastRecv s"]
    by (simp add: s')
  ultimately show ?thesis
    using ledgerD [OF l(4)] l(3) quiet_conts [OF l(3)] by (auto simp: sdelta_def s' quiet_def)
qed

lemma ledger_no_reliable:
  assumes "ledger ep es S {#} R"
  shows "SendReliable j sq h \<notin># conts es"
proof
  assume "SendReliable j sq h \<in># conts es"
  then have "h \<in># carriedOf (conts es)"
    by (metis carried.simps(3) carriedOf_simps(3) insert_DiffM list.set_intros(1) set_mset_mset union_iff)
  then show False using ledgerD(2) [OF assms] by (simp add: carriedOf_conts)
qed

lemma flush_delta:
  fixes s s' :: "('o, 'u, 'ep) Session"
  assumes i: "sinv s" and c: "ss_asyncFlush h s = (s', es)"
  shows "sdelta s {#h#} {#} s' es \<and> arms es = (0, 0, 0) \<and> ss_started s' = ss_started s"
proof (cases "ss_closed s")
  case True
  then show ?thesis using assms by (auto simp: ss_asyncFlush_def sdelta_def quiet_def conts_def arms_def)
next
  case False
  obtain cs st fs where v: "visitOpen (\<lambda>c st. (c, st, ch_flush (ss_remote s) c)) (ss_channelOpen s)
      (ss_channels s) (ss_stats s) = (cs, st, fs :: 'ep effect list)"
    using prod_cases3 by blast
  have l: "cs = ss_channels s" "st = ss_stats s" "ledger (ss_remote s) fs {#} {#} {#}"
    using cv.flushAll [OF _ v] i by (auto simp: sinv_def)
  have "s' = s" "es = fs @ [CompleteSend h NoError]"
    using c False v l by (auto simp: ss_asyncFlush_def)
  moreover have "SendReliable j sq h' \<notin># conts fs" for j sq h'
    using ledger_no_reliable [OF l(3)] .
  ultimately show ?thesis
    using ledgerD [OF l(3)] i False by (auto simp: sdelta_def conts_def arms_def)
qed

lemma disconnect_delta:
  assumes i: "sinv s" and c: "ss_asyncDisconnect T h s = (s', es)"
  shows "sdelta s {#h#} {#} s' es \<and> arms es = (0, 0, 0) \<and> ss_started s' = ss_started s"
proof -
  obtain s1 es1 where cl: "ss_close (makeErrorCode BadPacket) s = (s1, es1)" by fastforce
  show ?thesis
    using c close_delta [OF i cl] i unfolding ss_asyncDisconnect_def cl
    by (auto simp: Let_def sdelta_def conts_def arms_def quiet_def split: if_splits)
qed

lemma start_delta:
  assumes i: "sinv s" and c: "ss_start now remote s = (s', es)"
  shows "sdelta s {#} {#} s' es
    \<and> arms es = (if ss_started s \<or> ss_closed s then (0, 0, 0) else (1, 1, 1)) \<and> ss_closed s' = ss_closed s
    \<and> (ss_started s' \<longleftrightarrow> ss_started s \<or> \<not> ss_closed s)"
  using assms
  by (auto simp: ss_start_def sdelta_def sinv_def parkedS_def conts_def arms_def quiet_def split: if_splits)

lemma sendPacket_effects:
  "completedSends (sendPacket T pkt s) = []" "carriedSends (sendPacket T pkt s) = []"
  "completedRecvs (sendPacket T pkt s) = []" "arms (sendPacket T pkt s) = (0, 0, 0)"
  "nOf isRecvFrom (sendPacket T pkt s) = 0" "nOf isArmRetransmit (sendPacket T pkt s) = 0"
  "nOf isArmKeepalive (sendPacket T pkt s) = 0"
  "nOf isOnDisconnected (sendPacket T pkt s) = 0" "nOf isCloseSocket (sendPacket T pkt s) = 0"
  "nOf isOnConnected (sendPacket T pkt s) = 0" "SendReliable i sq h \<notin># conts (sendPacket T pkt s)"
  by (simp_all add: sendPacket_def Let_def arms_def conts_def)

lemma sendPacket_remote: "(bs, ep, k) \<in> set (datagrams (sendPacket T pkt s)) \<Longrightarrow> ep = ss_remote s"
  by (auto simp: sendPacket_def Let_def split: if_splits)

lemma sdelta_lastRecv [simp]: "sdelta (s\<lparr>ss_lastRecv := t\<rparr>) S R = sdelta s S R"
  by (simp add: fun_eq_iff sdelta_def parkedS_def)

lemma sinv_lastRecv [simp]: "sinv (s\<lparr>ss_lastRecv := t\<rparr>) = sinv s"
  by (simp add: sinv_def)

lemma channel_packet_delta:
  assumes i: "sinv s" and o: "\<not> ss_closed s" and ch: "unat ch < 8" "ss_channelOpen s ! unat ch"
    and v: "ch_onRecv cco ccu now pkt (ss_channels s ! unat ch) (ss_stats s) = Some (c', st', es)"
    and s': "s' = s\<lparr>ss_lastRecv := t, ss_channels := (ss_channels s)[unat ch := c'], ss_stats := st'\<rparr>"
  shows "sdelta s {#} {#} s' es \<and> arms es = (0, 0, 0) \<and> ss_started s' = ss_started s"
    and "sdelta s {#} {#} s' (es @ sendPacket T ack s') \<and> arms (es @ sendPacket T ack s') = (0, 0, 0)
      \<and> ss_started s' = ss_started s"
proof -
  let ?c = "ss_channels s ! unat ch"
  from cv.packet_law [OF sinv_channel [OF i ch(1)] v, of "ss_remote s"] obtain R where
    l: "ch_inv c'" "ch_closed c' = ch_closed ?c" "quiet es"
    "ledger (ss_remote s) es {#} {#} R" "R + mset (ch_parked c') = mset (ch_parked ?c)" by blast
  have eq: "s\<lparr>ss_lastRecv := t, ss_channels := cs, ss_stats := st'\<rparr>
      = s\<lparr>ss_channels := cs, ss_stats := st', ss_lastRecv := t\<rparr>" for cs by simp
  have p: "parkedS s' + mset (ch_parked ?c) = parkedS s + mset (ch_parked c')"
    using update_parked [OF i ch, where c' = c' and st = st' and t = t] unfolding s' eq .
  have "R + parkedS s' + mset (ch_parked c') = parkedS s + mset (ch_parked c')"
    using p l(5) by (metis (no_types, lifting) add.assoc add.commute)
  then have r: "R + parkedS s' = parkedS s" by simp
  have "sinv s'"
    using update_sinv [OF i ch l(1,2) ch_id_ops(5) [OF v], where st = st' and t = t] unfolding s' eq .
  moreover have "ss_channelOpen s' = ss_channelOpen s" "ss_closed s' = ss_closed s" "ss_started s' = ss_started s"
    "ss_remote s' = ss_remote s" by (simp_all add: s')
  ultimately show "sdelta s {#} {#} s' es \<and> arms es = (0, 0, 0) \<and> ss_started s' = ss_started s"
    and "sdelta s {#} {#} s' (es @ sendPacket T ack s') \<and> arms (es @ sendPacket T ack s') = (0, 0, 0)
      \<and> ss_started s' = ss_started s"
    using ledgerD [OF l(4)] l(3) quiet_conts [OF l(3)] r o
    by (auto simp: sdelta_def quiet_def sendPacket_effects dest: sendPacket_remote)
qed

lemma handlePacket_delta:
  fixes s s' :: "('o, 'u, 'ep) Session"
  assumes i: "sinv s" and o: "\<not> ss_closed s" and c: "handlePacket T now bs s = Some (s', es)"
  shows "sdelta s {#} {#} s' es \<and> arms es = (0, 0, 0) \<and> ss_started s' = ss_started s"
proof (cases "cdc_decode (tr_codec T) bs")
  case (Inl e)
  then show ?thesis using assms by (auto simp: handlePacket_def sdelta_def)
next
  case (Inr pkt)
  let ?s = "s\<lparr>ss_lastRecv := now\<rparr>"
  obtain s1 es1 where cl: "ss_close (makeErrorCode ConnectionReset) ?s = (s1, es1)" by fastforce
  have cd: "sdelta s {#} {#} s1 es1 \<and> arms es1 = (0, 0, 0) \<and> ss_started s1 = ss_started s"
    using close_delta [OF _ cl] i by simp
  have nop: "sdelta s {#} {#} ?s [] \<and> ss_started ?s = ss_started s"
    using i o by (auto simp: sdelta_def parkedS_def)
  have ack: "sdelta s {#} {#} ?s (sendPacket T ack ?s)" for ack
    using i o by (auto simp: sdelta_def parkedS_def sendPacket_effects dest: sendPacket_remote)
  show ?thesis
  proof (cases "unusable (pkt_channel pkt) ?s \<or>
      pkt_type pkt \<in> {Disconnect, Keepalive, HandshakeInit, HandshakeAck}")
    case True
    then show ?thesis
      using c cd nop ack sendPacket_effects(4) unfolding handlePacket_def Inr
      by (auto simp: Let_def cl split: if_splits)
  next
    case False
    then have ch: "unat (pkt_channel pkt) < 8" "ss_channelOpen s ! unat (pkt_channel pkt)"
      using usable [of "pkt_channel pkt" ?s] by auto
    from False c obtain c' st' es1 where
      v: "ch_onRecv (tr_ordered T) (tr_unordered T) now pkt (ss_channels s ! unat (pkt_channel pkt)) (ss_stats s)
          = Some (c', st', es1 :: 'ep effect list)"
      unfolding handlePacket_def Inr by (auto simp: Let_def bind_eq_Some_conv)
    note d = channel_packet_delta [OF i o ch v refl, where t = now]
    show ?thesis
      using False c v d unfolding handlePacket_def Inr
      by (auto simp: Let_def split: if_splits option.splits)
  qed
qed

lemma onSocketRecv_delta:
  assumes i: "sinv s" and c: "onSocketRecv T now ec sender bs s = Some (s', es)"
  shows "sdelta s {#} {#} s' es \<and> arms es = (of_bool (\<not> ss_closed s'), 0, 0) \<and> ss_started s' = ss_started s"
proof (cases "ss_closed s \<or> failed ec")
  case True
  obtain s1 es1 where cl: "ss_close ec s = (s1, es1)" by fastforce
  show ?thesis
    using True c close_delta [OF i cl] i cl
    by (auto simp: onSocketRecv_def sdelta_def split: if_splits)
next
  case False
  then obtain es1 where
    h: "(if sender = ss_remote s then handlePacket T now bs s else Some (s, [])) = Some (s', es1)"
    and es: "es = (if \<not> ss_closed s' then es1 @ [RecvFrom] else es1)"
    using c by (auto simp: onSocketRecv_def bind_eq_Some_conv)
  have "sdelta s {#} {#} s' es1 \<and> arms es1 = (0, 0, 0) \<and> ss_started s' = ss_started s"
    using h handlePacket_delta [OF i, of T now bs s' es1] False i
    by (auto simp: sdelta_def split: if_splits)
  then show ?thesis
    using False by (auto simp: es sdelta_def arms_def conts_def quiet_def)
qed

lemma onRetransmit_delta:
  fixes s s' :: "('o, 'u, 'ep) Session"
  assumes i: "sinv s" and c: "onRetransmit T now ec s = (s', es)"
  shows "sdelta s {#} {#} s' es \<and> arms es = (0, of_bool (\<not> failed ec \<and> \<not> ss_closed s), 0)
    \<and> ss_started s' = ss_started s \<and> ss_closed s' = ss_closed s"
proof (cases "failed ec \<or> ss_closed s")
  case True
  then show ?thesis using assms by (auto simp: onRetransmit_def sdelta_def)
next
  case False
  let ?f = "\<lambda>c st. ch_onTick (tr_ordered T) (tr_unordered T) now (ss_remote s) c st"
  obtain cs st fs where v: "visitOpen ?f (ss_channelOpen s) (ss_channels s) (ss_stats s)
      = (cs, st, fs :: 'ep effect list)"
    using prod_cases3 by blast
  have e: "s' = s\<lparr>ss_channels := cs, ss_stats := st\<rparr>" "es = fs @ [ArmRetransmit (uint (ss_retxTick s))]"
    using c False v by (auto simp: onRetransmit_def)
  have l: "\<forall>c\<in>set cs. ch_inv c" "cv.parkedAll (ss_channelOpen s) cs = parkedS s"
    "ledger (ss_remote s) fs {#} {#} {#}"
    using cv.tickAll [OF _ v] i by (auto simp: sinv_def parkedS_def)
  have "map ch_id cs = map ch_id (ss_channels s)"
    by (rule visitOpen_map [OF _ v]) (rule ch_id_ops)
  then have "sinv s'" using i l(1) v False by (auto simp: sinv_def e dest: visitOpen_length)
  moreover have "SendReliable j sq h' \<notin># conts fs" for j sq h'
    using ledger_no_reliable [OF l(3)] .
  ultimately show ?thesis
    using ledgerD [OF l(3)] l(2) False by (auto simp: sdelta_def e parkedS_def conts_def arms_def)
qed

lemma onKeepalive_delta:
  assumes i: "sinv s" and c: "onKeepalive T now ec s = (s', es)"
  shows "sdelta s {#} {#} s' es \<and> arms es = (0, 0, of_bool (\<not> failed ec \<and> \<not> ss_closed s'))
    \<and> ss_started s' = ss_started s"
proof -
  obtain s1 es1 where cl: "ss_close (makeErrorCode Timeout) s = (s1, es1)" by fastforce
  show ?thesis
    using c close_delta [OF i cl] i cl
    by (auto simp: onKeepalive_def sdelta_def arms_def sendPacket_effects conts_single
        split: if_splits dest: sendPacket_remote)
qed

lemma onSendDone_delta:
  assumes i: "sinv s" and c: "onSendDone T k ec s = (s', es)"
    and k: "\<And>i sq h. k = SendReliable i sq h \<Longrightarrow> unat i < 8 \<and> ss_channelOpen s ! unat i"
  shows "sdelta s (mset (carried k)) {#} s' es \<and> arms es = (0, 0, 0) \<and> ss_started s' = ss_started s \<and> quiet es"
proof (cases k)
  case (SendReliable j sq h)
  then have ch: "unat j < 8" "ss_channelOpen s ! unat j" using k by auto
  let ?c = "ss_channels s ! unat j"
  obtain c' st' where v: "ch_onSent (tr_ordered T) (tr_unordered T) sq h ec ?c (ss_stats s) = (c', st', es)"
    and s': "s' = s\<lparr>ss_channels := (ss_channels s)[unat j := c'], ss_stats := st'\<rparr>"
    using c SendReliable by (auto split: prod.splits)
  note l = cv.sent_law [OF sinv_channel [OF i ch(1)] v, of "ss_remote s"]
  have "sinv s'" "parkedS s' = parkedS s"
    using update_sinv [OF i ch _ _ ch_id_ops(6) [OF v], where st = st' and t = "ss_lastRecv s"]
      update_parked [OF i ch, where c' = c' and st = st' and t = "ss_lastRecv s"] l by (simp_all add: s')
  moreover have lg: "ledger (ss_remote s) es {#h#} {#} {#}" and q: "quiet es" using l by simp_all
  ultimately show ?thesis
    using ledgerD [OF lg] quiet_conts [OF q] q SendReliable by (auto simp: sdelta_def s' quiet_def)
next
  case (SendDisconnect h)
  obtain s1 es1 where cl: "ss_close NoError s = (s1, es1)" by fastforce
  show ?thesis
    using c SendDisconnect close_delta [OF i cl] cl
    by (auto simp: sdelta_def arms_def conts_def quiet_def)
qed (use c i in \<open>auto simp: sdelta_def conts_def arms_def quiet_def\<close>)

section \<open>A session in its environment\<close>

text \<open>
  The session, the datagrams at the socket that have not completed (by their continuations), the
  number of outstanding receives and of armed waits on each timer, everything that was emitted, and
  the handlers that were handed in.
\<close>

record ('o, 'u, 'ep) World =
  w_session :: "('o, 'u, 'ep) Session"
  w_sends :: "send_cont multiset"
  w_recvs :: nat
  w_retx :: nat
  w_keep :: nat
  w_trace :: "'ep effect list"
  w_sendInit :: "handler multiset"
  w_recvInit :: "handler multiset"

definition newWorld :: "('o, 'u, 'ep) Session \<Rightarrow> ('o, 'u, 'ep) World" where
  "newWorld s = \<lparr>w_session = s, w_sends = {#}, w_recvs = 0, w_retx = 0, w_keep = 0, w_trace = [],
     w_sendInit = {#}, w_recvInit = {#}\<rparr>"

definition absorb ::
  "('o, 'u, 'ep) Session \<times> 'ep effect list \<Rightarrow> ('o, 'u, 'ep) World \<Rightarrow> ('o, 'u, 'ep) World" where
  "absorb r w = w\<lparr>w_session := fst r, w_sends := w_sends w + conts (snd r),
     w_recvs := w_recvs w + nOf isRecvFrom (snd r), w_retx := w_retx w + nOf isArmRetransmit (snd r),
     w_keep := w_keep w + nOf isArmKeepalive (snd r), w_trace := w_trace w @ snd r\<rparr>"

inductive world_step :: "('o, 'u) Traits \<Rightarrow> ('o, 'u, 'ep) World \<Rightarrow> ('o, 'u, 'ep) World \<Rightarrow> bool"
  for T where
  Send: "world_step T w (absorb (ss_asyncSend T now ch m h (w_session w))
      (w\<lparr>w_sendInit := add_mset h (w_sendInit w)\<rparr>))"
| Recv: "world_step T w (absorb (ss_asyncRecv ch n h (w_session w))
      (w\<lparr>w_recvInit := add_mset h (w_recvInit w)\<rparr>))"
| Flush: "world_step T w (absorb (ss_asyncFlush h (w_session w))
      (w\<lparr>w_sendInit := add_mset h (w_sendInit w)\<rparr>))"
| Disconnecting: "world_step T w (absorb (ss_asyncDisconnect T h (w_session w))
      (w\<lparr>w_sendInit := add_mset h (w_sendInit w)\<rparr>))"
| Start: "world_step T w (absorb (ss_start now remote (w_session w)) w)"
| Cancel: "world_step T w (absorb (ss_cancel (w_session w)) w)"
| RecvDone: "0 < w_recvs w \<Longrightarrow> onSocketRecv T now ec sender bs (w_session w) = Some r \<Longrightarrow>
    world_step T w (absorb r (w\<lparr>w_recvs := w_recvs w - 1\<rparr>))"
| SendDone: "k \<in># w_sends w \<Longrightarrow>
    world_step T w (absorb (onSendDone T k ec (w_session w)) (w\<lparr>w_sends := w_sends w - {#k#}\<rparr>))"
| RetransmitDue: "0 < w_retx w \<Longrightarrow>
    world_step T w (absorb (onRetransmit T now ec (w_session w)) (w\<lparr>w_retx := w_retx w - 1\<rparr>))"
| KeepaliveDue: "0 < w_keep w \<Longrightarrow>
    world_step T w (absorb (onKeepalive T now ec (w_session w)) (w\<lparr>w_keep := w_keep w - 1\<rparr>))"

inductive reachable :: "('o, 'u) Traits \<Rightarrow> ('o, 'u, 'ep) Session \<Rightarrow> ('o, 'u, 'ep) World \<Rightarrow> bool"
  for T s where
  Init: "reachable T s (newWorld s)"
| Step: "reachable T s w \<Longrightarrow> world_step T w w' \<Longrightarrow> reachable T s w'"

text \<open>
  The invariant. A waiting timer or receive fails (with \<open>operation_aborted\<close>) only because \<open>close\<close>
  cancelled it; a wait that fails on a live session would leave the session without that timer, so
  the counters are bounded by one, and exact for the receive loop.
\<close>

definition pendingOk :: "bool \<Rightarrow> bool \<Rightarrow> nat \<Rightarrow> nat \<Rightarrow> nat \<Rightarrow> bool" where
  "pendingOk isClosed started recvs retx keep \<longleftrightarrow>
     (if isClosed then recvs \<le> 1 \<and> retx \<le> 1 \<and> keep \<le> 1
      else recvs = of_bool started \<and> retx \<le> of_bool started \<and> keep \<le> of_bool started)"

lemma pendingOk_mono:
  "pendingOk cl st a b c \<Longrightarrow> (cl \<longrightarrow> cl') \<Longrightarrow> pendingOk cl' st a b c"
  by (auto simp: pendingOk_def split: if_splits)

definition winv :: "('o, 'u, 'ep) World \<Rightarrow> bool" where
  "winv w \<longleftrightarrow> (let s = w_session w in sinv s
     \<and> (\<forall>i sq h. SendReliable i sq h \<in># w_sends w \<longrightarrow> unat i < 8 \<and> ss_channelOpen s ! unat i)
     \<and> mset (completedSends (w_trace w)) + carriedOf (w_sends w) = w_sendInit w
     \<and> mset (completedRecvs (w_trace w)) + parkedS s = w_recvInit w
     \<and> nOf isOnDisconnected (w_trace w) = of_bool (ss_closed s)
     \<and> nOf isCloseSocket (w_trace w) = of_bool (ss_closed s)
     \<and> nOf isOnConnected (w_trace w) = of_bool (ss_started s)
     \<and> pendingOk (ss_closed s) (ss_started s) (w_recvs w) (w_retx w) (w_keep w))"

lemma sdelta_closed: "sdelta s S R s' es \<Longrightarrow> ss_closed s \<longrightarrow> ss_closed s'"
  by (auto simp: sdelta_def)

lemma absorb_winv:
  assumes w: "winv w" and d: "sdelta (w_session w) S R s' es"
    and sends: "w_sends w0 + ks = w_sends w" "S = S0 + carriedOf ks"
    and same: "w_session w0 = w_session w" "w_trace w0 = w_trace w"
    and init: "w_sendInit w0 = w_sendInit w + S0" "w_recvInit w0 = w_recvInit w + R"
    and cnt: "pendingOk (ss_closed s') (ss_started s') (w_recvs w0 + nOf isRecvFrom es)
      (w_retx w0 + nOf isArmRetransmit es) (w_keep w0 + nOf isArmKeepalive es)"
  shows "winv (absorb (s', es) w0)"
proof -
  have sub: "SendReliable i sq h \<in># w_sends w" if "SendReliable i sq h \<in># w_sends w0" for i sq h
    using that sends(1) by (metis union_iff)
  have "mset (completedSends (w_trace w @ es)) + carriedOf (w_sends w0 + conts es) = w_sendInit w + S0"
  proof -
    have "mset (completedSends (w_trace w)) + carriedOf (w_sends w0) + carriedOf ks = w_sendInit w"
      using w sends(1) by (metis (no_types, lifting) add.assoc carriedOf_simps(2) winv_def)
    moreover have "mset (completedSends es) + carriedOf (conts es) = S0 + carriedOf ks"
      using d sends(2) by (simp add: sdelta_def carriedOf_conts)
    ultimately have "mset (completedSends (w_trace w @ es)) + carriedOf (w_sends w0 + conts es) + carriedOf ks
        = w_sendInit w + S0 + carriedOf ks"
      by (simp add: ac_simps) (metis add.assoc add.commute)
    then show ?thesis by simp
  qed
  moreover have "mset (completedRecvs (w_trace w @ es)) + parkedS s' = w_recvInit w + R"
    using w d by (simp add: winv_def sdelta_def Let_def) (metis add.assoc add.commute)
  moreover have "\<forall>i sq h. SendReliable i sq h \<in># w_sends w0 + conts es \<longrightarrow> unat i < 8 \<and> ss_channelOpen s' ! unat i"
  proof (intro allI impI)
    fix i sq h assume "SendReliable i sq h \<in># w_sends w0 + conts es"
    then have "SendReliable i sq h \<in># w_sends w \<or> SendReliable i sq h \<in># conts es" using sub by auto
    then have "unat i < 8 \<and> ss_channelOpen (w_session w) ! unat i"
      using w d unfolding winv_def sdelta_def Let_def by blast
    then show "unat i < 8 \<and> ss_channelOpen s' ! unat i" using d by (simp add: sdelta_def)
  qed
  moreover have "sinv s'" using d by (simp add: sdelta_def)
  moreover have "nOf isOnDisconnected (w_trace w @ es) = of_bool (ss_closed s')"
    "nOf isCloseSocket (w_trace w @ es) = of_bool (ss_closed s')"
    "nOf isOnConnected (w_trace w @ es) = of_bool (ss_started s')"
    using w d by (simp_all add: winv_def sdelta_def Let_def)
  ultimately show ?thesis
    using same init cnt unfolding winv_def absorb_def Let_def by simp
qed

text \<open>A call that arms nothing, and one that hands in the handlers \<open>S0\<close> and \<open>R\<close>.\<close>

lemma call_winv:
  assumes w: "winv w" and d: "sdelta (w_session w) S0 R s' es" "arms es = (0, 0, 0)"
    "ss_started s' = ss_started (w_session w)"
    and w0: "w0 = w\<lparr>w_sendInit := w_sendInit w + S0, w_recvInit := w_recvInit w + R\<rparr>"
  shows "winv (absorb (s', es) w0)"
proof (rule absorb_winv [OF w d(1), where ks = "{#}" and ?S0.0 = S0])
  show "pendingOk (ss_closed s') (ss_started s') (w_recvs w0 + nOf isRecvFrom es)
      (w_retx w0 + nOf isArmRetransmit es) (w_keep w0 + nOf isArmKeepalive es)"
    using pendingOk_mono [OF _ sdelta_closed [OF d(1)]] w d(2,3) by (simp add: winv_def Let_def arms_def w0)
qed (simp_all add: w0)

lemma world_step_winv:
  assumes "world_step T w w'" and w: "winv w"
  shows "winv w'"
proof -
  have i: "sinv (w_session w)" and p: "pendingOk (ss_closed (w_session w)) (ss_started (w_session w))
      (w_recvs w) (w_retx w) (w_keep w)"
    using w by (simp_all add: winv_def Let_def)
  from assms(1) show ?thesis
  proof cases
    case (Send now ch m h)
    obtain s' es where r: "ss_asyncSend T now ch m h (w_session w) = (s', es)" by fastforce
    show ?thesis unfolding Send r using call_winv [OF w, of "{#h#}" "{#}"] send_delta [OF i r] by simp
  next
    case (Recv ch n h)
    obtain s' es where r: "ss_asyncRecv ch n h (w_session w) = (s', es)" by fastforce
    show ?thesis unfolding Recv r using call_winv [OF w, of "{#}" "{#h#}"] recv_delta [OF i r] by simp
  next
    case (Flush h)
    obtain s' es where r: "ss_asyncFlush h (w_session w) = (s', es)" by fastforce
    show ?thesis unfolding Flush r using call_winv [OF w, of "{#h#}" "{#}"] flush_delta [OF i r] by simp
  next
    case (Disconnecting h)
    obtain s' es where r: "ss_asyncDisconnect T h (w_session w) = (s', es)" by fastforce
    show ?thesis
      unfolding Disconnecting r using call_winv [OF w, of "{#h#}" "{#}"] disconnect_delta [OF i r] by simp
  next
    case (Start now remote)
    obtain s' es where r: "ss_start now remote (w_session w) = (s', es)" by fastforce
    have d: "sdelta (w_session w) {#} {#} s' es" using start_delta [OF i r] by simp
    show ?thesis unfolding Start r
      using start_delta [OF i r] p
      by (intro absorb_winv [OF w d, where ks = "{#}" and ?S0.0 = "{#}"])
        (auto simp: arms_def pendingOk_def split: if_splits)
  next
    case Cancel
    obtain s' es where r: "ss_close (AsioCode operation_aborted) (w_session w) = (s', es)" by fastforce
    show ?thesis
      unfolding Cancel ss_cancel_def r using call_winv [OF w, of "{#}" "{#}"] close_delta [OF i r] by simp
  next
    case (RecvDone now ec sender bs r)
    obtain s' es where r: "r = (s', es)" by fastforce
    note d = onSocketRecv_delta [OF i RecvDone(3) [unfolded r]]
    have "pendingOk (ss_closed s') (ss_started s') (w_recvs w - 1 + nOf isRecvFrom es)
        (w_retx w + nOf isArmRetransmit es) (w_keep w + nOf isArmKeepalive es)"
      using d p RecvDone(2) sdelta_closed [of "w_session w" "{#}" "{#}" s' es]
      by (auto simp: arms_def pendingOk_def split: if_splits)
    then show ?thesis unfolding RecvDone(1) r
      using d by (intro absorb_winv [OF w, where ks = "{#}" and ?S0.0 = "{#}"]) auto
  next
    case (SendDone k ec)
    obtain s' es where r: "onSendDone T k ec (w_session w) = (s', es)" by fastforce
    have "unat j < 8 \<and> ss_channelOpen (w_session w) ! unat j" if "k = SendReliable j sq h" for j sq h
      using w SendDone(2) that unfolding winv_def Let_def by blast
    note d = onSendDone_delta [OF i r this]
    show ?thesis unfolding SendDone(1) r
      using d SendDone(2) pendingOk_mono [OF p sdelta_closed [of "w_session w" "mset (carried k)" "{#}" s' es]]
      by (intro absorb_winv [OF w, where ks = "{#k#}" and ?S0.0 = "{#}"]) (auto simp: arms_def)
  next
    case (RetransmitDue now ec)
    obtain s' es where r: "onRetransmit T now ec (w_session w) = (s', es)" by fastforce
    note d = onRetransmit_delta [OF i r]
    have "pendingOk (ss_closed s') (ss_started s') (w_recvs w + nOf isRecvFrom es)
        (w_retx w - 1 + nOf isArmRetransmit es) (w_keep w + nOf isArmKeepalive es)"
      using d p RetransmitDue(2) by (auto simp: arms_def pendingOk_def split: if_splits)
    then show ?thesis unfolding RetransmitDue(1) r
      using d by (intro absorb_winv [OF w, where ks = "{#}" and ?S0.0 = "{#}"]) auto
  next
    case (KeepaliveDue now ec)
    obtain s' es where r: "onKeepalive T now ec (w_session w) = (s', es)" by fastforce
    note d = onKeepalive_delta [OF i r]
    have "pendingOk (ss_closed s') (ss_started s') (w_recvs w + nOf isRecvFrom es)
        (w_retx w + nOf isArmRetransmit es) (w_keep w - 1 + nOf isArmKeepalive es)"
      using d p KeepaliveDue(2) sdelta_closed [of "w_session w" "{#}" "{#}" s' es]
      by (auto simp: arms_def pendingOk_def split: if_splits)
    then show ?thesis unfolding KeepaliveDue(1) r
      using d by (intro absorb_winv [OF w, where ks = "{#}" and ?S0.0 = "{#}"]) auto
  qed
qed

end
