(* ===== verification/Rude_SessionProperties.thy ===== *)
theory Rude_SessionProperties
  imports Rude_SessionInvariant
begin

text \<open>
  The properties of a session: lifecycle, exactly-once completion of handlers, silence after
  closing, and the behaviour of single operations on every branch.
\<close>

section \<open>Construction\<close>

definition fresh :: "('o, 'u, 'ep) Session \<Rightarrow> bool" where
  "fresh s \<longleftrightarrow> sinv s \<and> \<not> ss_closed s \<and> \<not> ss_started s \<and> (\<forall>c\<in>set (ss_channels s). ch_parked c = [])"

lemma rq_parked_new [simp]: "rq_parked newRecvQueue = []"
  by (simp add: rq_parked_def newRecvQueue_def)

lemma newReliableChannel_fields [simp]:
  "rc_parked (newReliableChannel c k) = []" "rc_id (newReliableChannel c k) = opt_id c"
  by (simp_all add: newReliableChannel_def Let_def rc_parked_def)

lemma channelFor_fresh:
  "ch_inv (channelFor ko ku cfg) \<and> ch_parked (channelFor ko ku cfg) = [] \<and> ch_id (channelFor ko ku cfg) = cfg_id cfg"
  by (auto simp: channelFor_def rc_inv_new uc_inv_def uc_parked_def newUnreliableChannel_def
      reliableOptions_def unreliableOptions_def split: ChannelMode.splits)

lemma openChannel_fresh:
  assumes f: "fresh s"
  shows "fresh (openChannel ko ku cfg s)"
proof (cases "kMaxChannels \<le> cfg_id cfg")
  case True
  then show ?thesis using f by (simp add: openChannel_def)
next
  case False
  then have n: "unat (cfg_id cfg) < 8"
    by (simp add: kMaxChannels_def word_le_nat_alt not_le)
  let ?c = "channelFor ko ku cfg" and ?n = "unat (cfg_id cfg)"
  have len: "length (ss_channels s) = 8" "length (ss_channelOpen s) = 8"
    using f by (simp_all add: fresh_def sinv_def)
  have "(ss_channelOpen s)[?n := True] ! j \<longrightarrow> map ch_id ((ss_channels s)[?n := ?c]) ! j = of_nat j" if "j < 8" for j
    using f that channelFor_fresh [of ko ku cfg] len
    by (cases "j = ?n") (auto simp: fresh_def sinv_def map_update)
  moreover have "\<forall>c\<in>set ((ss_channels s)[?n := ?c]). ch_inv c \<and> ch_parked c = []"
    using f channelFor_fresh [of ko ku cfg]
    by (auto simp: fresh_def sinv_def dest!: set_update_subset_insert [THEN subsetD])
  ultimately show ?thesis
    using f False len by (auto simp: openChannel_def fresh_def sinv_def)
qed

lemma newSession_fresh: "fresh (newSession (ko :: 'o) (ku :: 'u) (ep :: 'ep) cfg)"
proof -
  have "fresh (fold (openChannel ko ku) cfgs s)" if "fresh s" for cfgs and s :: "('o, 'u, 'ep) Session"
    using that by (induction cfgs arbitrary: s) (simp_all add: openChannel_fresh)
  moreover have "fresh \<lparr>ss_config = cfg, ss_remote = ep,
      ss_channels = replicate 8 (UnreliableVar (newUnreliableChannel \<lparr>opt_id = 0, opt_priority = 0\<rparr>)),
      ss_channelOpen = replicate 8 False, ss_stats = newSocketStats, ss_lastRecv = 0,
      ss_retxTick = 100, ss_started = False, ss_closed = False\<rparr>"
    by (simp add: fresh_def sinv_def uc_inv_def uc_parked_def newUnreliableChannel_def)
  moreover have "fresh (s\<lparr>ss_retxTick := t\<rparr>) = fresh s" for t and s :: "('o, 'u, 'ep) Session"
    by (simp add: fresh_def sinv_def)
  ultimately show ?thesis by (simp add: newSession_def)
qed

lemma parkedAll_empty: "\<forall>c\<in>set cs. ch_parked c = [] \<Longrightarrow> cv.parkedAll opns cs = {#}"
  by (induction opns cs rule: list_induct2') auto

lemma reachable_winv:
  assumes "reachable T s w" and "fresh s"
  shows "winv w"
  using assms(1)
proof (induction rule: reachable.induct)
  case Init
  then show ?case
    using assms(2) parkedAll_empty [of "ss_channels s" "ss_channelOpen s"]
    by (simp add: winv_def newWorld_def fresh_def parkedS_def pendingOk_def)
next
  case (Step w w')
  then show ?case using world_step_winv by blast
qed

lemma absorb_simps:
  "w_trace (absorb (s', es) w0) = w_trace w0 @ es" "w_session (absorb (s', es) w0) = s'"
  "w_trace (w\<lparr>w_sendInit := S\<rparr>) = w_trace w" "w_trace (w\<lparr>w_recvInit := S\<rparr>) = w_trace w"
  "w_trace (w\<lparr>w_recvs := n\<rparr>) = w_trace w" "w_trace (w\<lparr>w_sends := ks\<rparr>) = w_trace w"
  "w_trace (w\<lparr>w_retx := n\<rparr>) = w_trace w" "w_trace (w\<lparr>w_keep := n\<rparr>) = w_trace w"
  by (simp_all add: absorb_def)

text \<open>What one step emits, and that it keeps the accounts.\<close>

lemma step_delta:
  assumes "world_step T w w'" and w: "winv w"
  shows "\<exists>S R es. w_trace w' = w_trace w @ es \<and> sdelta (w_session w) S R (w_session w') es"
proof -
  have i: "sinv (w_session w)" using w by (simp add: winv_def Let_def)
  from assms(1) show ?thesis
  proof cases
    case (Send now ch m h)
    then show ?thesis using send_delta [OF i] by (metis absorb_simps surj_pair)
  next
    case (Recv ch n h)
    then show ?thesis using recv_delta [OF i] by (metis absorb_simps surj_pair)
  next
    case (Flush h)
    then show ?thesis using flush_delta [OF i] by (metis absorb_simps surj_pair)
  next
    case (Disconnecting h)
    then show ?thesis using disconnect_delta [OF i] by (metis absorb_simps surj_pair)
  next
    case (Start now remote)
    then show ?thesis using start_delta [OF i] by (metis absorb_simps surj_pair)
  next
    case Cancel
    then show ?thesis using close_delta [OF i] by (metis absorb_simps ss_cancel_def surj_pair)
  next
    case (RecvDone now ec sender bs r)
    then show ?thesis using onSocketRecv_delta [OF i] by (metis absorb_simps surj_pair)
  next
    case (SendDone k ec)
    then have "unat j < 8 \<and> ss_channelOpen (w_session w) ! unat j" if "k = SendReliable j sq h" for j sq h
      using w that unfolding winv_def Let_def by blast
    with SendDone show ?thesis using onSendDone_delta [OF i] by (metis absorb_simps surj_pair)
  next
    case (RetransmitDue now ec)
    then show ?thesis using onRetransmit_delta [OF i] by (metis absorb_simps surj_pair)
  next
    case (KeepaliveDue now ec)
    then show ?thesis using onKeepalive_delta [OF i] by (metis absorb_simps surj_pair)
  qed
qed

text \<open>On a closed session every handler returns without arming or sending anything.\<close>

lemma closed_step_counts:
  assumes "world_step T w w'" and w: "winv w" and c: "ss_closed (w_session w)"
  shows "w_sends w' \<subseteq># w_sends w \<and> w_recvs w' \<le> w_recvs w \<and> w_retx w' \<le> w_retx w \<and> w_keep w' \<le> w_keep w"
proof -
  have i: "sinv (w_session w)" using w by (simp add: winv_def Let_def)
  have call: "w_sends (absorb (s', es) w0) \<subseteq># w_sends w \<and> w_recvs (absorb (s', es) w0) \<le> w_recvs w
      \<and> w_retx (absorb (s', es) w0) \<le> w_retx w \<and> w_keep (absorb (s', es) w0) \<le> w_keep w"
    if "sdelta (w_session w) S R s' es" "arms es = (0, 0, 0)" "w_sends w0 \<subseteq># w_sends w"
      "w_recvs w0 \<le> w_recvs w" "w_retx w0 \<le> w_retx w" "w_keep w0 \<le> w_keep w" for S R s' es w0
    using that c quiet_conts [of es] by (simp add: absorb_def sdelta_def arms_def)
  from assms(1) show ?thesis
  proof cases
    case (Send now ch m h)
    obtain s' es where r: "ss_asyncSend T now ch m h (w_session w) = (s', es)" by fastforce
    show ?thesis unfolding Send r using send_delta [OF i r] by (intro call [where S = "{#h#}" and R = "{#}"]) auto
  next
    case (Recv ch n h)
    obtain s' es where r: "ss_asyncRecv ch n h (w_session w) = (s', es)" by fastforce
    show ?thesis unfolding Recv r using recv_delta [OF i r] by (intro call [where S = "{#}" and R = "{#h#}"]) auto
  next
    case (Flush h)
    obtain s' es where r: "ss_asyncFlush h (w_session w) = (s', es)" by fastforce
    show ?thesis unfolding Flush r using flush_delta [OF i r] by (intro call [where S = "{#h#}" and R = "{#}"]) auto
  next
    case (Disconnecting h)
    obtain s' es where r: "ss_asyncDisconnect T h (w_session w) = (s', es)" by fastforce
    show ?thesis unfolding Disconnecting r using disconnect_delta [OF i r] by (intro call [where S = "{#h#}" and R = "{#}"]) auto
  next
    case (SendDone k ec)
    obtain s' es where r: "onSendDone T k ec (w_session w) = (s', es)" by fastforce
    have "unat j < 8 \<and> ss_channelOpen (w_session w) ! unat j" if "k = SendReliable j sq h" for j sq h
      using w SendDone(2) that unfolding winv_def Let_def by blast
    from onSendDone_delta [OF i r this] show ?thesis unfolding SendDone(1) r
      by (intro call [where S = "mset (carried k)" and R = "{#}"]) auto
  qed (use c in \<open>auto simp: ss_start_def ss_cancel_def ss_close_def onSocketRecv_def onRetransmit_def
      onKeepalive_def absorb_def\<close>)
qed

section \<open>A sample session\<close>

definition plainTraits :: "(unit, unit) Traits" where
  "plainTraits = \<lparr>tr_codec = DefaultCodec, tr_ordered = NullCC, tr_unordered = NullCC\<rparr>"

definition plainConfig :: SessionConfig where
  "plainConfig = \<lparr>sc_mtu = 40, sc_keepaliveMs = 5000, sc_timeoutMs = 30000, sc_maxChannels = 8,
     sc_rttAlpha = 0.125, sc_maxHandshakeMs = 5000, sc_recvBufSize = 64,
     sc_channels = [(reliableOrdered 0)\<lparr>cfg_sendWindow := 4\<rparr>, unreliableSequenced 1]\<rparr>"

definition plainSession :: "(unit, unit, nat) Session" where
  "plainSession = newSession () () 0 plainConfig"

definition startedSession :: "(unit, unit, nat) Session" where
  "startedSession = fst (ss_start 1000 9 plainSession)"

definition startedWorld :: "(unit, unit, nat) World" where
  "startedWorld = absorb (ss_start 1000 9 plainSession) (newWorld plainSession)"

definition waitingWorld :: "(unit, unit, nat) World" where
  "waitingWorld = absorb (ss_asyncRecv 0 16 70 (w_session startedWorld))
     (startedWorld\<lparr>w_recvInit := add_mset 70 (w_recvInit startedWorld)\<rparr>)"

definition cancelledWorld :: "(unit, unit, nat) World" where
  "cancelledWorld = absorb (ss_cancel (w_session waitingWorld)) waitingWorld"

lemma sample_reachable:
  "reachable plainTraits plainSession startedWorld" "reachable plainTraits plainSession waitingWorld"
  "reachable plainTraits plainSession cancelledWorld"
proof -
  have "w_session (newWorld plainSession) = plainSession" by (simp add: newWorld_def)
  then have "world_step plainTraits (newWorld plainSession) startedWorld"
    unfolding startedWorld_def by (metis world_step.Start)
  then show s: "reachable plainTraits plainSession startedWorld"
    using reachable.Init reachable.Step by metis
  have "world_step plainTraits startedWorld waitingWorld"
    unfolding waitingWorld_def by (rule world_step.Recv)
  then show v: "reachable plainTraits plainSession waitingWorld"
    using s reachable.Step by metis
  have "world_step plainTraits waitingWorld cancelledWorld"
    unfolding cancelledWorld_def by (rule world_step.Cancel)
  then show "reachable plainTraits plainSession cancelledWorld"
    using v reachable.Step by metis
qed

lemma sample_flags:
  "ss_started (w_session startedWorld) = True" "ss_closed (w_session startedWorld) = False"
  "ss_closed (w_session cancelledWorld) = True" "completedRecvs (w_trace cancelledWorld) = [70]"
  by code_simp+

section \<open>Properties\<close>

text \<open>
  C6: the lifecycle of a session. In every state reachable from construction, by any calls and any
  completions in any order, the policy was told of the connection exactly if the session was
  started and of the disconnection exactly if it is closed, each once, and the socket was closed
  just as often. A started session that is not closed has exactly one receive outstanding, so its
  receive loop never stops and never doubles; before the start there is none; and there is never
  more than one wait on each timer.
\<close>

theorem session_lifecycle:
  assumes "reachable T (newSession ko ku ep cfg) w"
  shows "nOf isOnConnected (w_trace w) = of_bool (ss_started (w_session w))
    \<and> nOf isOnDisconnected (w_trace w) = of_bool (ss_closed (w_session w))
    \<and> nOf isCloseSocket (w_trace w) = of_bool (ss_closed (w_session w))
    \<and> (\<not> ss_closed (w_session w) \<longrightarrow> w_recvs w = of_bool (ss_started (w_session w)))
    \<and> w_recvs w \<le> 1 \<and> w_retx w \<le> 1 \<and> w_keep w \<le> 1"
proof -
  have "winv w" using reachable_winv [OF assms newSession_fresh] .
  then show ?thesis
    by (cases "ss_closed (w_session w)"; cases "ss_started (w_session w)")
      (auto simp: winv_def Let_def pendingOk_def)
qed

theorem session_lifecycle_witness:
  "reachable plainTraits plainSession startedWorld \<and> w_recvs startedWorld = 1
   \<and> nOf isOnConnected (w_trace startedWorld) = 1"
  using session_lifecycle [OF sample_reachable(1) [unfolded plainSession_def]] sample_reachable(1)
  by (simp add: sample_flags)

text \<open>
  C5: every completion handler is called exactly once. In every reachable state the send handlers
  that were called, together with those that travel with a datagram whose send has not completed,
  are exactly those handed in, counted with multiplicity; the receive handlers called, together with
  those parked at a channel, are exactly those handed in. Once the session is closed no receive is
  parked, so every receive handler has been called.
\<close>

theorem handlers_called_exactly_once:
  assumes "reachable T (newSession ko ku ep cfg) w"
  shows "mset (completedSends (w_trace w)) + carriedOf (w_sends w) = w_sendInit w
    \<and> mset (completedRecvs (w_trace w)) + parkedS (w_session w) = w_recvInit w
    \<and> (ss_closed (w_session w) \<longrightarrow> mset (completedRecvs (w_trace w)) = w_recvInit w)"
proof -
  have w: "winv w" using reachable_winv [OF assms newSession_fresh] .
  have "parkedS (w_session w) = {#}" if "ss_closed (w_session w)"
    using w that cv.closedAll_parked [of "ss_channelOpen (w_session w)" "ss_channels (w_session w)"]
    by (simp add: winv_def Let_def sinv_def parkedS_def)
  then show ?thesis using w by (auto simp: winv_def Let_def)
qed

theorem handlers_called_exactly_once_witness:
  "reachable plainTraits plainSession cancelledWorld \<and> w_recvInit cancelledWorld = {#70#}"
  using handlers_called_exactly_once [OF sample_reachable(3) [unfolded plainSession_def]] sample_reachable(3)
  by (simp add: sample_flags)

text \<open>
  C19: a closed session is silent. Whatever call or completion comes after the session has closed,
  it stays closed, no further datagram is sent, no further receive or timer is started, and no
  receive handler stays parked.
\<close>

theorem closed_session_is_silent:
  assumes "reachable T (newSession ko ku ep cfg) w" and "ss_closed (w_session w)" and "world_step T w w'"
  shows "ss_closed (w_session w') \<and> parkedS (w_session w') = {#}
    \<and> (\<exists>es. w_trace w' = w_trace w @ es \<and> datagrams es = []) \<and> w_sends w' \<subseteq># w_sends w
    \<and> w_recvs w' \<le> w_recvs w \<and> w_retx w' \<le> w_retx w \<and> w_keep w' \<le> w_keep w"
proof -
  have w: "winv w" using reachable_winv [OF assms(1) newSession_fresh] .
  from step_delta [OF assms(3) w] obtain S R es where
    d: "w_trace w' = w_trace w @ es" "sdelta (w_session w) S R (w_session w') es" by blast
  have c: "ss_closed (w_session w')" "quiet es" using d(2) assms(2) by (simp_all add: sdelta_def)
  have w': "winv w'" using world_step_winv [OF assms(3) w] .
  have "parkedS (w_session w') = {#}"
    using w' c cv.closedAll_parked [of "ss_channelOpen (w_session w')" "ss_channels (w_session w')"]
    by (simp add: winv_def Let_def sinv_def parkedS_def)
  moreover have "w_sends w' \<subseteq># w_sends w \<and> w_recvs w' \<le> w_recvs w \<and> w_retx w' \<le> w_retx w \<and> w_keep w' \<le> w_keep w"
    using closed_step_counts [OF assms(3) w assms(2)] .
  ultimately show ?thesis using c d(1) by (auto simp: quiet_def)
qed

theorem closed_session_is_silent_witness:
  "ss_closed (w_session cancelledWorld)
   \<and> ss_closed (w_session (absorb (ss_cancel (w_session cancelledWorld)) cancelledWorld))
   \<and> w_sends (absorb (ss_cancel (w_session cancelledWorld)) cancelledWorld) \<subseteq># w_sends cancelledWorld"
  using closed_session_is_silent [OF sample_reachable(3) [unfolded plainSession_def] _ world_step.Cancel]
  by (simp add: sample_flags)



end
