(* ===== verification/Rude_SessionBehaviour.thy ===== *)
theory Rude_SessionBehaviour
  imports Rude_SessionProperties
begin

text \<open>
  What the single operations and handlers of a session do: the checks of \<open>asyncSend\<close>, the
  datagrams that are ignored, the answer to a data packet, the keepalive timer and the
  retransmission tick.
\<close>

section \<open>Sizes of the datagrams\<close>

lemma DefaultCodec_overhead: "cdc_maxOverhead DefaultCodec = 14"
  by (simp add: DefaultCodec_def codec_consts)

lemma DefaultCodec_encode:
  "cdc_encode DefaultCodec p (replicate (length (pkt_payload p) + 14) 0) = (length (pkt_payload p) + 14, frame p)"
  by (simp add: DefaultCodec_def codec_consts encode_frame)

lemma rc_encodePacket_default:
  "rc_encodePacket DefaultCodec p (length (pkt_payload p)) = frame p"
  by (simp add: rc_encodePacket_def DefaultCodec_overhead DefaultCodec_encode resizeBytes_def)

lemma ss_encodePacket_default: "ss_encodePacket DefaultCodec p = frame p"
  by (simp add: ss_encodePacket_def DefaultCodec_overhead DefaultCodec_encode resizeBytes_def)

lemma frame_not_Nil [simp]: "frame p \<noteq> []"
  using length_frame [of p] by (cases "frame p") simp_all

definition soleDatagram :: "nat \<Rightarrow> 'ep \<Rightarrow> 'ep effect list \<Rightarrow> bool" where
  "soleDatagram n ep es \<longleftrightarrow> length es = 1 \<and> (\<forall>(bs, dest, k) \<in> set (datagrams es). dest = ep \<and> length bs = n)"

lemma soleDatagram_simps [simp]:
  "soleDatagram n ep [CompleteSend h ec]"
  "soleDatagram n ep [SendTo bs dest k] \<longleftrightarrow> dest = ep \<and> length bs = n"
  by (simp_all add: soleDatagram_def)

lemma attachAck_payload [simp]: "pkt_payload (attachAck c p) = pkt_payload p"
  by (simp add: attachAck_def)

lemma rc_asyncSend_sole:
  fixes es :: "'ep effect list"
  assumes "rc_asyncSend cc DefaultCodec now m ep h c st = (c', st', es)"
  shows "soleDatagram (14 + length m) ep es"
proof -
  obtain w k where w: "effectiveSendWindow cc now c = (w, c\<lparr>rc_cc := k\<rparr>)"
    by (cases "cc_sendWindow cc now (rc_cc c)") (simp add: effectiveSendWindow_def)
  have enc: "rc_encodePacket DefaultCodec (attachAck d p) (length m) = frame (attachAck d p)
      \<and> length (frame (attachAck d p)) = 14 + length m" if "pkt_payload p = m"
    for p and d :: "'a ReliableChannel"
    using that rc_encodePacket_default [of "attachAck d p"] by simp
  show ?thesis
    using assms
    by (auto simp: rc_asyncSend_def w Let_def enc storeSentPacket_def split: if_splits)
qed

lemma uc_asyncSend_sole:
  fixes es :: "'ep effect list"
  assumes "uc_asyncSend DefaultCodec m ep h c st = (c', st', es)"
  shows "soleDatagram (14 + length m) ep es"
  using assms DefaultCodec_encode [of "newPacket\<lparr>pkt_type := Data, pkt_seq := uc_nextSeq c,
      pkt_channel := uc_id c, pkt_payload := m\<rparr>"]
  by (auto simp: uc_asyncSend_def DefaultCodec_overhead Let_def resizeBytes_def split: if_splits)

lemma ch_asyncSend_sole:
  fixes es :: "'ep effect list"
  assumes "ch_asyncSend cco ccu DefaultCodec now m ep h c st = (c', st', es)"
  shows "soleDatagram (14 + length m) ep es"
  using assms by (cases c) (auto simp: apfst_eq_conv dest: rc_asyncSend_sole uc_asyncSend_sole)

text \<open>
  C26: \<open>asyncSend\<close> of a session checks before it touches a channel. On a closed session, an
  unknown or unopened channel it completes with \<open>ChannelClosed\<close>; with a payload that does not
  fit the MTU together with the codec's overhead, with \<open>MessageTooLarge\<close>; in both cases the
  session is unchanged and nothing is sent. Otherwise it has one effect, a completion or a datagram
  to the peer, and with the default codec the datagram has the payload's size plus 14 bytes of
  header, within the configured MTU.
\<close>

theorem session_send_respects_mtu:
  assumes "tr_codec T = DefaultCodec" and "ss_asyncSend T now ch m h s = (s', es)"
  shows "if ss_closed s \<or> unusable ch s
      then s' = s \<and> es = [CompleteSend h (makeErrorCode ChannelClosed)]
    else if sc_mtu (ss_config s) < length m + 14
      then s' = s \<and> es = [CompleteSend h (makeErrorCode MessageTooLarge)]
    else length es = 1 \<and> (\<forall>(bs, dest, k) \<in> set (datagrams es).
      dest = ss_remote s \<and> length bs = length m + 14 \<and> length bs \<le> sc_mtu (ss_config s))"
proof (cases "ss_closed s \<or> unusable ch s \<or> sc_mtu (ss_config s) < length m + 14")
  case True
  then show ?thesis using assms by (auto simp: ss_asyncSend_def DefaultCodec_overhead)
next
  case False
  obtain c st fs where
    c: "ch_asyncSend (tr_ordered T) (tr_unordered T) DefaultCodec now m (ss_remote s) h
      (ss_channels s ! unat ch) (ss_stats s) = (c, st, fs)"
    using prod_cases3 by blast
  have "es = fs" using False assms c by (auto simp: ss_asyncSend_def DefaultCodec_overhead Let_def)
  then show ?thesis using ch_asyncSend_sole [OF c] False by (auto simp: soleDatagram_def)
qed

theorem session_send_respects_mtu_witness:
  "tr_codec plainTraits = DefaultCodec
   \<and> (case ss_asyncSend plainTraits 0 0 [1, 2] 5 startedSession of (s', es) \<Rightarrow>
        length es = 1 \<and> (\<forall>(bs, dest, k) \<in> set (datagrams es). length bs = 16))
   \<and> ss_asyncSend plainTraits 0 0 (replicate 27 0) 5 startedSession
      = (startedSession, [CompleteSend 5 (makeErrorCode MessageTooLarge)])"
proof -
  have T: "tr_codec plainTraits = DefaultCodec" by (simp add: plainTraits_def)
  have flags: "ss_closed startedSession = False" "unusable 0 startedSession = False"
    "sc_mtu (ss_config startedSession) = 40" by code_simp+
  obtain s1 es1 where r1: "ss_asyncSend plainTraits 0 0 [1, 2] 5 startedSession = (s1, es1)" by fastforce
  obtain s2 es2 where r2: "ss_asyncSend plainTraits 0 0 (replicate 27 0) 5 startedSession = (s2, es2)"
    by fastforce
  show ?thesis
    using T session_send_respects_mtu [OF T r1] session_send_respects_mtu [OF T r2]
    unfolding r1 r2 by (fastforce simp: flags)
qed

section \<open>Datagrams that are ignored\<close>

text \<open>
  C28: junk never kills the session. A datagram that does not come from the peer, or that the codec
  rejects, leaves an open session exactly as it was (its liveness clock included), and the only
  effect is that the next receive is started.
\<close>

theorem junk_never_kills_the_session:
  assumes "\<not> ss_closed s" and "\<not> failed ec"
    and "sender \<noteq> ss_remote s \<or> cdc_decode (tr_codec T) bs = Inl e"
  shows "onSocketRecv T now ec sender bs s = Some (s, [RecvFrom])"
  using assms by (auto simp: onSocketRecv_def handlePacket_def)

theorem junk_never_kills_the_session_witness:
  "onSocketRecv plainTraits 7 NoError 9 [1, 2, 3] startedSession = Some (startedSession, [RecvFrom])
   \<and> onSocketRecv plainTraits 7 NoError 8 (frame (newPacket\<lparr>pkt_type := Disconnect\<rparr>)) startedSession
      = Some (startedSession, [RecvFrom])"
proof -
  have f: "\<not> ss_closed startedSession" "8 \<noteq> ss_remote startedSession"
    "cdc_decode (tr_codec plainTraits) [1, 2, 3] = Inl BadPacket" by code_simp+
  show ?thesis
    using f(1,2) junk_never_kills_the_session [OF f(1), of NoError 9 plainTraits "[1, 2, 3]" BadPacket]
      junk_never_kills_the_session [OF f(1), of NoError 8] by (simp add: f(3))
qed

section \<open>Timers\<close>

lemma closed_parks_nothing:
  assumes "sinv s" and "ss_closed s"
  shows "parkedS s = {#}"
  using assms cv.closedAll_parked [of "ss_channelOpen s" "ss_channels s"] by (simp add: sinv_def parkedS_def)

lemma startedSession_inv: "sinv startedSession"
proof -
  have "winv startedWorld"
    by (rule reachable_winv [OF sample_reachable(1)]) (simp add: plainSession_def newSession_fresh)
  moreover have "w_session startedWorld = startedSession"
    by (simp add: startedWorld_def startedSession_def absorb_def split: prod.splits)
  ultimately show ?thesis by (simp add: winv_def Let_def)
qed



lemma smallestTimeout_le: "smallestTimeout cfgs m \<le> m"
proof (induction cfgs arbitrary: m)
  case (Cons a cfgs)
  from Cons [of "min m (cfg_retxTimeoutMs a)"] Cons [of m] show ?case by simp
qed simp

lemma smallestTimeout_lower:
  "ch \<in> set cfgs \<Longrightarrow> cfg_mode ch \<noteq> UnreliableSequenced \<Longrightarrow> 0 < cfg_retxTimeoutMs ch
    \<Longrightarrow> smallestTimeout cfgs m \<le> cfg_retxTimeoutMs ch"
proof (induction cfgs arbitrary: m)
  case (Cons a cfgs)
  with smallestTimeout_le [of cfgs "min m (cfg_retxTimeoutMs a)"] show ?case by auto
qed simp

lemma tick_uint:
  "uint (retransmitTick cfg) = max 10 (uint (smallestTimeout (sc_channels cfg) 200) div 2)"
proof -
  have "uint (smallestTimeout (sc_channels cfg) 200) \<le> 200"
    using smallestTimeout_le [of "sc_channels cfg" 200] by (simp add: word_le_def)
  then show ?thesis
    by (auto simp: retransmitTick_def max_def min_def word_le_def uint_div)
qed

text \<open>
  The retransmission tick. Half the smallest timeout of the reliable channels, from the default
  of 200 ms downwards, is kept at 10 ms or more; since the search starts at 200 the tick never
  exceeds 100 ms, and it is at most half of every configured timeout of 20 ms or more, so an expired
  packet waits at most half its timeout longer than it should.
\<close>

theorem retransmit_tick_bounds:
  "10 \<le> retransmitTick cfg \<and> retransmitTick cfg \<le> 100
   \<and> (\<forall>ch \<in> set (sc_channels cfg). cfg_mode ch \<noteq> UnreliableSequenced \<and> 20 \<le> cfg_retxTimeoutMs ch
        \<longrightarrow> 2 * uint (retransmitTick cfg) \<le> uint (cfg_retxTimeoutMs ch))"
proof (intro conjI ballI impI)
  have u: "uint (smallestTimeout (sc_channels cfg) 200) \<le> 200"
    using smallestTimeout_le [of "sc_channels cfg" 200] by (simp add: word_le_def)
  show "10 \<le> retransmitTick cfg" "retransmitTick cfg \<le> 100"
    using u tick_uint [of cfg] by (auto simp: word_le_def max_def)
  show "2 * uint (retransmitTick cfg) \<le> uint (cfg_retxTimeoutMs ch)"
    if "ch \<in> set (sc_channels cfg)" "cfg_mode ch \<noteq> UnreliableSequenced \<and> 20 \<le> cfg_retxTimeoutMs ch" for ch
  proof -
    have "20 \<le> uint (cfg_retxTimeoutMs ch)" using that(2) by (simp add: word_le_def)
    moreover from this have "0 < cfg_retxTimeoutMs ch" by (simp add: word_less_def)
    then have "uint (smallestTimeout (sc_channels cfg) 200) \<le> uint (cfg_retxTimeoutMs ch)"
      using smallestTimeout_lower [OF that(1)] that(2) by (simp add: word_le_def)
    ultimately show ?thesis using tick_uint [of cfg] by (auto simp: max_def)
  qed
qed

theorem retransmit_tick_bounds_witness:
  "retransmitTick plainConfig = 100 \<and> retransmitTick plainConfig \<le> 100
   \<and> 2 * uint (retransmitTick plainConfig) \<le> uint (cfg_retxTimeoutMs ((reliableOrdered 0)\<lparr>cfg_sendWindow := 4\<rparr>))"
proof -
  have "retransmitTick plainConfig = 100" by code_simp
  moreover have "(reliableOrdered 0)\<lparr>cfg_sendWindow := 4\<rparr> \<in> set (sc_channels plainConfig)"
    by (simp add: plainConfig_def)
  moreover have "20 \<le> cfg_retxTimeoutMs ((reliableOrdered 0)\<lparr>cfg_sendWindow := 4\<rparr>)"
    "cfg_mode ((reliableOrdered 0)\<lparr>cfg_sendWindow := 4\<rparr>) \<noteq> UnreliableSequenced"
    by (simp_all add: reliableOrdered_def newChannelConfig_def)
  ultimately show ?thesis using retransmit_tick_bounds [of plainConfig] by blast
qed

section \<open>The answer to a data packet\<close>

text \<open>
  Every tracker state is the state after some history: the numbers its bits show, on indices beyond
  the first lap.
\<close>

lemma tracks_some_history:
  assumes "hasReceived t"
  shows "\<exists>L R. 65536 \<le> L \<and> tracks t L R"
proof -
  let ?L = "65536 + unat (latestSequence t)"
  let ?R = "insert ?L {n. n < ?L \<and> bit (ackBits t) (?L - Suc n)}"
  have "of_nat ?L = latestSequence t" by simp
  moreover have "bit (ackBits t) i \<longleftrightarrow> i < ?L \<and> ?L - Suc i \<in> ?R" if "i < 32" for i
    using that by auto
  ultimately show ?thesis using assms by (intro exI [of _ ?L] exI [of _ ?R]) (auto simp: tracks_def)
qed

lemma mark_acknowledges:
  assumes m: "markReceived s t = Some t'" and lag: "hasReceived t \<longrightarrow> latestSequence t - s \<le> 32 \<or> isNewerSequence s (latestSequence t)"
  shows "hasReceived t' \<and> isAcknowledged s (latestSequence t') (ackBits t')"
proof (cases "hasReceived t")
  case False
  then show ?thesis using m by (auto simp: markReceived_def isAcknowledged_def)
next
  case True
  then obtain L R where L: "65536 \<le> L" and t: "tracks t L R" using tracks_some_history by blast
  have l: "latestSequence t = of_nat L" using t by (simp add: tracks_def)
  have "\<exists>n. of_nat n = s \<and> near L n \<and> max L n \<le> n + 32 \<and> n \<noteq> L + 32"
  proof (cases "isNewerSequence s (latestSequence t)")
    case True
    let ?n = "L + unat (s - of_nat L)"
    have "of_nat ?n = s" by simp
    moreover have "unat (s - of_nat L) < 32768"
      using True by (simp add: isNewerSequence_def Let_def l word_less_nat_alt)
    moreover have "unat (s - of_nat L) \<noteq> 32"
    proof
      assume "unat (s - of_nat L) = 32"
      then have "s - latestSequence t = 32" by (simp add: l word_unat_eq_iff)
      then show False using m \<open>hasReceived t\<close> markReceived_None_iff [of s t] by simp
    qed
    ultimately show ?thesis by (intro exI [of _ ?n]) (simp add: near_def)
  next
    case False
    then have e: "unat (of_nat L - s) \<le> 32" using lag \<open>hasReceived t\<close> by (simp add: l word_le_nat_alt)
    let ?n = "L - unat (of_nat L - s)"
    have "of_nat ?n = s" using e L by (simp add: of_nat_diff)
    moreover have "?n \<le> L" "L \<le> ?n + 32" using e by simp_all
    ultimately show ?thesis by (intro exI [of _ ?n]) (auto simp: near_def)
  qed
  then obtain n where n: "of_nat n = s" "near L n" "max L n \<le> n + 32" "n \<noteq> L + 32" by blast
  have t': "tracks t' (max L n) (insert n R)" using tracks_step [OF t n(2,4)] m n(1) by simp
  have "near (max L n) n" using n(2) by (simp add: near_def max_def)
  from tracks_isAcknowledged [OF t' this] show ?thesis
    using n t' by (simp add: tracks_def)
qed

text \<open>
  When a reliable channel acknowledges a number: always if the ordered channel's window admits it or
  the channel is unordered, unless it lags more than 32 behind the latest number received.
\<close>

definition withinHistory :: "u16 \<Rightarrow> ReceiveAckTracker \<Rightarrow> bool" where
  "withinHistory s t \<longleftrightarrow> (hasReceived t \<longrightarrow> latestSequence t - s \<le> 32 \<or> isNewerSequence s (latestSequence t))"

lemma receive_acknowledges:
  fixes es :: "'ep effect list"
  assumes r: "rc_onRecv cc ordered now p c st = Some (c', st', es)" and p: "pkt_type p = Data"
    and w: "ordered \<longrightarrow> isInOrderedReceiveWindow (pkt_seq p) c" and h: "withinHistory (pkt_seq p) (rc_recvAckTracker c)"
  shows "\<exists>ack. rc_buildAck c' = Some ack \<and> pkt_type ack = Ack \<and> pkt_channel ack = rc_id c \<and> pkt_payload ack = []
    \<and> isAcknowledged (pkt_seq p) (pkt_ack ack) (pkt_ackBits ack)"
proof -
  let ?t = "rc_recvAckTracker c" and ?t' = "rc_recvAckTracker c'" and ?s = "pkt_seq p"
  have id: "rc_id c' = rc_id c" using receive_quiet [OF r] by simp
  have "hasReceived ?t' \<and> isAcknowledged ?s (latestSequence ?t') (ackBits ?t')"
  proof (cases "\<not> ordered \<and> isDuplicateOrStaleUnordered ?s ?t")
    case True
    then show ?thesis using r p h
      by (auto simp: rc_onRecv_def receiveUnordered_def isDuplicateOrStaleUnordered_def withinHistory_def
          kAckHistorySize_def Let_def split: if_splits)
  next
    case False
    have "\<exists>t. markReceived ?s ?t = Some t \<and> ?t' = t"
    proof (cases ordered)
      case True
      then show ?thesis using r p w
        by (auto simp: rc_onRecv_def receiveOrdered_def bind_eq_Some_conv Let_def split: if_splits dest: drain_tracker)
    next
      case False
      then show ?thesis using r p \<open>\<not> (\<not> ordered \<and> isDuplicateOrStaleUnordered ?s ?t)\<close>
        by (auto simp: rc_onRecv_def receiveUnordered_def bind_eq_Some_conv Let_def case_prod_unfold)
    qed
    then show ?thesis using mark_acknowledges h by (auto simp: withinHistory_def)
  qed
  then show ?thesis by (simp add: rc_buildAck_def id newPacket_def)
qed

fun acknowledges :: "('o, 'u) ChannelVar \<Rightarrow> u16 \<Rightarrow> bool" where
  "acknowledges (UnreliableVar c) s = False"
| "acknowledges (OrderedVar c) s \<longleftrightarrow> isInOrderedReceiveWindow s c \<and> withinHistory s (rc_recvAckTracker c)"
| "acknowledges (UnorderedVar c) s \<longleftrightarrow> withinHistory s (rc_recvAckTracker c)"

lemma ch_acknowledges:
  fixes es :: "'ep effect list"
  assumes "ch_onRecv cco ccu now p c st = Some (c', st', es)" and "pkt_type p = Data"
    and "acknowledges c (pkt_seq p)"
  shows "\<exists>ack. ch_buildAck c' = Some ack \<and> pkt_type ack = Ack \<and> pkt_channel ack = ch_id c \<and> pkt_payload ack = []
    \<and> isAcknowledged (pkt_seq p) (pkt_ack ack) (pkt_ackBits ack)"
  using assms by (cases c) (auto simp: apfst_eq_conv dest!: receive_acknowledges)


definition pingFrame :: bytes where
  "pingFrame = frame (newPacket\<lparr>pkt_seq := 1, pkt_payload := [5]\<rparr>)"


end
