(* ===== verification/Rude_Handshake.thy ===== *)
theory Rude_Handshake
  imports Rude_SessionBehaviour
begin

text \<open>
  \<^verbatim>\<open>detail/Handshake.hpp\<close>: the client side of the two-packet handshake, as one function per
  static member and per completion lambda, and a world in which the socket and the retry timer
  complete in any order. The endpoint's \<open>address()\<close> belongs to Boost.Asio; it is the argument
  \<open>address\<close> of the definitions that compare addresses.
\<close>

section \<open>State and effects\<close>

text \<open>
  \<open>ClientState\<close> without the buffers of the socket and the timer object. Times are nanoseconds,
  the retry interval is in milliseconds.
\<close>

record 'ep ClientState =
  hs_server :: 'ep
  hs_sendBuffer :: bytes
  hs_deadline :: time_ns
  hs_retryInterval :: int
  hs_done :: bool

text \<open>
  \<open>HandshakeDone ec ep\<close> runs the completion handler; \<open>None\<close> is the default-constructed endpoint.
\<close>

datatype 'ep hs_effect =
    InitTo bytes 'ep
  | AwaitDatagram
  | ArmRetry int
  | CancelRetry
  | HandshakeDone error_code "'ep option"
  | CancelReceive

definition bufferSize :: nat where "bufferSize = 1500"

section \<open>Operations\<close>

definition hs_complete ::
  "error_code \<Rightarrow> 'ep option \<Rightarrow> 'ep ClientState \<Rightarrow> 'ep ClientState \<times> 'ep hs_effect list" where
  "hs_complete ec adopted s =
     (if hs_done s then (s, [])
      else (s\<lparr>hs_done := True\<rparr>, [CancelRetry, HandshakeDone ec adopted]))"

definition sendInit :: "PacketCodec \<Rightarrow> 'ep ClientState \<Rightarrow> 'ep ClientState \<times> 'ep hs_effect list" where
  "sendInit codec s =
     (let init = newPacket\<lparr>pkt_type := HandshakeInit\<rparr>;
          (encodedSize, buf) = cdc_encode codec init (hs_sendBuffer s);
          s = s\<lparr>hs_sendBuffer := buf\<rparr>
      in if encodedSize = 0 then hs_complete (makeErrorCode BadPacket) None s
         else (s, [InitTo (take encodedSize (hs_sendBuffer s)) (hs_server s)]))"

text \<open>The completion of \<open>receiveNext\<close>.\<close>

definition onHandshakeRecv ::
  "('ep \<Rightarrow> 'a) \<Rightarrow> PacketCodec \<Rightarrow> error_code \<Rightarrow> 'ep \<Rightarrow> bytes \<Rightarrow> 'ep ClientState
    \<Rightarrow> 'ep ClientState \<times> 'ep hs_effect list" where
  "onHandshakeRecv address codec ec sender bs s =
     (if hs_done s then (s, [])
      else if failed ec then hs_complete ec None s
      else
        case cdc_decode codec bs of
          Inr p \<Rightarrow>
            if pkt_type p = HandshakeAck \<and> address sender = address (hs_server s)
            then hs_complete NoError (Some sender) s
            else (s, [AwaitDatagram])
        | Inl e \<Rightarrow> (s, [AwaitDatagram]))"

text \<open>The completion of the timer wait in \<open>scheduleRetry\<close>.\<close>

definition onRetryTimer ::
  "PacketCodec \<Rightarrow> time_ns \<Rightarrow> error_code \<Rightarrow> 'ep ClientState \<Rightarrow> 'ep ClientState \<times> 'ep hs_effect list" where
  "onRetryTimer codec now ec s =
     (if failed ec \<or> hs_done s then (s, [])
      else if hs_deadline s \<le> now then
        let (s, es) = hs_complete (makeErrorCode Timeout) None s in (s, es @ [CancelReceive])
      else
        let (s, es) = sendInit codec s in (s, es @ [ArmRetry (hs_retryInterval s)]))"

definition handshakeTimeout :: "SessionConfig \<Rightarrow> int" where
  "handshakeTimeout cfg = (if sc_maxHandshakeMs cfg = 0 then 5000 else uint (sc_maxHandshakeMs cfg))"

definition handshakeRetry :: "SessionConfig \<Rightarrow> int" where
  "handshakeRetry cfg = max 100 (min 1000 (handshakeTimeout cfg div 5))"

definition asyncClientHandshake ::
  "PacketCodec \<Rightarrow> time_ns \<Rightarrow> 'ep \<Rightarrow> SessionConfig \<Rightarrow> 'ep ClientState \<times> 'ep hs_effect list" where
  "asyncClientHandshake codec now server cfg =
     (let timeout = handshakeTimeout cfg;
          retry = handshakeRetry cfg;
          s = \<lparr>hs_server = server, hs_sendBuffer = replicate bufferSize 0,
               hs_deadline = now + millis timeout, hs_retryInterval = retry, hs_done = False\<rparr>;
          (s, es) = sendInit codec s
      in (s, es @ [AwaitDatagram, ArmRetry (hs_retryInterval s)]))"

section \<open>The world of a handshake\<close>

text \<open>
  The wait on the retry timer: none, one that expires at a time, or one that was cancelled. A
  cancelled wait completes with \<open>operation_aborted\<close>, or with success if it had already expired
  and its completion was queued. A wait never completes before its expiry.
\<close>

datatype timer_wait = NoWait | Waiting time_ns | Cancelled

record 'ep HandshakeWorld =
  hw_state :: "'ep ClientState"
  hw_now :: time_ns
  hw_recvs :: nat
  hw_timer :: timer_wait
  hw_trace :: "'ep hs_effect list"

fun timerAfter :: "time_ns \<Rightarrow> timer_wait \<Rightarrow> 'ep hs_effect list \<Rightarrow> timer_wait" where
  "timerAfter now t [] = t"
| "timerAfter now t (ArmRetry ms # es) = timerAfter now (Waiting (now + millis ms)) es"
| "timerAfter now t (CancelRetry # es) = timerAfter now (if t = NoWait then NoWait else Cancelled) es"
| "timerAfter now t (e # es) = timerAfter now t es"

definition awaits :: "'ep hs_effect list \<Rightarrow> nat" where
  "awaits es = length (filter (\<lambda>e. e = AwaitDatagram) es)"

definition hs_absorb ::
  "time_ns \<Rightarrow> 'ep ClientState \<times> 'ep hs_effect list \<Rightarrow> 'ep HandshakeWorld \<Rightarrow> 'ep HandshakeWorld" where
  "hs_absorb now r w =
     w\<lparr>hw_state := fst r, hw_now := now, hw_recvs := hw_recvs w + awaits (snd r),
       hw_timer := timerAfter now (hw_timer w) (snd r), hw_trace := hw_trace w @ snd r\<rparr>"

definition handshakeBegun ::
  "PacketCodec \<Rightarrow> time_ns \<Rightarrow> 'ep \<Rightarrow> SessionConfig \<Rightarrow> 'ep HandshakeWorld" where
  "handshakeBegun codec now server cfg =
     (let r = asyncClientHandshake codec now server cfg
      in hs_absorb now r \<lparr>hw_state = fst r, hw_now = now, hw_recvs = 0, hw_timer = NoWait, hw_trace = []\<rparr>)"

inductive hs_step ::
  "('ep \<Rightarrow> 'a) \<Rightarrow> PacketCodec \<Rightarrow> 'ep HandshakeWorld \<Rightarrow> 'ep HandshakeWorld \<Rightarrow> bool"
  for address codec where
    Datagram: "0 < hw_recvs w \<Longrightarrow> hw_now w \<le> now \<Longrightarrow>
      hs_step address codec w
        (hs_absorb now (onHandshakeRecv address codec ec sender bs (hw_state w)) (w\<lparr>hw_recvs := hw_recvs w - 1\<rparr>))"
  | Tick: "hw_timer w = Waiting t \<Longrightarrow> t \<le> now \<Longrightarrow> hw_now w \<le> now \<Longrightarrow>
      hs_step address codec w
        (hs_absorb now (onRetryTimer codec now NoError (hw_state w)) (w\<lparr>hw_timer := NoWait\<rparr>))"
  | Aborted: "hw_timer w = Cancelled \<Longrightarrow> hw_now w \<le> now \<Longrightarrow>
      hs_step address codec w
        (hs_absorb now (onRetryTimer codec now ec (hw_state w)) (w\<lparr>hw_timer := NoWait\<rparr>))"

inductive hs_reachable ::
  "('ep \<Rightarrow> 'a) \<Rightarrow> PacketCodec \<Rightarrow> 'ep HandshakeWorld \<Rightarrow> 'ep HandshakeWorld \<Rightarrow> bool"
  for address codec w0 where
    Begin: "hs_reachable address codec w0 w0"
  | Continue: "hs_reachable address codec w0 w \<Longrightarrow> hs_step address codec w w' \<Longrightarrow> hs_reachable address codec w0 w'"

inductive_cases hs_stepE: "hs_step address codec w w'"

section \<open>The invariant\<close>

definition isDone :: "'ep hs_effect \<Rightarrow> bool" where
  "isDone e \<longleftrightarrow> (\<exists>ec ep. e = HandshakeDone ec ep)"

definition isInit :: "'ep hs_effect \<Rightarrow> bool" where
  "isInit e \<longleftrightarrow> (\<exists>bs ep. e = InitTo bs ep)"

abbreviation inits :: "'ep hs_effect list \<Rightarrow> nat" where
  "inits es \<equiv> length (filter isInit es)"

abbreviation dones :: "'ep hs_effect list \<Rightarrow> nat" where
  "dones es \<equiv> length (filter isDone es)"

lemma hs_effect_counts [simp]:
  "isDone (InitTo bs ep) = False" "isDone AwaitDatagram = False" "isDone (ArmRetry r) = False"
  "isDone CancelRetry = False" "isDone (HandshakeDone ec ea) = True" "isDone CancelReceive = False"
  "isInit (InitTo bs ep) = True" "isInit AwaitDatagram = False" "isInit (ArmRetry r) = False"
  "isInit CancelRetry = False" "isInit (HandshakeDone ec ea) = False" "isInit CancelReceive = False"
  "awaits [] = 0" "awaits (AwaitDatagram # es) = Suc (awaits es)" "awaits (InitTo bs ep # es) = awaits es"
  "awaits (ArmRetry r # es) = awaits es" "awaits (CancelRetry # es) = awaits es"
  "awaits (HandshakeDone ec ea # es) = awaits es" "awaits (CancelReceive # es) = awaits es"
  by (auto simp: isDone_def isInit_def awaits_def)

text \<open>
  What may appear in the trace: initial frames to the server only; a completion that reports an
  error without an endpoint, or success with an endpoint at the server's address.
\<close>

fun hs_allowed :: "('ep \<Rightarrow> 'a) \<Rightarrow> PacketCodec \<Rightarrow> 'ep \<Rightarrow> 'ep hs_effect \<Rightarrow> bool" where
  "hs_allowed address codec server (InitTo bs ep) \<longleftrightarrow> ep = server
     \<and> (\<exists>p. cdc_decode codec bs = Inr p \<and> pkt_type p = HandshakeInit)"
| "hs_allowed address codec server (HandshakeDone ec ea) \<longleftrightarrow>
     (if failed ec then ea = None else ec = NoError \<and> (\<exists>ep. ea = Some ep \<and> address ep = address server))"
| "hs_allowed address codec server e = True"

text \<open>
  While the handshake is open one receive and one wait are outstanding; the wait for round \<open>n + 1\<close>
  expires \<open>n\<close> intervals after the start or later, and at most one interval after the deadline.
\<close>

definition hs_inv :: "('ep \<Rightarrow> 'a) \<Rightarrow> PacketCodec \<Rightarrow> time_ns \<Rightarrow> 'ep \<Rightarrow> SessionConfig \<Rightarrow> 'ep HandshakeWorld \<Rightarrow> bool" where
  "hs_inv address codec t0 server cfg w \<longleftrightarrow>
     (let s = hw_state w; r = hs_retryInterval s; n = int (inits (hw_trace w)) in
      hs_server s = server \<and> hs_deadline s = t0 + millis (handshakeTimeout cfg)
      \<and> r = handshakeRetry cfg
      \<and> cdc_maxOverhead codec \<le> length (hs_sendBuffer s)
      \<and> dones (hw_trace w) = of_bool (hs_done s)
      \<and> list_all (hs_allowed address codec server) (hw_trace w)
      \<and> 1 \<le> n \<and> (n - 1) * r \<le> handshakeTimeout cfg
      \<and> hw_recvs w \<le> 1
      \<and> (\<not> hs_done s \<longrightarrow> hw_recvs w = 1
           \<and> (\<exists>t. hw_timer w = Waiting t \<and> t0 + millis (n * r) \<le> t \<and> t \<le> hs_deadline s + millis r)))"

text \<open>A completed receive leaves a finished handshake alone, goes on waiting, or completes it.\<close>

lemma onHandshakeRecv_cases:
  assumes "onHandshakeRecv address codec ec sender bs s = r"
  obtains (finished) "hs_done s" "r = (s, [])"
    | (waiting) "\<not> hs_done s" "r = (s, [AwaitDatagram])"
    | (completing) fc ea where "\<not> hs_done s" "r = (s\<lparr>hs_done := True\<rparr>, [CancelRetry, HandshakeDone fc ea])"
        "hs_allowed address codec (hs_server s) (HandshakeDone fc ea)"
proof -
  have "hs_allowed address codec (hs_server s) (HandshakeDone NoError (Some sender))"
    if "address sender = address (hs_server s)"
    using that by simp
  moreover have "hs_allowed address codec (hs_server s) (HandshakeDone ec None)" if "failed ec"
    using that by simp
  ultimately show thesis
    using assms that
    by (auto simp: onHandshakeRecv_def hs_complete_def simp del: hs_allowed.simps split: sum.splits if_splits)
qed

context packet_codec
begin

lemma sendInit_ok:
  assumes "cdc_maxOverhead codec \<le> length (hs_sendBuffer s)"
  shows "\<exists>buf bs p. sendInit codec s = (s\<lparr>hs_sendBuffer := buf\<rparr>, [InitTo bs (hs_server s)])
    \<and> length buf = length (hs_sendBuffer s) \<and> cdc_decode codec bs = Inr p \<and> pkt_type p = HandshakeInit"
proof -
  let ?p = "newPacket\<lparr>pkt_type := HandshakeInit\<rparr>"
  obtain n buf where e: "cdc_encode codec ?p (hs_sendBuffer s) = (n, buf)" by fastforce
  have p: "length (pkt_payload ?p) + cdc_maxOverhead codec \<le> length (hs_sendBuffer s)"
    using assms by (simp add: newPacket_def)
  from encode_fits [OF p e] decode_encode [OF p e] show ?thesis
    by (auto simp: sendInit_def e)
qed

lemma begun_inv:
  assumes "cdc_maxOverhead codec \<le> bufferSize"
  shows "hs_inv address codec t0 server cfg (handshakeBegun codec t0 server cfg)"
proof -
  let ?r = "handshakeRetry cfg"
  let ?s = "\<lparr>hs_server = server, hs_sendBuffer = replicate bufferSize 0,
    hs_deadline = t0 + millis (handshakeTimeout cfg), hs_retryInterval = ?r, hs_done = False\<rparr>"
  have t: "0 \<le> handshakeTimeout cfg" "0 \<le> handshakeRetry cfg"
    by (simp_all add: handshakeTimeout_def handshakeRetry_def)
  from sendInit_ok [of ?s] assms obtain buf bs p where
    i: "sendInit codec ?s = (?s\<lparr>hs_sendBuffer := buf\<rparr>, [InitTo bs server])"
      "length buf = bufferSize" "cdc_decode codec bs = Inr p" "pkt_type p = HandshakeInit"
    by auto
  then have a: "asyncClientHandshake codec t0 server cfg
      = (?s\<lparr>hs_sendBuffer := buf\<rparr>, [InitTo bs server, AwaitDatagram, ArmRetry ?r])"
    by (simp add: asyncClientHandshake_def Let_def)
  show ?thesis
    using i assms t by (simp add: hs_inv_def handshakeBegun_def a hs_absorb_def Let_def)
qed

lemma step_inv:
  assumes i: "hs_inv address codec t0 server cfg w" and s: "hs_step address codec w w'"
  shows "hs_inv address codec t0 server cfg w'"
  using s
proof (cases rule: hs_step.cases)
  case (Datagram now ec sender bs)
  have sv: "hs_server (hw_state w) = server" using i by (simp add: hs_inv_def Let_def)
  show ?thesis
    unfolding Datagram(1)
    by (rule onHandshakeRecv_cases [of address codec ec sender bs "hw_state w", OF refl])
      (use i Datagram(2) in \<open>auto simp: hs_inv_def hs_absorb_def Let_def sv simp del: hs_allowed.simps(2)\<close>)
next
  case (Tick t now)
  show ?thesis
  proof (cases "hs_done (hw_state w) \<or> hs_deadline (hw_state w) \<le> now")
    case True
    then show ?thesis using i Tick
      by (auto simp: hs_inv_def hs_absorb_def onRetryTimer_def hs_complete_def Let_def)
  next
    case False
    have "cdc_maxOverhead codec \<le> length (hs_sendBuffer (hw_state w))" using i by (simp add: hs_inv_def Let_def)
    from sendInit_ok [OF this] obtain buf bs p where
      b: "sendInit codec (hw_state w) = ((hw_state w)\<lparr>hs_sendBuffer := buf\<rparr>, [InitTo bs (hs_server (hw_state w))])"
        "length buf = length (hs_sendBuffer (hw_state w))" "cdc_decode codec bs = Inr p" "pkt_type p = HandshakeInit"
      by auto
    have "int (inits (hw_trace w)) * hs_retryInterval (hw_state w) \<le> handshakeTimeout cfg"
      using i False Tick by (auto simp: hs_inv_def Let_def)
    then show ?thesis using i False Tick b
      by (auto simp: hs_inv_def hs_absorb_def onRetryTimer_def Let_def algebra_simps)
  qed
next
  case (Aborted now ec)
  then show ?thesis using i
    by (auto simp: hs_inv_def hs_absorb_def onRetryTimer_def Let_def)
qed

lemma reachable_inv:
  assumes "cdc_maxOverhead codec \<le> bufferSize" and "hs_reachable address codec (handshakeBegun codec t0 server cfg) w"
  shows "hs_inv address codec t0 server cfg w"
  using assms(2)
  by (induction rule: hs_reachable.induct) (auto intro: begun_inv [OF assms(1)] step_inv)

end

lemma default_inv:
  "hs_reachable address DefaultCodec (handshakeBegun DefaultCodec t0 server cfg) w
    \<Longrightarrow> hs_inv address DefaultCodec t0 server cfg w"
  by (rule default_codec.reachable_inv) (simp_all add: DefaultCodec_overhead bufferSize_def)

section \<open>A sample handshake\<close>

text \<open>Endpoints are pairs of an address and a port; the server listens at address 1, port 9000.\<close>

definition begunWorld :: "(nat \<times> nat) HandshakeWorld" where
  "begunWorld = handshakeBegun DefaultCodec 0 (1, 9000) plainConfig"

definition retriedWorld :: "(nat \<times> nat) HandshakeWorld" where
  "retriedWorld = hs_absorb (millis 1000) (onRetryTimer DefaultCodec (millis 1000) NoError (hw_state begunWorld))
     (begunWorld\<lparr>hw_timer := NoWait\<rparr>)"

definition ackFrame :: bytes where
  "ackFrame = frame (newPacket\<lparr>pkt_type := HandshakeAck\<rparr>)"

definition answeredWorld :: "(nat \<times> nat) HandshakeWorld" where
  "answeredWorld = hs_absorb (millis 1001)
     (onHandshakeRecv fst DefaultCodec NoError (1, 77) ackFrame (hw_state retriedWorld))
     (retriedWorld\<lparr>hw_recvs := hw_recvs retriedWorld - 1\<rparr>)"

abbreviation sampleBegun :: "(nat \<times> nat) HandshakeWorld \<Rightarrow> bool" where
  "sampleBegun \<equiv> hs_reachable fst DefaultCodec (handshakeBegun DefaultCodec 0 (1, 9000) plainConfig)"

lemma initFrame:
  assumes "14 \<le> length (hs_sendBuffer s)"
  shows "sendInit DefaultCodec s
    = (s\<lparr>hs_sendBuffer := frame (newPacket\<lparr>pkt_type := HandshakeInit\<rparr>) @ drop 14 (hs_sendBuffer s)\<rparr>,
       [InitTo (frame (newPacket\<lparr>pkt_type := HandshakeInit\<rparr>)) (hs_server s)])"
proof -
  have "pkt_payload (newPacket\<lparr>pkt_type := HandshakeInit\<rparr>) = []" by (simp add: newPacket_def)
  then show ?thesis
    using assms by (simp add: sendInit_def DefaultCodec_def encode_frame codec_consts)
qed

lemma sample_handshake:
  "sampleBegun begunWorld" "\<not> hs_done (hw_state begunWorld)" "hw_timer begunWorld = Waiting (millis 1000)"
  "sampleBegun retriedWorld" "\<not> hs_done (hw_state retriedWorld)" "inits (hw_trace retriedWorld) = 2"
  "sampleBegun answeredWorld" "hs_done (hw_state answeredWorld)"
  "HandshakeDone NoError (Some (1, 77)) \<in> set (hw_trace answeredWorld)"
proof -
  have t: "handshakeTimeout plainConfig = 5000" "handshakeRetry plainConfig = 1000"
    by (simp_all add: handshakeTimeout_def handshakeRetry_def plainConfig_def)
  show b: "sampleBegun begunWorld" unfolding begunWorld_def by (rule hs_reachable.Begin)
  have s: "\<exists>buf. length buf = 1500 \<and> hw_state begunWorld = \<lparr>hs_server = (1, 9000), hs_sendBuffer = buf,
        hs_deadline = millis 5000, hs_retryInterval = 1000, hs_done = False\<rparr>"
    and tm: "hw_timer begunWorld = Waiting (millis 1000)" "hw_now begunWorld = 0" "hw_recvs begunWorld = 1"
    and i1: "inits (hw_trace begunWorld) = 1"
    by (simp_all add: begunWorld_def handshakeBegun_def asyncClientHandshake_def hs_absorb_def t Let_def initFrame
        bufferSize_def newPacket_def)
  then obtain buf where buf: "length buf = 1500" and st: "hw_state begunWorld = \<lparr>hs_server = (1, 9000),
      hs_sendBuffer = buf, hs_deadline = millis 5000, hs_retryInterval = 1000, hs_done = False\<rparr>" by auto
  show "\<not> hs_done (hw_state begunWorld)" "hw_timer begunWorld = Waiting (millis 1000)" using st tm by simp_all
  have "hs_step fst DefaultCodec begunWorld retriedWorld"
    unfolding retriedWorld_def using tm by (intro hs_step.Tick [where t = "millis 1000"]) simp_all
  with b show r: "sampleBegun retriedWorld" by (rule hs_reachable.Continue)
  have rs: "\<not> hs_done (hw_state retriedWorld)" "inits (hw_trace retriedWorld) = 2" "hw_recvs retriedWorld = 1"
      "hw_now retriedWorld = millis 1000" "hs_server (hw_state retriedWorld) = (1, 9000)"
    using buf tm i1 by (simp_all add: retriedWorld_def hs_absorb_def onRetryTimer_def st initFrame Let_def)
  then show "\<not> hs_done (hw_state retriedWorld)" "inits (hw_trace retriedWorld) = 2" by simp_all
  have "hs_step fst DefaultCodec retriedWorld answeredWorld"
    unfolding answeredWorld_def using rs by (intro hs_step.Datagram) simp_all
  with r show "sampleBegun answeredWorld" by (rule hs_reachable.Continue)
  have "\<exists>p. cdc_decode DefaultCodec ackFrame = Inr p \<and> pkt_type p = HandshakeAck"
    using decode_frame [of "newPacket\<lparr>pkt_type := HandshakeAck\<rparr>"] by (simp add: DefaultCodec_def ackFrame_def)
  then show "hs_done (hw_state answeredWorld)"
      "HandshakeDone NoError (Some (1, 77)) \<in> set (hw_trace answeredWorld)"
    using rs by (auto simp: answeredWorld_def hs_absorb_def onHandshakeRecv_def hs_complete_def)
qed

section \<open>Properties\<close>

text \<open>
  C14: the outcome of a handshake. In every state it can reach, whatever datagrams arrive and in
  whatever order socket and timer complete, the completion handler was called exactly if the
  handshake is done, and only once. It reports either an error, without an endpoint, or success with
  an endpoint at the server's address. Every datagram the handshake sends is an initial frame to
  the server. While it is open, exactly one receive and one timer wait are outstanding, so it is
  never stuck.
\<close>

theorem handshake_handler_called_once:
  assumes "hs_reachable address DefaultCodec (handshakeBegun DefaultCodec t0 server cfg) w"
  shows "dones (hw_trace w) = of_bool (hs_done (hw_state w))
    \<and> (\<forall>ec ea. HandshakeDone ec ea \<in> set (hw_trace w) \<longrightarrow>
         (if failed ec then ea = None else ec = NoError \<and> (\<exists>ep. ea = Some ep \<and> address ep = address server)))
    \<and> (\<forall>bs ep. InitTo bs ep \<in> set (hw_trace w) \<longrightarrow>
         ep = server \<and> (\<exists>p. cdc_decode DefaultCodec bs = Inr p \<and> pkt_type p = HandshakeInit))
    \<and> (\<not> hs_done (hw_state w) \<longrightarrow> hw_recvs w = 1 \<and> (\<exists>t. hw_timer w = Waiting t))"
proof -
  have "\<forall>e \<in> set (hw_trace w). hs_allowed address DefaultCodec server e"
    using default_inv [OF assms] by (simp add: hs_inv_def Let_def list_all_iff)
  then show ?thesis using default_inv [OF assms] by (fastforce simp: hs_inv_def Let_def)
qed

theorem handshake_handler_called_once_witness:
  "sampleBegun answeredWorld \<and> dones (hw_trace answeredWorld) = 1
   \<and> HandshakeDone NoError (Some (1, 77)) \<in> set (hw_trace answeredWorld)"
  using handshake_handler_called_once [OF sample_handshake(7)] sample_handshake by simp

text \<open>
  C15: a handshake ends. The retry interval, a fifth of the timeout, is kept between 100 ms and one
  second. There are at most as many retransmissions of the initial frame as intervals fit into the
  timeout. While the handshake is open its timer expires no later than one interval after the
  deadline, and when the timer fires at or after the deadline the handshake completes with
  \<open>Timeout\<close> and cancels the receive; when it fires before, one more initial frame is sent and the
  timer is armed again. Junk datagrams do not delay any of this.
\<close>

theorem handshake_ends:
  assumes "hs_reachable address DefaultCodec (handshakeBegun DefaultCodec t0 server cfg) w"
  shows "100 \<le> handshakeRetry cfg \<and> handshakeRetry cfg \<le> 1000
    \<and> int (inits (hw_trace w)) \<le> handshakeTimeout cfg div handshakeRetry cfg + 1
    \<and> (\<not> hs_done (hw_state w) \<longrightarrow>
        (\<exists>t. hw_timer w = Waiting t \<and> t \<le> t0 + millis (handshakeTimeout cfg) + millis (handshakeRetry cfg))
        \<and> (\<forall>now. if t0 + millis (handshakeTimeout cfg) \<le> now
             then onRetryTimer DefaultCodec now NoError (hw_state w)
               = ((hw_state w)\<lparr>hs_done := True\<rparr>, [CancelRetry, HandshakeDone (makeErrorCode Timeout) None, CancelReceive])
             else \<exists>s bs. onRetryTimer DefaultCodec now NoError (hw_state w)
               = (s, [InitTo bs server, ArmRetry (handshakeRetry cfg)]) \<and> \<not> hs_done s))"
proof -
  have i: "hs_inv address DefaultCodec t0 server cfg w" using default_inv [OF assms] .
  have r: "100 \<le> handshakeRetry cfg" "handshakeRetry cfg \<le> 1000" by (simp_all add: handshakeRetry_def)
  have "int (inits (hw_trace w)) - 1 \<le> handshakeTimeout cfg div handshakeRetry cfg"
    using i r zdiv_mono1 [of "(int (inits (hw_trace w)) - 1) * handshakeRetry cfg" "handshakeTimeout cfg"
        "handshakeRetry cfg"] by (auto simp: hs_inv_def Let_def)
  moreover have "14 \<le> length (hs_sendBuffer (hw_state w))"
    using i by (simp add: hs_inv_def Let_def DefaultCodec_overhead)
  ultimately show ?thesis
    using i r by (auto simp: hs_inv_def Let_def onRetryTimer_def hs_complete_def initFrame)
qed

theorem handshake_ends_witness:
  "sampleBegun retriedWorld \<and> inits (hw_trace retriedWorld) = 2
   \<and> (\<exists>s. onRetryTimer DefaultCodec (millis 5000) NoError (hw_state retriedWorld)
        = (s, [CancelRetry, HandshakeDone (makeErrorCode Timeout) None, CancelReceive]))"
proof -
  have "handshakeTimeout plainConfig = 5000" by (simp add: handshakeTimeout_def plainConfig_def)
  then show ?thesis
    using handshake_ends [OF sample_handshake(4)] sample_handshake(4-6) by simp
qed

end
