(* ===== verification/Rude_Endpoints.thy ===== *)
theory Rude_Endpoints
  imports Rude_Handshake
begin

text \<open>
  \<^verbatim>\<open>endpoint/Connector.hpp\<close> and \<^verbatim>\<open>endpoint/Acceptor.hpp\<close>: a connection attempt is the
  session it will hand out together with the client handshake that runs on the session's socket;
  an acceptor turns the initial frames on its listen socket into sessions that answer from sockets
  of their own. The executor and the sockets are outside the model; the freshly constructed
  controllers are arguments, and \<open>ep0\<close> is the default endpoint.
\<close>

section \<open>Effects\<close>

text \<open>
  \<open>ConnectDone h ec b\<close> and \<open>AcceptDone h ec b\<close> run the completion handler, with the session if \<open>b\<close>
  and with a null pointer otherwise. \<open>Listen n\<close> starts a receive into a buffer of \<open>n\<close> bytes on the listen
  socket, and \<open>AckTo\<close> is the answer sent from the session's own socket.
\<close>

datatype 'ep ep_effect =
    SessionDoes "'ep effect"
  | HandshakeDoes "'ep hs_effect"
  | ConnectDone handler error_code bool
  | Listen nat
  | CancelListen
  | CloseListen
  | AckTo bytes 'ep
  | AcceptDone handler error_code bool

section \<open>Connector\<close>

record ('o, 'u, 'ep) Connecting =
  cn_session :: "('o, 'u, 'ep) Session"
  cn_handshake :: "'ep ClientState"
  cn_handler :: handler

text \<open>The handler that \<open>asyncConnect\<close> gives to the handshake.\<close>

definition connectHandler ::
  "'ep \<Rightarrow> time_ns \<Rightarrow> handler \<Rightarrow> error_code \<Rightarrow> 'ep option \<Rightarrow> ('o, 'u, 'ep) Session
    \<Rightarrow> ('o, 'u, 'ep) Session \<times> 'ep ep_effect list" where
  "connectHandler ep0 now h ec adopted s =
     (if failed ec then (s, [ConnectDone h ec False])
      else
        let (s, es) = ss_start now (case adopted of Some ep \<Rightarrow> ep | None \<Rightarrow> ep0) s
        in (s, map SessionDoes es @ [ConnectDone h NoError True]))"

text \<open>The effects of a step of the handshake, with its completion handler run in place.\<close>

fun withHandler ::
  "'ep \<Rightarrow> time_ns \<Rightarrow> handler \<Rightarrow> 'ep hs_effect list \<Rightarrow> ('o, 'u, 'ep) Session
    \<Rightarrow> ('o, 'u, 'ep) Session \<times> 'ep ep_effect list" where
  "withHandler ep0 now h [] s = (s, [])"
| "withHandler ep0 now h (HandshakeDone ec adopted # es) s =
     (let (s, fs) = connectHandler ep0 now h ec adopted s; (s, gs) = withHandler ep0 now h es s
      in (s, fs @ gs))"
| "withHandler ep0 now h (e # es) s =
     (let (s, gs) = withHandler ep0 now h es s in (s, HandshakeDoes e # gs))"

definition runHandshake ::
  "'ep \<Rightarrow> time_ns \<Rightarrow> 'ep ClientState \<times> 'ep hs_effect list \<Rightarrow> ('o, 'u, 'ep) Connecting
    \<Rightarrow> ('o, 'u, 'ep) Connecting \<times> 'ep ep_effect list" where
  "runHandshake ep0 now r cn =
     (let (s, es) = withHandler ep0 now (cn_handler cn) (snd r) (cn_session cn)
      in (cn\<lparr>cn_session := s, cn_handshake := fst r\<rparr>, es))"

definition initiateConnect ::
  "PacketCodec \<Rightarrow> 'o \<Rightarrow> 'u \<Rightarrow> 'ep \<Rightarrow> SessionConfig \<Rightarrow> time_ns \<Rightarrow> 'ep \<Rightarrow> handler
    \<Rightarrow> ('o, 'u, 'ep) Connecting \<times> 'ep ep_effect list" where
  "initiateConnect codec ko ku ep0 cfg now remote h =
     (let r = asyncClientHandshake codec now remote cfg
      in runHandshake ep0 now r
           \<lparr>cn_session = newSession ko ku ep0 cfg, cn_handshake = fst r, cn_handler = h\<rparr>)"

definition cn_onRecv ::
  "('ep \<Rightarrow> 'a) \<Rightarrow> PacketCodec \<Rightarrow> 'ep \<Rightarrow> time_ns \<Rightarrow> error_code \<Rightarrow> 'ep \<Rightarrow> bytes \<Rightarrow> ('o, 'u, 'ep) Connecting
    \<Rightarrow> ('o, 'u, 'ep) Connecting \<times> 'ep ep_effect list" where
  "cn_onRecv address codec ep0 now ec sender bs cn =
     runHandshake ep0 now (onHandshakeRecv address codec ec sender bs (cn_handshake cn)) cn"

definition cn_onTimer ::
  "PacketCodec \<Rightarrow> 'ep \<Rightarrow> time_ns \<Rightarrow> error_code \<Rightarrow> ('o, 'u, 'ep) Connecting
    \<Rightarrow> ('o, 'u, 'ep) Connecting \<times> 'ep ep_effect list" where
  "cn_onTimer codec ep0 now ec cn = runHandshake ep0 now (onRetryTimer codec now ec (cn_handshake cn)) cn"

text \<open>\<open>cancel\<close> while the pending session is alive.\<close>

definition cn_cancel :: "('o, 'u, 'ep) Connecting \<Rightarrow> ('o, 'u, 'ep) Connecting \<times> 'ep ep_effect list" where
  "cn_cancel cn =
     (let (s, es) = ss_cancel (cn_session cn) in (cn\<lparr>cn_session := s\<rparr>, map SessionDoes es))"

text \<open>
  The connector itself: its configuration, the attempts it has started, and which of them the weak
  pointer \<open>pending_\<close> names. Whether that session is still alive is up to its other owners: \<open>alive\<close>.
\<close>

record ('o, 'u, 'ep) Connector =
  co_codec :: PacketCodec
  co_config :: SessionConfig
  co_attempts :: "('o, 'u, 'ep) Connecting list"
  co_pending :: "nat option"

definition newConnector :: "PacketCodec \<Rightarrow> ('o, 'u, 'ep) Connector" where
  "newConnector codec = \<lparr>co_codec = codec, co_config = newSessionConfig, co_attempts = [], co_pending = None\<rparr>"

definition co_withConfig :: "SessionConfig \<Rightarrow> ('o, 'u, 'ep) Connector \<Rightarrow> ('o, 'u, 'ep) Connector" where
  "co_withConfig cfg co = co\<lparr>co_config := cfg\<rparr>"

definition co_withCodec :: "PacketCodec \<Rightarrow> ('o, 'u, 'ep) Connector \<Rightarrow> ('o, 'u, 'ep) Connector" where
  "co_withCodec codec co = co\<lparr>co_codec := codec\<rparr>"

definition asyncConnect ::
  "'o \<Rightarrow> 'u \<Rightarrow> 'ep \<Rightarrow> time_ns \<Rightarrow> 'ep \<Rightarrow> handler \<Rightarrow> ('o, 'u, 'ep) Connector
    \<Rightarrow> ('o, 'u, 'ep) Connector \<times> 'ep ep_effect list" where
  "asyncConnect ko ku ep0 now remote h co =
     (let (cn, es) = initiateConnect (co_codec co) ko ku ep0 (co_config co) now remote h
      in (co\<lparr>co_attempts := co_attempts co @ [cn], co_pending := Some (length (co_attempts co))\<rparr>, es))"

definition co_cancel ::
  "bool \<Rightarrow> ('o, 'u, 'ep) Connector \<Rightarrow> ('o, 'u, 'ep) Connector \<times> 'ep ep_effect list" where
  "co_cancel alive co =
     (case co_pending co of
        None \<Rightarrow> (co, [])
      | Some i \<Rightarrow>
          if alive then
            let (cn, es) = cn_cancel (co_attempts co ! i)
            in (co\<lparr>co_attempts := (co_attempts co)[i := cn]\<rparr>, es)
          else (co, []))"

section \<open>Acceptor\<close>

record Acceptor =
  ac_codec :: PacketCodec
  ac_config :: SessionConfig

definition newAcceptor :: "PacketCodec \<Rightarrow> Acceptor" where
  "newAcceptor codec = \<lparr>ac_codec = codec, ac_config = newSessionConfig\<rparr>"

definition ac_withConfig :: "SessionConfig \<Rightarrow> Acceptor \<Rightarrow> Acceptor" where
  "ac_withConfig cfg a = a\<lparr>ac_config := cfg\<rparr>"

definition ac_withCodec :: "PacketCodec \<Rightarrow> Acceptor \<Rightarrow> Acceptor" where
  "ac_withCodec codec a = a\<lparr>ac_codec := codec\<rparr>"

definition ac_cancel :: "'ep ep_effect list" where
  "ac_cancel = [CancelListen]"

definition ac_close :: "'ep ep_effect list" where
  "ac_close = [CloseListen]"

definition kRecvBufSize :: nat where
  "kRecvBufSize = 1500"

definition startAccept :: "'ep ep_effect list" where
  "startAccept = [Listen kRecvBufSize]"

text \<open>The new session, if one was created and its answer sent, and the effects.\<close>

definition openSession ::
  "Acceptor \<Rightarrow> 'o \<Rightarrow> 'u \<Rightarrow> 'ep \<Rightarrow> 'ep \<Rightarrow> u16 \<Rightarrow> handler
    \<Rightarrow> ('o, 'u, 'ep) Session option \<times> 'ep ep_effect list" where
  "openSession a ko ku ep0 client initSeq h =
     (let session = newSession ko ku ep0 (ac_config a);
          codec = ac_codec a;
          ack = newPacket\<lparr>pkt_type := HandshakeAck, pkt_ack := initSeq\<rparr>;
          (encodedSize, encoded) = cdc_encode codec ack (replicate (cdc_maxOverhead codec) 0)
      in if encodedSize = 0 then (None, [AcceptDone h (makeErrorCode BadPacket) False])
         else (Some session, [AckTo (resizeBytes encodedSize encoded) client]))"

definition onAcceptRecv ::
  "Acceptor \<Rightarrow> 'o \<Rightarrow> 'u \<Rightarrow> 'ep \<Rightarrow> error_code \<Rightarrow> 'ep \<Rightarrow> bytes \<Rightarrow> handler
    \<Rightarrow> ('o, 'u, 'ep) Session option \<times> 'ep ep_effect list" where
  "onAcceptRecv a ko ku ep0 ec sender bs h =
     (if failed ec then (None, [AcceptDone h ec False])
      else
        case cdc_decode (ac_codec a) bs of
          Inl e \<Rightarrow> (None, startAccept)
        | Inr p \<Rightarrow>
            if pkt_type p \<noteq> HandshakeInit then (None, startAccept)
            else openSession a ko ku ep0 sender (pkt_seq p) h)"

text \<open>The completion of the answer.\<close>

definition onAcceptSent ::
  "time_ns \<Rightarrow> error_code \<Rightarrow> 'ep \<Rightarrow> handler \<Rightarrow> ('o, 'u, 'ep) Session
    \<Rightarrow> ('o, 'u, 'ep) Session \<times> 'ep ep_effect list" where
  "onAcceptSent now ec client h session =
     (if failed ec then (session, [AcceptDone h ec False])
      else
        let (session, es) = ss_start now client session
        in (session, map SessionDoes es @ [AcceptDone h NoError True]))"

section \<open>Facts\<close>

lemma openSession_default:
  assumes "ac_codec a = DefaultCodec"
  shows "openSession a ko ku ep0 client q h
     = (Some (newSession ko ku ep0 (ac_config a)), [AckTo (frame (newPacket\<lparr>pkt_type := HandshakeAck, pkt_ack := q\<rparr>)) client])"
proof -
  let ?p = "newPacket\<lparr>pkt_type := HandshakeAck, pkt_ack := q\<rparr>"
  have "pkt_payload ?p = []" by (simp add: newPacket_def)
  then show ?thesis
    using assms DefaultCodec_encode [of ?p] by (simp add: openSession_def DefaultCodec_overhead resizeBytes_def Let_def)
qed

lemma decode_default: "cdc_decode DefaultCodec (frame p) = Inr (p\<lparr>pkt_crc := frameCrc p\<rparr>)"
  using decode_frame [of p] by (simp add: DefaultCodec_def)

lemma newSession_flags [simp]:
  "\<not> ss_started (newSession ko ku ep cfg)" "\<not> ss_closed (newSession ko ku ep cfg)"
  using newSession_fresh [of ko ku ep cfg] by (simp_all add: fresh_def)

lemma start_new:
  "ss_start now ep (newSession ko ku ep0 cfg) = (s, es) \<Longrightarrow>
    ss_started s \<and> ss_remote s = ep \<and> \<not> ss_closed s"
  by (auto simp: ss_start_def)

lemma initiateConnect_default:
  "\<exists>buf. initiateConnect DefaultCodec ko ku ep0 cfg now remote h =
     (\<lparr>cn_session = newSession ko ku ep0 cfg,
       cn_handshake = \<lparr>hs_server = remote, hs_sendBuffer = buf, hs_deadline = now + millis (handshakeTimeout cfg),
                       hs_retryInterval = handshakeRetry cfg, hs_done = False\<rparr>, cn_handler = h\<rparr>,
      [HandshakeDoes (InitTo (frame (newPacket\<lparr>pkt_type := HandshakeInit\<rparr>)) remote),
       HandshakeDoes AwaitDatagram, HandshakeDoes (ArmRetry (handshakeRetry cfg))])"
  by (simp add: initiateConnect_def asyncClientHandshake_def runHandshake_def Let_def initFrame bufferSize_def)

lemma asyncConnect_default:
  assumes "co_codec co = DefaultCodec" and "asyncConnect ko ku ep0 now remote h co = (co', es)"
  obtains cn where "co' = co\<lparr>co_attempts := co_attempts co @ [cn], co_pending := Some (length (co_attempts co))\<rparr>"
    and "cn_session cn = newSession ko ku ep0 (co_config co)" and "cn_handler cn = h"
    and "\<not> hs_done (cn_handshake cn)" and "hs_server (cn_handshake cn) = remote"
    and "hd es = HandshakeDoes (InitTo (frame (newPacket\<lparr>pkt_type := HandshakeInit\<rparr>)) remote)"
  using assms initiateConnect_default [of ko ku ep0 "co_config co" now remote h]
  by (fastforce simp: asyncConnect_def Let_def)

text \<open>
  What an acceptor does with a datagram on its listen socket, on every branch, and when its answer has
  been sent.
\<close>

lemma onAcceptRecv_default:
  assumes "ac_codec a = DefaultCodec"
  shows "onAcceptRecv a ko ku ep0 ec sender bs h =
     (if failed ec then (None, [AcceptDone h ec False])
      else case decode bs of
        Inl e \<Rightarrow> (None, [Listen 1500])
      | Inr p \<Rightarrow> if pkt_type p \<noteq> HandshakeInit then (None, [Listen 1500])
          else (Some (newSession ko ku ep0 (ac_config a)),
                [AckTo (frame (newPacket\<lparr>pkt_type := HandshakeAck, pkt_ack := pkt_seq p\<rparr>)) sender]))"
  using assms
  by (auto simp: onAcceptRecv_def openSession_default startAccept_def kRecvBufSize_def DefaultCodec_def split: sum.splits)

lemma onAcceptSent_fresh:
  assumes "\<not> ss_started s" and "\<not> ss_closed s"
  obtains s' es where "onAcceptSent now ec client h s = (s', es)"
    and "if failed ec then es = [AcceptDone h ec False]
       else (\<exists>fs. es = map SessionDoes fs @ [AcceptDone h NoError True]) \<and> ss_started s' \<and> \<not> ss_closed s' \<and> ss_remote s' = client"
proof -
  obtain s1 fs where s1: "ss_start now client s = (s1, fs)" by fastforce
  then have "ss_started s1 \<and> \<not> ss_closed s1 \<and> ss_remote s1 = client" using assms by (auto simp: ss_start_def)
  then show ?thesis using that s1 by (cases "failed ec") (auto simp: onAcceptSent_def)
qed

section \<open>Properties\<close>

text \<open>
  C8: a handshake connects both ends. The first frame that a connection attempt sends makes an
  acceptor create a session and answer the client with one frame; when that answer has been sent
  the acceptor's session is started with the client as its peer and handed out. When the answer
  reaches the client from the new session's socket, at the address of the server, the connection
  attempt starts its own session with that socket as its peer and hands it out. The two sessions then
  have each other as peers, and the connection attempt's handshake is over.
\<close>

theorem handshake_connects_both_ends:
  assumes "address local = address server" and "co_codec co = DefaultCodec" and "ac_codec a = DefaultCodec"
    and "asyncConnect ko ku ep0 t0 server h co = (co', es)"
  shows "\<exists>init ack ss ss' es1 cn' es2.
      hd es = HandshakeDoes (InitTo init server)
    \<and> onAcceptRecv a ko' ku' ep0' NoError client init h' = (Some ss, [AckTo ack client])
    \<and> onAcceptSent t1 NoError client h' ss = (ss', es1) \<and> last es1 = AcceptDone h' NoError True
    \<and> ss_started ss' \<and> \<not> ss_closed ss' \<and> ss_remote ss' = client
    \<and> cn_onRecv address DefaultCodec ep0 t2 NoError local ack (last (co_attempts co')) = (cn', es2)
    \<and> last es2 = ConnectDone h NoError True
    \<and> hs_done (cn_handshake cn') \<and> ss_started (cn_session cn') \<and> \<not> ss_closed (cn_session cn')
    \<and> ss_remote (cn_session cn') = local"
proof -
  let ?i = "newPacket\<lparr>pkt_type := HandshakeInit\<rparr>" and ?a = "newPacket\<lparr>pkt_type := HandshakeAck, pkt_ack := 0\<rparr>"
  let ?ss = "newSession ko' ku' ep0' (ac_config a)" and ?sc = "newSession ko ku ep0 (co_config co)"
  obtain cn where cn: "last (co_attempts co') = cn" "cn_session cn = ?sc" "cn_handler cn = h"
      "\<not> hs_done (cn_handshake cn)" "hs_server (cn_handshake cn) = server"
    and es: "hd es = HandshakeDoes (InitTo (frame ?i) server)"
    by (rule asyncConnect_default [OF assms(2,4)]) auto
  obtain ss' fs where s1: "ss_start t1 client ?ss = (ss', fs)" by fastforce
  obtain sc gs where s2: "ss_start t2 local ?sc = (sc, gs)" by fastforce
  have "onAcceptRecv a ko' ku' ep0' NoError client (frame ?i) h' = (Some ?ss, [AckTo (frame ?a) client])"
    using assms(3) by (simp add: onAcceptRecv_def decode_default openSession_default) (simp add: newPacket_def)
  moreover have "cn_onRecv address DefaultCodec ep0 t2 NoError local (frame ?a) cn
      = (cn\<lparr>cn_session := sc, cn_handshake := (cn_handshake cn)\<lparr>hs_done := True\<rparr>\<rparr>,
         HandshakeDoes CancelRetry # map SessionDoes gs @ [ConnectDone h NoError True])"
    using cn assms(1) s2
    by (simp add: cn_onRecv_def onHandshakeRecv_def decode_default hs_complete_def runHandshake_def
        connectHandler_def)
  moreover have "onAcceptSent t1 NoError client h' ?ss = (ss', map SessionDoes fs @ [AcceptDone h' NoError True])"
    by (simp add: onAcceptSent_def s1)
  ultimately show ?thesis
    using cn(1) es start_new [OF s1] start_new [OF s2] by fastforce
qed

definition sampleConnector :: "(unit, unit, nat \<times> nat) Connector" where
  "sampleConnector = co_withConfig plainConfig (newConnector DefaultCodec)"

definition sampleAcceptor :: Acceptor where
  "sampleAcceptor = ac_withConfig plainConfig (newAcceptor DefaultCodec)"

lemma sample_codecs [simp]: "co_codec sampleConnector = DefaultCodec" "ac_codec sampleAcceptor = DefaultCodec"
  by (simp_all add: sampleConnector_def sampleAcceptor_def newConnector_def newAcceptor_def co_withConfig_def
      ac_withConfig_def)

theorem handshake_connects_both_ends_witness:
  "fst (1 :: nat, 77 :: nat) = fst (1 :: nat, 9000 :: nat) \<and> co_codec sampleConnector = DefaultCodec
   \<and> ac_codec sampleAcceptor = DefaultCodec
   \<and> (\<exists>co' es init ack ss cn' es2.
        asyncConnect () () (0, 0) 0 (1, 9000) 3 sampleConnector = (co', es)
      \<and> onAcceptRecv sampleAcceptor () () (0, 0) NoError (2, 5) init 4 = (Some ss, [AckTo ack (2, 5 :: nat)])
      \<and> cn_onRecv fst DefaultCodec (0, 0) 5 NoError (1, 77) ack (last (co_attempts co')) = (cn', es2)
      \<and> last es2 = ConnectDone 3 NoError True \<and> ss_remote (cn_session cn') = (1, 77))"
proof -
  have e: "fst (1 :: nat, 77 :: nat) = fst (1 :: nat, 9000 :: nat)" by simp
  obtain co' es where a: "asyncConnect () () (0, 0) 0 (1, 9000) 3 sampleConnector = (co', es)" by fastforce
  from handshake_connects_both_ends [OF e sample_codecs a, of "()" "()" "(0, 0)" "(2, 5)" 4 1 5] a
  show ?thesis by auto
qed

text \<open>
  C33: cancelling a connector closes the session of the attempt it started last, while that session is
  alive: the policy is told and the socket is cancelled, so that the outstanding receive completes, and
  no other attempt is touched. If the receive completes with the abort, the handler of the attempt gets
  that error and no session. If the server's answer had already been received when the socket was
  cancelled, the receive completes with success, and the handler gets success and a session that is
  closed and has never been started.
\<close>

theorem cancelled_connect:
  assumes "co_codec co = DefaultCodec" and "asyncConnect ko ku ep0 t0 server h co = (co1, es)"
    and "co_cancel True co1 = (co2, es')" and "address sender = address server"
  shows "\<exists>cn. co_attempts co2 = co_attempts co @ [cn] \<and> ss_closed (cn_session cn)
    \<and> SessionDoes CancelSocket \<in> set es'
    \<and> last es' = SessionDoes (OnDisconnected (AsioCode operation_aborted))
    \<and> (\<forall>ec. failed ec \<longrightarrow> (\<exists>cn2 es2. cn_onRecv address DefaultCodec ep0 now ec sender bs cn = (cn2, es2)
         \<and> es2 = [HandshakeDoes CancelRetry, ConnectDone h ec False] \<and> hs_done (cn_handshake cn2)))
    \<and> (\<exists>cn2 es2. cn_onRecv address DefaultCodec ep0 now NoError sender ackFrame cn = (cn2, es2)
         \<and> es2 = [HandshakeDoes CancelRetry, ConnectDone h NoError True]
         \<and> ss_closed (cn_session cn2) \<and> \<not> ss_started (cn_session cn2))"
proof -
  let ?s = "newSession ko ku ep0 (co_config co)"
  obtain cn where co1: "co1 = co\<lparr>co_attempts := co_attempts co @ [cn], co_pending := Some (length (co_attempts co))\<rparr>"
    and cn: "cn_session cn = ?s" "cn_handler cn = h" "\<not> hs_done (cn_handshake cn)" "hs_server (cn_handshake cn) = server"
    by (rule asyncConnect_default [OF assms(1,2)])
  obtain s fs where c: "ss_close (AsioCode operation_aborted) ?s = (s, fs)" by fastforce
  have i: "sinv ?s" using newSession_fresh [of ko ku ep0 "co_config co"] by (simp add: fresh_def)
  have cl: "ss_closed s" "\<not> ss_started s" using close_delta [OF i c] by auto
  have fs: "CancelSocket \<in> set fs" "fs \<noteq> []" "last fs = OnDisconnected (AsioCode operation_aborted)"
    using c by (auto simp: ss_close_def Let_def split: prod.splits)
  have co2: "co_attempts co2 = co_attempts co @ [cn\<lparr>cn_session := s\<rparr>]" "es' = map SessionDoes fs"
    using assms(3) c cn by (auto simp: co1 co_cancel_def cn_cancel_def ss_cancel_def)
  have "ss_start now sender s = (s, [])" using cl by (simp add: ss_start_def)
  then show ?thesis
    using cl fs cn co2 assms(4)
    by (auto simp: cn_onRecv_def onHandshakeRecv_def hs_complete_def runHandshake_def connectHandler_def
        ackFrame_def decode_default last_map)
qed

theorem cancelled_connect_witness:
  "\<exists>co1 es co2 es' cn. asyncConnect () () (0, 0) 0 (1, 9000) 3 sampleConnector = (co1, es)
   \<and> co_cancel True co1 = (co2, es') \<and> co_attempts co2 = co_attempts sampleConnector @ [cn] \<and> ss_closed (cn_session cn)
   \<and> (\<exists>cn2. cn_onRecv fst DefaultCodec (0, 0) 5 NoError (1, 77) ackFrame cn
        = (cn2, [HandshakeDoes CancelRetry, ConnectDone 3 NoError True]) \<and> ss_closed (cn_session cn2))"
proof -
  obtain co1 es where a: "asyncConnect () () (0, 0) 0 (1, 9000) 3 sampleConnector = (co1, es)" by fastforce
  obtain co2 es' where c: "co_cancel True co1 = (co2, es')" by fastforce
  obtain cn where "co_attempts co2 = co_attempts sampleConnector @ [cn]" and "ss_closed (cn_session cn)"
    and "\<exists>cn2. cn_onRecv fst DefaultCodec (0, 0) 5 NoError (1, 77) ackFrame cn
        = (cn2, [HandshakeDoes CancelRetry, ConnectDone 3 NoError True]) \<and> ss_closed (cn_session cn2)"
    using cancelled_connect [OF sample_codecs(1) a c, of fst "(1, 77)" 5] by fastforce
  then show ?thesis using a c by blast
qed

end
