(* ===== verification/Rude_Accepting.thy ===== *)
theory Rude_Accepting
  imports Rude_Endpoints "HOL-Library.Sublist" "HOL-Library.Multiset"
begin

text \<open>
  The accepts of one \<^verbatim>\<open>endpoint/Acceptor.hpp\<close> in a world where its listen socket, the sockets of its
  new sessions and its caller act in any order. The receive buffer and the sender's endpoint are members
  of the acceptor, shared by all its accepts, and a lambda reads them when it runs, not when its receive
  completed; hence the rule in the class comment that one accept is outstanding at a time.
\<close>

section \<open>The world of an acceptor\<close>

text \<open>
  Accepts whose receive is outstanding, in the order in which the socket serves them; receives that
  are complete but whose lambda has not run; answers that are being sent. The calls, the datagrams that
  the socket took, the sessions handed out and the effects are recorded.
\<close>

record ('o, 'u, 'ep) Accepting =
  ap_recvBuf :: bytes
  ap_sender :: 'ep
  ap_listening :: "handler list"
  ap_completed :: "(handler \<times> error_code \<times> nat) list"
  ap_answering :: "(handler \<times> 'ep \<times> ('o, 'u, 'ep) Session) list"
  ap_calls :: "handler list"
  ap_taken :: "('ep \<times> bytes) list"
  ap_sessions :: "(handler \<times> ('o, 'u, 'ep) Session) list"
  ap_trace :: "'ep ep_effect list"

definition newAccepting :: "'ep \<Rightarrow> ('o, 'u, 'ep) Accepting" where
  "newAccepting ep0 = \<lparr>ap_recvBuf = replicate kRecvBufSize 0, ap_sender = ep0, ap_listening = [], ap_completed = [],
     ap_answering = [], ap_calls = [], ap_taken = [], ap_sessions = [], ap_trace = []\<rparr>"

definition outstanding :: "('o, 'u, 'ep) Accepting \<Rightarrow> handler list" where
  "outstanding w = ap_listening w @ map fst (ap_completed w) @ map fst (ap_answering w)"

text \<open>\<open>asyncAccept\<close> calls \<open>startAccept\<close>, which starts a receive.\<close>

definition ap_accept :: "handler \<Rightarrow> ('o, 'u, 'ep) Accepting \<Rightarrow> ('o, 'u, 'ep) Accepting" where
  "ap_accept h w = w\<lparr>ap_listening := ap_listening w @ [h], ap_calls := ap_calls w @ [h], ap_trace := ap_trace w @ startAccept\<rparr>"

text \<open>The socket writes a datagram to the shared buffer, cut to its size, and the sender beside it.\<close>

definition ap_arrive :: "'ep \<Rightarrow> bytes \<Rightarrow> handler \<Rightarrow> handler list \<Rightarrow> ('o, 'u, 'ep) Accepting \<Rightarrow> ('o, 'u, 'ep) Accepting" where
  "ap_arrive sender bs h hs w =
     (let data = take kRecvBufSize bs
      in w\<lparr>ap_listening := hs, ap_recvBuf := data @ drop (length data) (ap_recvBuf w), ap_sender := sender,
           ap_completed := ap_completed w @ [(h, NoError, length data)], ap_taken := ap_taken w @ [(sender, data)]\<rparr>)"

text \<open>The lambda of \<open>startAccept\<close> runs on what the buffer holds now.\<close>

definition ap_handle ::
  "Acceptor \<Rightarrow> 'o \<Rightarrow> 'u \<Rightarrow> 'ep \<Rightarrow> handler \<Rightarrow> error_code \<Rightarrow> nat \<Rightarrow> ('o, 'u, 'ep) Accepting \<Rightarrow> ('o, 'u, 'ep) Accepting" where
  "ap_handle a ko ku ep0 h ec n w =
     (let (r, es) = onAcceptRecv a ko ku ep0 ec (ap_sender w) (take n (ap_recvBuf w)) h
      in w\<lparr>ap_listening := ap_listening w @ (if es = startAccept then [h] else []),
           ap_answering := ap_answering w @ (case r of None \<Rightarrow> [] | Some s \<Rightarrow> [(h, ap_sender w, s)]),
           ap_trace := ap_trace w @ es\<rparr>)"

text \<open>The lambda of \<open>openSession\<close> runs when the answer has been sent.\<close>

definition ap_sent ::
  "time_ns \<Rightarrow> error_code \<Rightarrow> handler \<Rightarrow> 'ep \<Rightarrow> ('o, 'u, 'ep) Session \<Rightarrow> ('o, 'u, 'ep) Accepting \<Rightarrow> ('o, 'u, 'ep) Accepting" where
  "ap_sent now ec h client s w =
     (let (s', es) = onAcceptSent now ec client h s
      in w\<lparr>ap_sessions := ap_sessions w @ (if failed ec then [] else [(h, s')]), ap_trace := ap_trace w @ es\<rparr>)"

definition ap_abort :: "'ep ep_effect list \<Rightarrow> ('o, 'u, 'ep) Accepting \<Rightarrow> ('o, 'u, 'ep) Accepting" where
  "ap_abort es w = w\<lparr>ap_listening := [],
     ap_completed := ap_completed w @ map (\<lambda>h. (h, AsioCode operation_aborted, 0)) (ap_listening w),
     ap_trace := ap_trace w @ es\<rparr>"

text \<open>
  The steps. With \<open>one\<close> the caller keeps the rule of one accept at a time. A receive may fail at any time, for
  instance because the socket is closed.
\<close>

inductive ap_step :: "bool \<Rightarrow> Acceptor \<Rightarrow> ('o, 'u, 'ep) Accepting \<Rightarrow> ('o, 'u, 'ep) Accepting \<Rightarrow> bool"
  for one a where
    Accept: "(one \<longrightarrow> outstanding w = []) \<Longrightarrow> ap_step one a w (ap_accept h w)"
  | Arrives: "ap_listening w = h # hs \<Longrightarrow> ap_step one a w (ap_arrive sender bs h hs w)"
  | Fails: "ap_listening w = h # hs \<Longrightarrow> failed ec \<Longrightarrow>
      ap_step one a w (w\<lparr>ap_listening := hs, ap_completed := ap_completed w @ [(h, ec, 0)]\<rparr>)"
  | Handled: "ap_completed w = (h, ec, n) # qs \<Longrightarrow> ap_step one a w (ap_handle a ko ku ep0 h ec n (w\<lparr>ap_completed := qs\<rparr>))"
  | Sent: "ap_answering w = xs @ (h, client, s) # ys \<Longrightarrow> ap_step one a w (ap_sent now ec h client s (w\<lparr>ap_answering := xs @ ys\<rparr>))"
  | Cancel: "ap_step one a w (ap_abort ac_cancel w)"
  | Close: "ap_step one a w (ap_abort ac_close w)"

inductive ap_reachable :: "bool \<Rightarrow> Acceptor \<Rightarrow> 'ep \<Rightarrow> ('o, 'u, 'ep) Accepting \<Rightarrow> bool" for one a ep0 where
    Begin: "ap_reachable one a ep0 (newAccepting ep0)"
  | Continue: "ap_reachable one a ep0 w \<Longrightarrow> ap_step one a w w' \<Longrightarrow> ap_reachable one a ep0 w'"

section \<open>What a trace shows\<close>

fun acceptDones :: "'ep ep_effect list \<Rightarrow> handler list" where
  "acceptDones [] = []"
| "acceptDones (AcceptDone h ec b # es) = h # acceptDones es"
| "acceptDones (_ # es) = acceptDones es"

fun answers :: "'ep ep_effect list \<Rightarrow> ('ep \<times> bytes) list" where
  "answers [] = []"
| "answers (AckTo bs client # es) = (client, bs) # answers es"
| "answers (_ # es) = answers es"

lemma acceptDones_append [simp]: "acceptDones (xs @ ys) = acceptDones xs @ acceptDones ys"
  by (induction xs rule: acceptDones.induct) simp_all

lemma answers_append [simp]: "answers (xs @ ys) = answers xs @ answers ys"
  by (induction xs rule: answers.induct) simp_all

lemma session_does [simp]: "acceptDones (map SessionDoes es) = []" "answers (map SessionDoes es) = []"
  by (induction es) simp_all

text \<open>The answer due to a datagram: one frame with the number of an initial frame, nothing for anything else.\<close>

definition answerTo :: "'ep \<times> bytes \<Rightarrow> ('ep \<times> bytes) list" where
  "answerTo d = (case decode (snd d) of
     Inr p \<Rightarrow> if pkt_type p = HandshakeInit
       then [(fst d, frame (newPacket\<lparr>pkt_type := HandshakeAck, pkt_ack := pkt_seq p\<rparr>))] else []
   | Inl e \<Rightarrow> [])"

section \<open>The invariant\<close>

lemma subseq_appendD: "subseq (xs @ ys) zs \<Longrightarrow> subseq xs zs"
  using subseq_rev_drop_many [of xs xs ys] by (meson subseq_order.trans subseq_order.refl)

lemma handle_effects:
  fixes w :: "('o, 'u, 'ep) Accepting"
  assumes "ac_codec a = DefaultCodec"
  obtains xs ys es where "ap_handle a ko ku ep0 h ec n w = w\<lparr>ap_listening := ap_listening w @ xs,
      ap_answering := ap_answering w @ ys, ap_trace := ap_trace w @ es\<rparr>"
    and "xs @ map fst ys @ acceptDones es = [h]"
    and "answers es = (if failed ec then [] else answerTo (ap_sender w, take n (ap_recvBuf w)))"
    and "map (\<lambda>y. fst (snd y)) ys = map fst (answers es)"
    and "\<forall>(h, c, s) \<in> set ys. \<not> ss_started s \<and> \<not> ss_closed s"
proof -
  obtain r and es :: "'ep ep_effect list" where
    r: "onAcceptRecv a ko ku ep0 ec (ap_sender w) (take n (ap_recvBuf w)) h = (r, es)" by fastforce
  show ?thesis
  proof (rule that)
    show "ap_handle a ko ku ep0 h ec n w = w\<lparr>ap_listening := ap_listening w @ (if es = startAccept then [h] else []),
      ap_answering := ap_answering w @ (case r of None \<Rightarrow> [] | Some s \<Rightarrow> [(h, ap_sender w, s)]), ap_trace := ap_trace w @ es\<rparr>"
      by (simp add: ap_handle_def r)
  qed (use r in \<open>auto simp: onAcceptRecv_default [OF assms] startAccept_def kRecvBufSize_def answerTo_def
      split: if_splits sum.splits\<close>)
qed

text \<open>With any number of accepts outstanding: where each handler is, and what is handed out.\<close>

definition ap_inv :: "('o, 'u, 'ep) Accepting \<Rightarrow> bool" where
  "ap_inv w \<longleftrightarrow> mset (ap_calls w) = mset (acceptDones (ap_trace w)) + mset (outstanding w)
     \<and> (\<forall>(h, c, s) \<in> set (ap_answering w). \<not> ss_started s \<and> \<not> ss_closed s)
     \<and> (\<forall>(h, s) \<in> set (ap_sessions w). ss_started s \<and> \<not> ss_closed s)"

lemma accept_step_inv:
  assumes a: "ac_codec a = DefaultCodec" and s: "ap_step one a w w'" and i: "ap_inv w"
  shows "ap_inv w'"
  using s
proof cases
  case (Handled h ec n qs ko ku ep0)
  let ?w = "w\<lparr>ap_completed := qs\<rparr>"
  obtain xs ys es where "ap_handle a ko ku ep0 h ec n ?w = ?w\<lparr>ap_listening := ap_listening ?w @ xs,
      ap_answering := ap_answering ?w @ ys, ap_trace := ap_trace ?w @ es\<rparr>"
    and x: "xs @ map fst ys @ acceptDones es = [h]" and "\<forall>(h, c, s) \<in> set ys. \<not> ss_started s \<and> \<not> ss_closed s"
    by (rule handle_effects [OF a])
  moreover have "mset xs + mset (map fst ys) + mset (acceptDones es) = {#h#}"
    using arg_cong [OF x, of mset] by (simp add: ac_simps)
  ultimately show ?thesis using i Handled by (auto simp: ap_inv_def outstanding_def ac_simps)
next
  case (Sent xs h client s ys now ec)
  then have "\<not> ss_started s" "\<not> ss_closed s" using i by (auto simp: ap_inv_def)
  then obtain s' and es :: "'c ep_effect list" where r: "onAcceptSent now ec client h s = (s', es)"
    and e: "if failed ec then es = [AcceptDone h ec False]
       else (\<exists>fs. es = map SessionDoes fs @ [AcceptDone h NoError True]) \<and> ss_started s' \<and> \<not> ss_closed s' \<and> ss_remote s' = client"
    by (rule onAcceptSent_fresh)
  then show ?thesis using i Sent by (auto simp: ap_inv_def outstanding_def ap_sent_def split: if_splits)
qed (use i in \<open>auto simp: ap_inv_def outstanding_def ap_accept_def ap_arrive_def ap_abort_def startAccept_def
    ac_cancel_def ac_close_def Let_def comp_def\<close>)

text \<open>
  With one accept outstanding: the buffer still holds the datagram whose lambda is about to run, so every
  datagram gets the answer it is due.
\<close>

fun dueAnswer :: "'ep \<Rightarrow> bytes \<Rightarrow> (handler \<times> error_code \<times> nat) list \<Rightarrow> ('ep \<times> bytes) list" where
  "dueAnswer sender buf ((h, ec, n) # qs) = (if failed ec then [] else answerTo (sender, take n buf))"
| "dueAnswer sender buf [] = []"

lemma due_failed:
  "\<forall>(h, ec, n) \<in> set ys. failed ec \<Longrightarrow> dueAnswer sender buf (xs @ ys) = dueAnswer sender buf xs"
  by (cases xs; cases ys) auto

definition ap_single :: "('o, 'u, 'ep) Accepting \<Rightarrow> bool" where
  "ap_single w \<longleftrightarrow> length (outstanding w) \<le> 1
     \<and> answers (ap_trace w) @ dueAnswer (ap_sender w) (ap_recvBuf w) (ap_completed w) = concat (map answerTo (ap_taken w))
     \<and> subseq (map (\<lambda>(h, s). ss_remote s) (ap_sessions w) @ map (\<lambda>y. fst (snd y)) (ap_answering w))
         (map fst (answers (ap_trace w)))"

lemma accept_step_single:
  assumes a: "ac_codec a = DefaultCodec" and s: "ap_step True a w w'" and i: "ap_inv w" and g: "ap_single w"
  shows "ap_single w'"
  using s
proof cases
  case (Handled h ec n qs ko ku ep0)
  let ?w = "w\<lparr>ap_completed := qs\<rparr>"
  obtain xs ys es where e: "ap_handle a ko ku ep0 h ec n ?w = ?w\<lparr>ap_listening := ap_listening ?w @ xs,
      ap_answering := ap_answering ?w @ ys, ap_trace := ap_trace ?w @ es\<rparr>"
    "xs @ map fst ys @ acceptDones es = [h]" "answers es = (if failed ec then [] else answerTo (ap_sender ?w, take n (ap_recvBuf ?w)))"
    "map (\<lambda>y. fst (snd y)) ys = map fst (answers es)"
    by (rule handle_effects [OF a])
  have n: "qs = []" "ap_listening w = []" "ap_answering w = []" using g Handled by (auto simp: ap_single_def outstanding_def)
  have "length xs + length ys \<le> 1" using arg_cong [OF e(2), of length] by simp
  then show ?thesis using g Handled e(1,3,4) n by (auto simp: ap_single_def outstanding_def list_emb_append_mono)
next
  case (Sent xs h client s ys now ec)
  then have "\<not> ss_started s" "\<not> ss_closed s" using i by (auto simp: ap_inv_def)
  then obtain s' and es :: "'c ep_effect list" where "onAcceptSent now ec client h s = (s', es)"
    and "if failed ec then es = [AcceptDone h ec False]
       else (\<exists>fs. es = map SessionDoes fs @ [AcceptDone h NoError True]) \<and> ss_started s' \<and> \<not> ss_closed s' \<and> ss_remote s' = client"
    by (rule onAcceptSent_fresh)
  moreover have "xs = []" "ys = []" "ap_listening w = []" "ap_completed w = []"
    using g Sent by (auto simp: ap_single_def outstanding_def)
  moreover have "subseq (map (\<lambda>(h, s). ss_remote s) (ap_sessions w)) (map fst (answers (ap_trace w)))"
    using g by (auto simp: ap_single_def dest: subseq_appendD)
  ultimately show ?thesis
    using g Sent by (cases "failed ec") (auto simp: ap_single_def outstanding_def ap_sent_def)
next
  case (Arrives h hs sender bs)
  then have "ap_completed w = []" using g by (auto simp: ap_single_def outstanding_def)
  moreover have "take (min (length bs) kRecvBufSize) bs = take kRecvBufSize bs" by (simp add: min_def)
  ultimately show ?thesis using g Arrives by (auto simp: ap_single_def outstanding_def ap_arrive_def Let_def)
qed (use g in \<open>auto simp: ap_single_def outstanding_def ap_accept_def ap_abort_def startAccept_def
    ac_cancel_def ac_close_def Let_def comp_def due_failed\<close>)

lemma accept_reachable_inv:
  assumes "ac_codec a = DefaultCodec" and "ap_reachable one a ep0 w"
  shows "ap_inv w \<and> (one \<longrightarrow> ap_single w)"
  using assms(2)
proof induction
  case Begin
  show ?case by (simp add: ap_inv_def ap_single_def newAccepting_def outstanding_def)
next
  case (Continue w w')
  then show ?case using accept_step_inv [OF assms(1)] accept_step_single [OF assms(1)] by (cases one) auto
qed

section \<open>Properties\<close>

text \<open>
  C32: an acceptor serves its clients. In every reachable state, each accept that was called has completed
  its handler once, or is outstanding, and then its handler has not been called; every session handed
  out is started and open. If the caller keeps one accept outstanding at a time, as the class demands, then
  the answers sent, with the one due for a datagram that is waiting to be handled, are exactly one for
  each initial frame that the listen socket took, in their order, to the frame's own sender and with its
  number; anything else gets no answer; and the peers of the sessions handed out are, in order, among the
  clients that were answered.
\<close>

theorem acceptor_serves_its_clients:
  assumes "ac_codec a = DefaultCodec" and "ap_reachable one a ep0 w"
  shows "mset (ap_calls w) = mset (acceptDones (ap_trace w)) + mset (outstanding w)
    \<and> (\<forall>(h, s) \<in> set (ap_sessions w). ss_started s \<and> \<not> ss_closed s)
    \<and> (one \<longrightarrow>
        answers (ap_trace w) @ dueAnswer (ap_sender w) (ap_recvBuf w) (ap_completed w) = concat (map answerTo (ap_taken w))
      \<and> subseq (map (\<lambda>(h, s). ss_remote s) (ap_sessions w)) (map fst (answers (ap_trace w))))"
proof -
  note i = accept_reachable_inv [OF assms]
  show ?thesis using i by (auto simp: ap_inv_def ap_single_def dest: subseq_appendD)
qed

text \<open>Client 7 sends junk and then an initial frame; its session is answered, started and handed out.\<close>

definition initFrameOf :: "u16 \<Rightarrow> bytes" where
  "initFrameOf q = frame (newPacket\<lparr>pkt_type := HandshakeInit, pkt_seq := q\<rparr>)"

lemma length_initFrameOf [simp]: "length (initFrameOf q) = 14"
  by (simp add: initFrameOf_def newPacket_def)

lemma decode_initFrameOf: "\<exists>p. decode (initFrameOf q) = Inr p \<and> pkt_type p = HandshakeInit \<and> pkt_seq p = q"
  using decode_frame [of "newPacket\<lparr>pkt_type := HandshakeInit, pkt_seq := q\<rparr>"] by (simp add: initFrameOf_def newPacket_def)

text \<open>A step on junk and on an initial frame of 14 bytes, evaluated.\<close>

lemma handle_junk:
  assumes "decode (take n (ap_recvBuf w)) = Inl e"
  shows "ap_handle sampleAcceptor ko ku ep0 h NoError n w
    = w\<lparr>ap_listening := ap_listening w @ [h], ap_trace := ap_trace w @ [Listen 1500]\<rparr>"
  using assms by (simp add: ap_handle_def onAcceptRecv_default startAccept_def kRecvBufSize_def)

lemma handle_init:
  assumes "take n (ap_recvBuf w) = initFrameOf q"
  shows "ap_handle sampleAcceptor ko ku ep0 h NoError n w
    = w\<lparr>ap_answering := ap_answering w @ [(h, ap_sender w, newSession ko ku ep0 (ac_config sampleAcceptor))],
        ap_trace := ap_trace w @ [AckTo (frame (newPacket\<lparr>pkt_type := HandshakeAck, pkt_ack := q\<rparr>)) (ap_sender w)]\<rparr>"
  using assms decode_initFrameOf [of q] by (auto simp: ap_handle_def onAcceptRecv_default startAccept_def)

lemmas world_simps = ap_accept_def ap_arrive_def newAccepting_def kRecvBufSize_def startAccept_def Let_def

definition afterJunk :: "(unit, unit, nat) Accepting" where
  "afterJunk = (let w = ap_arrive 7 [1, 2] 4 [] (ap_accept 4 (newAccepting 0))
     in ap_handle sampleAcceptor () () 0 4 NoError 2 (w\<lparr>ap_completed := []\<rparr>))"

definition afterInit :: "(unit, unit, nat) Accepting" where
  "afterInit = (let w = ap_arrive 7 (initFrameOf 3) 4 [] afterJunk
     in ap_handle sampleAcceptor () () 0 4 NoError 14 (w\<lparr>ap_completed := []\<rparr>))"

lemma afterJunk_reachable: "ap_reachable True sampleAcceptor 0 afterJunk"
proof -
  let ?w1 = "ap_accept 4 (newAccepting 0) :: (unit, unit, nat) Accepting" and ?w2 = "ap_arrive 7 [1, 2] 4 [] (ap_accept 4 (newAccepting 0))"
  have "ap_step True sampleAcceptor (newAccepting 0) ?w1" by (rule Accept) (simp add: outstanding_def newAccepting_def)
  then have "ap_reachable True sampleAcceptor 0 ?w1" by (rule Continue [OF Begin])
  moreover have "ap_step True sampleAcceptor ?w1 ?w2" by (rule Arrives) (simp add: ap_accept_def newAccepting_def)
  moreover have "ap_step True sampleAcceptor ?w2 afterJunk"
    unfolding afterJunk_def Let_def
    by (rule Handled) (simp add: ap_accept_def ap_arrive_def newAccepting_def kRecvBufSize_def)
  ultimately show ?thesis by (meson Continue)
qed

lemma afterJunk_state: "ap_listening afterJunk = [4]" "ap_completed afterJunk = []" "ap_answering afterJunk = []"
  "answers (ap_trace afterJunk) = []" "length (ap_taken afterJunk) = 1"
proof -
  have "decode [1, 2] = Inl BadPacket" by code_simp
  then show "ap_listening afterJunk = [4]" "ap_completed afterJunk = []" "ap_answering afterJunk = []"
    "answers (ap_trace afterJunk) = []" "length (ap_taken afterJunk) = 1"
    by (simp_all add: afterJunk_def handle_junk world_simps)
qed

lemma afterInit_reachable: "ap_reachable True sampleAcceptor 0 afterInit"
proof -
  let ?w = "ap_arrive 7 (initFrameOf 3) 4 [] afterJunk"
  have l: "ap_listening afterJunk = [4]" "ap_completed ?w = [(4, NoError, 14)]"
    using afterJunk_state by (simp_all add: world_simps)
  have "ap_step True sampleAcceptor afterJunk ?w" by (rule Arrives) (rule l(1))
  moreover have "ap_step True sampleAcceptor ?w afterInit" unfolding afterInit_def Let_def by (rule Handled) (rule l(2))
  ultimately show ?thesis using afterJunk_reachable by (meson Continue)
qed

theorem acceptor_serves_its_clients_witness:
  "ap_reachable True sampleAcceptor 0 afterInit \<and> length (ap_taken afterInit) = 2
    \<and> map fst (answers (ap_trace afterInit)) = [7]
    \<and> answers (ap_trace afterInit) = concat (map answerTo (ap_taken afterInit))
    \<and> mset (ap_calls afterInit) = mset (acceptDones (ap_trace afterInit)) + mset (outstanding afterInit)"
proof -
  have c: "ap_completed afterInit = []" "length (ap_taken afterInit) = 2" "map fst (answers (ap_trace afterInit)) = [7]"
    using afterJunk_state by (simp_all add: afterInit_def handle_init [where q = 3] world_simps)
  from acceptor_serves_its_clients [OF sample_codecs(2) afterInit_reachable]
  show ?thesis using afterInit_reachable unfolding c(1) dueAnswer.simps(2) append_Nil2 c(2,3) by blast
qed

text \<open>
  The rule of one accept is needed. With two accepts outstanding, when two clients' initial frames arrive
  before the first lambda runs, both answers go to the second client and the first gets none.
\<close>

definition overlapping :: "(unit, unit, nat) Accepting" where
  "overlapping = ap_arrive 8 (initFrameOf 6) 5 [] (ap_arrive 7 (initFrameOf 3) 4 [5] (ap_accept 5 (ap_accept 4 (newAccepting 0))))"

definition overlapped :: "(unit, unit, nat) Accepting" where
  "overlapped = (let w = ap_handle sampleAcceptor () () 0 4 NoError 14 (overlapping\<lparr>ap_completed := [(5, NoError, 14)]\<rparr>)
     in ap_handle sampleAcceptor () () 0 5 NoError 14 (w\<lparr>ap_completed := []\<rparr>))"

theorem overlapping_accepts_mix_clients:
  "ap_reachable False sampleAcceptor 0 overlapped \<and> map fst (ap_taken overlapped) = [7, 8]
    \<and> map fst (answers (ap_trace overlapped)) = [8, 8]"
proof -
  let ?w1 = "ap_accept 5 (ap_accept 4 (newAccepting 0)) :: (unit, unit, nat) Accepting"
  let ?w2 = "ap_arrive 7 (initFrameOf 3) 4 [5] ?w1"
  let ?w3 = "ap_handle sampleAcceptor () () 0 4 NoError 14 (overlapping\<lparr>ap_completed := [(5, NoError, 14)]\<rparr>)"
  have l: "ap_listening ?w1 = [4, 5]" "ap_listening ?w2 = [5]" "ap_completed overlapping = [(4, NoError, 14), (5, NoError, 14)]"
    "ap_completed ?w3 = [(5, NoError, 14)]"
    by (simp_all add: overlapping_def handle_init [where q = 6] world_simps)
  have "ap_reachable False sampleAcceptor 0 ?w1"
    by (rule Continue [OF Continue [OF Begin Accept [of False]] Accept]) simp_all
  then have "ap_reachable False sampleAcceptor 0 overlapping"
    unfolding overlapping_def by (rule Continue [OF Continue [OF _ Arrives [OF l(1)]] Arrives [OF l(2)]])
  then have "ap_reachable False sampleAcceptor 0 ?w3" by (rule Continue) (rule Handled, rule l(3))
  then have "ap_reachable False sampleAcceptor 0 overlapped"
    unfolding overlapped_def Let_def by (rule Continue) (rule Handled, rule l(4))
  moreover have "map fst (ap_taken overlapped) = [7, 8]" "map fst (answers (ap_trace overlapped)) = [8, 8]"
    by (simp_all add: overlapped_def overlapping_def handle_init [where q = 6] world_simps)
  ultimately show ?thesis by blast
qed

end
