(* ===== verification/Rude_SendGuard.thy ===== *)
theory Rude_SendGuard
  imports Rude_Prelude
begin

text \<open>
  \<^verbatim>\<open>detail/SendGuard.hpp\<close>: the guard that serializes asynchronous sends and starts waiting
  jobs by priority. A job is a name; starting it is the effect \<open>Start\<close>, whether it runs at once
  (no strand) or is dispatched to the strand. The completion callback that the job receives is
  \<open>sg_completed\<close>; after starting a job \<open>pump\<close> does nothing more, so a job that completes at
  once behaves like one that completes next.
\<close>

section \<open>The guard\<close>

type_synonym job = nat

record Entry =
  priority :: u8
  entry_job :: job

record SendGuard =
  sg_active :: bool
  sg_jobs :: "Entry list"

definition newSendGuard :: SendGuard where
  "newSendGuard = \<lparr>sg_active = False, sg_jobs = []\<rparr>"

definition sg_clear :: "SendGuard \<Rightarrow> SendGuard" where
  "sg_clear g = g\<lparr>sg_active := False, sg_jobs := []\<rparr>"

text \<open>\<open>reset\<close> also replaces the strand, which is not part of the state.\<close>

definition sg_reset :: "SendGuard \<Rightarrow> SendGuard" where
  "sg_reset g = g\<lparr>sg_active := False, sg_jobs := []\<rparr>"

definition pump :: "SendGuard \<Rightarrow> SendGuard \<times> Entry list" where
  "pump g =
     (if sg_active g then (g, [])
      else
        case sg_jobs g of
          [] \<Rightarrow> (g, [])
        | entry # rest \<Rightarrow> (g\<lparr>sg_active := True, sg_jobs := rest\<rparr>, [entry]))"

text \<open>The search for the position and the insertion there.\<close>

fun insertEntry :: "Entry \<Rightarrow> Entry list \<Rightarrow> Entry list" where
  "insertEntry e [] = [e]"
| "insertEntry e (x # xs) = (if priority x \<le> priority e then x # insertEntry e xs else e # x # xs)"

definition sg_enqueue :: "u8 \<Rightarrow> job \<Rightarrow> SendGuard \<Rightarrow> SendGuard \<times> Entry list" where
  "sg_enqueue p j g = pump (g\<lparr>sg_jobs := insertEntry \<lparr>priority = p, entry_job = j\<rparr> (sg_jobs g)\<rparr>)"

text \<open>The completion that the running job was given.\<close>

definition sg_completed :: "SendGuard \<Rightarrow> SendGuard \<times> Entry list" where
  "sg_completed g = pump (g\<lparr>sg_active := False\<rparr>)"

definition sg_empty :: "SendGuard \<Rightarrow> bool" where
  "sg_empty g \<longleftrightarrow> sg_jobs g = [] \<and> \<not> sg_active g"

definition sg_size :: "SendGuard \<Rightarrow> nat" where
  "sg_size g = length (sg_jobs g) + (if sg_active g then 1 else 0)"

section \<open>Insertion\<close>

lemma mset_insertEntry [simp]: "mset (insertEntry e xs) = add_mset e (mset xs)"
  by (induction xs) simp_all

lemma set_insertEntry [simp]: "set (insertEntry e xs) = insert e (set xs)"
  by (metis mset_insertEntry set_mset_add_mset_insert set_mset_mset)

lemma sorted_insertEntry:
  "sorted (map priority xs) \<Longrightarrow> sorted (map priority (insertEntry e xs))"
  by (induction xs) (auto intro: order.trans)

lemma filter_insertEntry:
  "sorted (map priority xs) \<Longrightarrow>
    filter (\<lambda>x. priority x = k) (insertEntry e xs)
      = filter (\<lambda>x. priority x = k) xs @ (if priority e = k then [e] else [])"
proof (induction xs)
  case (Cons a xs)
  have "filter (\<lambda>x. priority x = priority e) xs = []" if "priority e < priority a"
    using that Cons.prems by (auto simp: filter_empty_conv)
  with Cons show ?case by (auto simp: not_le)
qed simp

section \<open>Runs\<close>

text \<open>
  Calls on the guard. Each started job calls its completion exactly once, so a completion comes
  only while a job is running; \<open>playable\<close> states this for a list of calls.
\<close>

datatype sg_op = Enqueue u8 job | Completed

fun sg_step :: "sg_op \<Rightarrow> SendGuard \<Rightarrow> SendGuard \<times> Entry list" where
  "sg_step (Enqueue p j) g = sg_enqueue p j g"
| "sg_step Completed g = sg_completed g"

fun playable :: "sg_op list \<Rightarrow> SendGuard \<Rightarrow> bool" where
  "playable [] g = True"
| "playable (x # xs) g \<longleftrightarrow> (x = Completed \<longrightarrow> sg_active g) \<and> playable xs (fst (sg_step x g))"

fun enqueued :: "sg_op list \<Rightarrow> Entry list" where
  "enqueued [] = []"
| "enqueued (Enqueue p j # xs) = \<lparr>priority = p, entry_job = j\<rparr> # enqueued xs"
| "enqueued (Completed # xs) = enqueued xs"

definition sg_inv :: "SendGuard \<Rightarrow> bool" where
  "sg_inv g \<longleftrightarrow> sorted (map priority (sg_jobs g)) \<and> (sg_jobs g \<noteq> [] \<longrightarrow> sg_active g)"

abbreviation ofPriority :: "u8 \<Rightarrow> Entry list \<Rightarrow> Entry list" where
  "ofPriority k \<equiv> filter (\<lambda>e. priority e = k)"

lemma pump_result:
  assumes "sorted (map priority (sg_jobs g))" and "pump g = (g', es)"
  shows "sg_inv g' \<and> es @ sg_jobs g' = sg_jobs g \<and> (sg_active g \<longrightarrow> es = []) \<and> length es \<le> 1
    \<and> sg_active g' = (sg_active g \<or> es \<noteq> [])"
  using assms by (cases "sg_jobs g") (auto simp: pump_def sg_inv_def split: if_splits)

lemma sg_step_result:
  assumes i: "sg_inv g" and r: "sg_step x g = (g', es)" and c: "x = Completed \<longrightarrow> sg_active g"
  shows "sg_inv g'" and "ofPriority k (es @ sg_jobs g') = ofPriority k (sg_jobs g @ enqueued [x])"
    and "length es + of_bool (sg_active g) = of_bool (sg_active g') + of_bool (x = Completed)"
proof -
  have s: "sorted (map priority (sg_jobs g))" using i by (simp add: sg_inv_def)
  have "sg_inv g' \<and> ofPriority k (es @ sg_jobs g') = ofPriority k (sg_jobs g @ enqueued [x])
    \<and> length es + of_bool (sg_active g) = of_bool (sg_active g') + of_bool (x = Completed)"
  proof (cases x)
    case (Enqueue p j)
    let ?g = "g\<lparr>sg_jobs := insertEntry \<lparr>priority = p, entry_job = j\<rparr> (sg_jobs g)\<rparr>"
    have "pump ?g = (g', es)" using r Enqueue by (simp add: sg_enqueue_def)
    from pump_result [OF _ this] sorted_insertEntry [OF s] have
      q: "sg_inv g'" "es @ sg_jobs g' = sg_jobs ?g" "sg_active g \<longrightarrow> es = []" "length es \<le> 1"
        "sg_active g' = (sg_active g \<or> es \<noteq> [])" by auto
    then show ?thesis using Enqueue filter_insertEntry [OF s] by (cases es) auto
  next
    case Completed
    have "pump (g\<lparr>sg_active := False\<rparr>) = (g', es)" using r Completed by (simp add: sg_completed_def)
    from pump_result [OF _ this] s have
      q: "sg_inv g'" "es @ sg_jobs g' = sg_jobs g" "length es \<le> 1" "sg_active g' = (es \<noteq> [])" by auto
    then show ?thesis using Completed c by (cases es) auto
  qed
  then show "sg_inv g'" and "ofPriority k (es @ sg_jobs g') = ofPriority k (sg_jobs g @ enqueued [x])"
    and "length es + of_bool (sg_active g) = of_bool (sg_active g') + of_bool (x = Completed)" by simp_all
qed

lemma enqueued_Cons: "enqueued (x # xs) = enqueued [x] @ enqueued xs"
  by (cases x) simp_all

lemma sg_run:
  assumes "sg_inv g" and "playable ops g" and "runOps sg_step ops g = (g', es)"
  shows "sg_inv g' \<and> ofPriority k (es @ sg_jobs g') = ofPriority k (sg_jobs g @ enqueued ops)
    \<and> length es + of_bool (sg_active g) = of_bool (sg_active g') + length (filter (\<lambda>x. x = Completed) ops)"
  using assms
proof (induction ops arbitrary: g es)
  case (Cons x xs)
  obtain g1 es1 where s: "sg_step x g = (g1, es1)" by fastforce
  obtain es2 where r: "runOps sg_step xs g1 = (g', es2)" and es: "es = es1 @ es2"
    using Cons.prems(3) s by (auto split: prod.splits)
  have c: "x = Completed \<longrightarrow> sg_active g" and p: "playable xs g1" using Cons.prems(2) s by simp_all
  note q = sg_step_result [OF Cons.prems(1) s c]
  note IH = Cons.IH [OF q(1) p r]
  have "length es + of_bool (sg_active g)
      = of_bool (sg_active g') + length (filter (\<lambda>x. x = Completed) (x # xs))"
    using IH q(3) by (cases "x = Completed") (simp_all add: es)
  with IH q(2) [of k] show ?case by (simp add: es enqueued_Cons [of x xs])
qed simp

section \<open>Property\<close>

text \<open>
  C30: the guard serializes jobs and respects priorities. Let jobs be enqueued and completed in any
  interleaving, each started job completing once. Then at most one job has been started more than
  were completed, and the guard is active exactly while one is running; within each priority, the
  jobs started so far followed by those waiting are exactly the jobs enqueued, in order of arrival:
  none is lost, repeated or overtaken by one of its own priority. The waiting jobs are sorted by
  priority, so the next one started is one of the most urgent, and none waits while the guard is idle.
\<close>

theorem send_guard_serializes:
  assumes "playable ops newSendGuard" and "runOps sg_step ops newSendGuard = (g, started)"
  shows "length started = length (filter (\<lambda>x. x = Completed) ops) + of_bool (sg_active g)
    \<and> (\<forall>k. ofPriority k (started @ sg_jobs g) = ofPriority k (enqueued ops))
    \<and> sorted (map priority (sg_jobs g)) \<and> (sg_jobs g \<noteq> [] \<longrightarrow> sg_active g)"
proof -
  have "sg_inv newSendGuard" by (simp add: sg_inv_def newSendGuard_def)
  from sg_run [OF this assms] show ?thesis by (auto simp: sg_inv_def newSendGuard_def)
qed

definition guardOps :: "sg_op list" where
  "guardOps = [Enqueue 5 1, Enqueue 5 2, Enqueue 1 3, Completed]"

theorem send_guard_serializes_witness:
  "playable guardOps newSendGuard
   \<and> map entry_job (snd (runOps sg_step guardOps newSendGuard)) = [1, 3]
   \<and> sorted (map priority (sg_jobs (fst (runOps sg_step guardOps newSendGuard))))"
proof -
  have p: "playable guardOps newSendGuard" "map entry_job (snd (runOps sg_step guardOps newSendGuard)) = [1, 3]"
    by code_simp+
  then show ?thesis
    using send_guard_serializes [OF p(1) prod.collapse [symmetric]] by simp
qed

end
