(* ===== verification/Rude_Windows.thy ===== *)
theory Rude_Windows
  imports Rude_ChannelCommon
begin

text \<open>
  \<^verbatim>\<open>detail/AckedSet.hpp\<close> and \<^verbatim>\<open>detail/SlidingWindow.hpp\<close>: the duplicate-suppression
  bitmap and the send-window counter. The capacity \<open>N\<close> of the bitmap is the length of its list
  of bits.
\<close>

section \<open>AckedSet\<close>

record AckedSet =
  as_bits :: "bool list"
  as_base :: u16

definition newAckedSet :: "nat \<Rightarrow> AckedSet" where
  "newAckedSet N = \<lparr>as_bits = replicate N False, as_base = 0\<rparr>"

definition as_seen :: "u16 \<Rightarrow> AckedSet \<Rightarrow> bool" where
  "as_seen s a =
     (let offset = unat (s - as_base a) in
      if length (as_bits a) \<le> offset then 32768 < offset else as_bits a ! offset)"

text \<open>\<open>bitset >>= n\<close>.\<close>

definition shiftRight :: "nat \<Rightarrow> bool list \<Rightarrow> bool list" where
  "shiftRight n bs = drop n bs @ replicate (min n (length bs)) False"

definition as_mark :: "u16 \<Rightarrow> AckedSet \<Rightarrow> AckedSet" where
  "as_mark s a =
     (let N = length (as_bits a); offset = unat (s - as_base a) in
      if N \<le> offset then a
      else
        let a = a\<lparr>as_bits := (as_bits a)[offset := True]\<rparr> in
        if N div 2 \<le> offset
        then a\<lparr>as_bits := shiftRight (N div 2) (as_bits a), as_base := as_base a + of_nat (N div 2)\<rparr>
        else a)"

section \<open>SlidingWindow\<close>

record SlidingWindow =
  sw_base :: u16
  sw_ackBits :: u32
  sw_capacity :: u16
  sw_inFlight :: u64

definition newSlidingWindow :: "u16 \<Rightarrow> SlidingWindow" where
  "newSlidingWindow capacity = \<lparr>sw_base = 0, sw_ackBits = 0, sw_capacity = capacity, sw_inFlight = 0\<rparr>"

definition sw_isFull :: "SlidingWindow \<Rightarrow> bool" where
  "sw_isFull w \<longleftrightarrow> ucast (sw_capacity w) \<le> sw_inFlight w"

definition sw_contains :: "u16 \<Rightarrow> SlidingWindow \<Rightarrow> bool" where
  "sw_contains s w \<longleftrightarrow> s - sw_base w < sw_capacity w"

definition sw_onSend :: "SlidingWindow \<Rightarrow> SlidingWindow" where
  "sw_onSend w = w\<lparr>sw_inFlight := sw_inFlight w + 1\<rparr>"

text \<open>The counting loop, \<open>delta - i\<close> rounds of it left.\<close>

fun slideLoop :: "nat \<Rightarrow> u64 \<Rightarrow> u16 \<Rightarrow> u64 \<times> u16" where
  "slideLoop 0 inFlight advanced = (inFlight, advanced)"
| "slideLoop (Suc n) inFlight advanced =
     (if 0 < inFlight then slideLoop n (inFlight - 1) (advanced + 1) else slideLoop n inFlight advanced)"

text \<open>The loop over the mask: each round clears its lowest bit.\<close>

lemma clear_lowest_less: "x AND (x - 1) < x" if "x \<noteq> 0" for x :: u32
proof -
  have "0 < unat x" using that by (simp add: unat_gt_0)
  then have "x - 1 < x" using that by (simp add: word_less_nat_alt unat_minus_one)
  then show ?thesis using word_and_le1 [of x "x - 1"] by (rule order.strict_trans1 [rotated])
qed

function maskLoop :: "u32 \<Rightarrow> u64 \<Rightarrow> u64" where
  "maskLoop bits inFlight =
     (if bits \<noteq> 0 then maskLoop (bits AND (bits - 1)) (if 0 < inFlight then inFlight - 1 else inFlight)
      else inFlight)"
  by pat_completeness auto
termination
  by (relation "measure (\<lambda>(bits, inFlight). unat bits)")
    (use clear_lowest_less in \<open>auto simp: word_less_nat_alt\<close>)

declare maskLoop.simps [simp del]

definition sw_onAck :: "u16 \<Rightarrow> u32 \<Rightarrow> SlidingWindow \<Rightarrow> bool \<times> SlidingWindow" where
  "sw_onAck ack bits w =
     (let delta = ack - sw_base w in
      if delta = 0 \<or> sw_capacity w \<le> delta then (False, w)
      else
        let (inFlight, advanced) = slideLoop (unat delta) (sw_inFlight w) 0;
            inFlight = maskLoop bits inFlight
        in (0 < advanced, w\<lparr>sw_base := ack, sw_ackBits := bits, sw_inFlight := inFlight\<rparr>))"

section \<open>The acknowledged set refines a set of indices\<close>

text \<open>
  Behind the 16-bit numbers stand unbounded indices. The bitmap with base \<open>b\<close> represents the set
  \<open>R\<close> of indices marked at or above \<open>b\<close>; the specification of a mark adds the index if it is in the
  window and moves the base by half a window when the index is in the upper half.
\<close>

definition as_rel :: "nat \<Rightarrow> AckedSet \<Rightarrow> nat \<Rightarrow> nat set \<Rightarrow> bool" where
  "as_rel N a b R \<longleftrightarrow> length (as_bits a) = N \<and> as_base a = of_nat b \<and> (\<forall>n\<in>R. n < b + N)
     \<and> (\<forall>i<N. as_bits a ! i \<longleftrightarrow> b + i \<in> R)"

definition markSpec :: "nat \<Rightarrow> nat \<Rightarrow> nat \<times> nat set \<Rightarrow> nat \<times> nat set" where
  "markSpec N n = (\<lambda>(b, R).
     if n < b \<or> b + N \<le> n then (b, R)
     else (if b + N div 2 \<le> n then b + N div 2 else b, insert n R))"

definition nearBase :: "nat \<Rightarrow> nat \<Rightarrow> bool" where
  "nearBase b n \<longleftrightarrow> n \<le> b + 32768 \<and> b < n + 32768"

lemma offset_index:
  assumes "nearBase b n"
  shows "unat (of_nat n - of_nat b :: u16) = (if b \<le> n then n - b else 65536 - (b - n))"
proof (cases "b \<le> n")
  case True
  then show ?thesis using assms by (simp add: seq_simps nearBase_def)
next
  case False
  then show ?thesis using assms unat_diff_of_nat_u16_back [of n b] by (simp add: nearBase_def)
qed

lemma as_seen_index:
  assumes "as_rel N a b R" and "nearBase b n" and "N \<le> 32768"
  shows "as_seen (of_nat n) a \<longleftrightarrow> n < b \<or> n \<in> R"
  using assms offset_index [OF assms(2)]
  by (auto simp: as_seen_def as_rel_def Let_def nearBase_def split: if_splits)

lemma nth_shiftRight:
  "i < length bs \<Longrightarrow> n \<le> length bs \<Longrightarrow> shiftRight n bs ! i \<longleftrightarrow> i + n < length bs \<and> bs ! (i + n)"
  by (auto simp: shiftRight_def nth_append add.commute)

lemma as_mark_refines:
  assumes r: "as_rel N a b R" and n: "nearBase b n" "N \<le> 32768" and m: "markSpec N n (b, R) = (b', R')"
  shows "as_rel N (as_mark (of_nat n) a) b' R'"
proof (cases "n < b \<or> b + N \<le> n")
  case True
  then show ?thesis
    using assms offset_index [OF n(1)]
    by (auto simp: as_mark_def as_rel_def markSpec_def Let_def nearBase_def split: if_splits)
next
  case False
  let ?bits = "(as_bits a)[n - b := True]"
  have o: "unat (of_nat n - as_base a) = n - b" "length (as_bits a) = N" "n - b < N"
    using False r offset_index [OF n(1)] by (auto simp: as_rel_def)
  have bits: "?bits ! i \<longleftrightarrow> b + i \<in> insert n R" if "i < N" for i
    using that r False by (auto simp: as_rel_def nth_list_update split: if_splits)
  have lt: "\<forall>j\<in>insert n R. j < b + N" using r False by (simp add: as_rel_def)
  show ?thesis
  proof (cases "b + N div 2 \<le> n")
    case True
    have "shiftRight (N div 2) ?bits ! i \<longleftrightarrow> b + N div 2 + i \<in> insert n R" if "i < N" for i
      using that o nth_shiftRight [of i ?bits "N div 2"] bits [of "i + N div 2"] lt
      by (auto simp: ac_simps)
    moreover have "length (shiftRight (N div 2) ?bits) = N" using o by (simp add: shiftRight_def)
    moreover have "as_mark (of_nat n) a
        = a\<lparr>as_bits := shiftRight (N div 2) ?bits, as_base := as_base a + of_nat (N div 2)\<rparr>"
      using o True False by (simp add: as_mark_def Let_def)
    moreover have "b' = b + N div 2" "R' = insert n R" using m True False by (auto simp: markSpec_def)
    ultimately show ?thesis using r lt by (auto simp: as_rel_def)
  next
    case lower: False
    then have "\<not> N div 2 \<le> n - b" using False by linarith
    then have "as_mark (of_nat n) a = a\<lparr>as_bits := ?bits\<rparr>"
      using o by (simp add: as_mark_def Let_def)
    moreover have "b' = b" "R' = insert n R" using m lower False by (auto simp: markSpec_def)
    ultimately show ?thesis using r lt bits o by (auto simp: as_rel_def)
  qed
qed

fun markAllSpec :: "nat \<Rightarrow> nat list \<Rightarrow> nat \<times> nat set \<Rightarrow> nat \<times> nat set" where
  "markAllSpec N [] = (\<lambda>r. r)"
| "markAllSpec N (n # ns) = (\<lambda>r. markAllSpec N ns (markSpec N n r))"

fun marksNear :: "nat \<Rightarrow> nat list \<Rightarrow> nat \<times> nat set \<Rightarrow> bool" where
  "marksNear N [] r = True"
| "marksNear N (n # ns) r \<longleftrightarrow> nearBase (fst r) n \<and> marksNear N ns (markSpec N n r)"

definition as_markAll :: "nat list \<Rightarrow> AckedSet \<Rightarrow> AckedSet" where
  "as_markAll ns a = fold (\<lambda>n. as_mark (of_nat n)) ns a"

lemma as_markAll_refines:
  "as_rel N a b R \<Longrightarrow> marksNear N ns (b, R) \<Longrightarrow> N \<le> 32768 \<Longrightarrow> markAllSpec N ns (b, R) = (b', R') \<Longrightarrow>
    as_rel N (as_markAll ns a) b' R'"
proof (induction ns arbitrary: a b R)
  case (Cons n ns)
  obtain b1 R1 where m: "markSpec N n (b, R) = (b1, R1)" by fastforce
  have "as_rel N (as_mark (of_nat n) a) b1 R1"
    using as_mark_refines [OF Cons.prems(1) _ Cons.prems(3) m] Cons.prems(2) by simp
  from Cons.IH [OF this] Cons.prems m show ?case by (simp add: as_markAll_def)
qed (simp add: as_markAll_def)

fun marksWithin :: "nat \<Rightarrow> nat list \<Rightarrow> nat \<times> nat set \<Rightarrow> bool" where
  "marksWithin N [] r = True"
| "marksWithin N (n # ns) r \<longleftrightarrow> n < fst r + N \<and> marksWithin N ns (markSpec N n r)"

lemma markAllSpec_bounds:
  "markAllSpec N ns (b, R) = (b', R') \<Longrightarrow> b \<le> b' \<and> R \<subseteq> R' \<and> R' \<subseteq> R \<union> set ns
    \<and> (marksWithin N ns (b, R) \<longrightarrow> (\<forall>n\<in>set ns. n < b' \<or> n \<in> R'))"
proof (induction ns arbitrary: b R)
  case (Cons n ns)
  obtain b1 R1 where m: "markSpec N n (b, R) = (b1, R1)" by fastforce
  then have s: "b \<le> b1" "R \<subseteq> R1" "R1 \<subseteq> insert n R" "n < b + N \<longrightarrow> n < b1 \<or> n \<in> R1"
    by (auto simp: markSpec_def split: if_splits)
  have IH: "b1 \<le> b' \<and> R1 \<subseteq> R' \<and> R' \<subseteq> R1 \<union> set ns
      \<and> (marksWithin N ns (b1, R1) \<longrightarrow> (\<forall>n\<in>set ns. n < b' \<or> n \<in> R'))"
    using Cons.IH [of b1 R1] Cons.prems m by simp
  have "n < b' \<or> n \<in> R'" if "n < b + N" using s(4) that IH by auto
  then show ?case using s IH m by auto
qed simp

text \<open>
  C31: the duplicate filter refines a set of indices with a moving base. For any marks near the base of
  their moment, a query near the final base answers yes exactly for the indices below the base and
  those marked in their window: no index at or above the base that was not marked is reported, and if
  no mark was ahead of the window, every marked index is still reported. An index below the base is
  reported whether or not it was marked: the base moves by half a window as soon as an index of the
  upper half is marked.
\<close>

theorem acked_set_refines_index_set:
  assumes "N \<le> 32768" and "marksNear N ns (0, {})" and "markAllSpec N ns (0, {}) = (b, R)"
  shows "R \<subseteq> set ns
    \<and> (\<forall>n. nearBase b n \<longrightarrow> (as_seen (of_nat n) (as_markAll ns (newAckedSet N)) \<longleftrightarrow> n < b \<or> n \<in> R))
    \<and> (marksWithin N ns (0, {}) \<longrightarrow>
        (\<forall>n\<in>set ns. nearBase b n \<longrightarrow> as_seen (of_nat n) (as_markAll ns (newAckedSet N))))"
proof -
  have "as_rel N (newAckedSet N) 0 {}" by (simp add: as_rel_def newAckedSet_def)
  from as_markAll_refines [OF this assms(2,1,3)] have "as_rel N (as_markAll ns (newAckedSet N)) b R" .
  then show ?thesis
    using as_seen_index [OF _ _ assms(1)] markAllSpec_bounds [OF assms(3)] by auto
qed

theorem acked_set_refines_index_set_witness:
  "marksNear 8 [0, 5, 5] (0, {}) \<and> markAllSpec 8 [0, 5, 5] (0, {}) = (4, {0, 5})
   \<and> as_seen 5 (as_markAll [0, 5, 5] (newAckedSet 8)) \<and> as_seen 2 (as_markAll [0, 5, 5] (newAckedSet 8))
   \<and> \<not> as_seen 6 (as_markAll [0, 5, 5] (newAckedSet 8))"
proof -
  have m: "markAllSpec 8 [0, 5, 5] (0, {}) = (4, {0, 5})" "marksNear 8 [0, 5, 5] (0, {})"
    by (simp_all add: markSpec_def nearBase_def insert_commute)
  have "\<forall>n. nearBase 4 n \<longrightarrow> (as_seen (of_nat n) (as_markAll [0, 5, 5] (newAckedSet 8)) \<longleftrightarrow> n < 4 \<or> n \<in> {0, 5})"
    using acked_set_refines_index_set [OF _ m(2,1)] by simp
  from this [rule_format, of 5] this [rule_format, of 2] this [rule_format, of 6] m show ?thesis
    by (simp add: nearBase_def)
qed

section \<open>The sliding window\<close>

fun popCount :: "nat \<Rightarrow> nat" where
  "popCount n = (if n = 0 then 0 else n mod 2 + popCount (n div 2))"

declare popCount.simps [simp del]

lemma popCount_0 [simp]: "popCount 0 = 0"
  by (simp add: popCount.simps)

lemma popCount_double: "popCount (2 * n) = popCount n" "popCount (Suc (2 * n)) = Suc (popCount n)"
  by (subst popCount.simps, simp)+

lemma popCount_clear_lowest: "n \<noteq> 0 \<Longrightarrow> Suc (popCount (n AND (n - 1))) = popCount n"
proof (induction n rule: popCount.induct)
  case (1 n)
  show ?case
  proof (cases "even n")
    case True
    then obtain m where m: "n = 2 * m" "m \<noteq> 0" using 1(2) by (auto elim: evenE)
    have "n AND (n - 1) = 2 * (m AND (m - 1))"
      using m and_nat_rec [of n "n - 1"] by (cases m) simp_all
    then show ?thesis using 1 m by (simp add: popCount_double)
  next
    case False
    then obtain m where m: "n = Suc (2 * m)" by (auto elim: oddE)
    have "n AND (n - 1) = 2 * m"
      using m and_nat_rec [of n "n - 1"] by simp
    then show ?thesis using m by (simp add: popCount_double)
  qed
qed

lemma slideLoop_result:
  "unat adv + n < 65536 \<Longrightarrow>
    slideLoop n m adv = (m - of_nat (min n (unat m)), adv + of_nat (min n (unat m)))"
proof (induction n arbitrary: m adv)
  case (Suc n)
  show ?case
  proof (cases "m = 0")
    case False
    then have m: "unat m = Suc (unat (m - 1))" by (simp add: unat_minus_one unat_gt_0)
    have "unat (adv + 1) + n < 65536" using Suc.prems by (simp add: unat_word_ariths)
    from Suc.IH [OF this, of "m - 1"] show ?thesis
      using False by (simp add: m word_gt_0 min_def algebra_simps)
  next
    case True
    then show ?thesis using Suc.IH [of adv 0] Suc.prems by simp
  qed
qed simp

lemma maskLoop_result: "maskLoop bits m = m - of_nat (min (popCount (unat bits)) (unat m))"
proof (induction bits m rule: maskLoop.induct)
  case (1 bits m)
  show ?case
  proof (cases "bits = 0")
    case False
    have p: "Suc (popCount (unat (bits AND (bits - 1)))) = popCount (unat bits)"
      using False popCount_clear_lowest [of "unat bits"] by (simp add: unsigned_and_eq unat_minus_one unat_eq_zero)
    show ?thesis
    proof (cases "m = 0")
      case True
      then show ?thesis using 1 False by (subst maskLoop.simps) simp
    next
      case m: False
      then have "unat m = Suc (unat (m - 1))" by (simp add: unat_minus_one unat_gt_0)
      then show ?thesis using 1 False m p
        by (subst maskLoop.simps) (simp add: word_gt_0 flip: p)
    qed
  qed (simp add: maskLoop.simps)
qed

lemma word_minus_min: "m - of_nat (min k (unat m)) = of_nat (unat m - k)" for m :: u64
  by (cases "k \<le> unat m") (simp_all add: of_nat_diff min_def)

text \<open>
  Both loops of \<open>onAck\<close> end, and together they are a saturating subtraction. An acknowledgement of
  the base, or one that is not inside the window, changes nothing. Any other makes the acknowledged
  number the new base and takes from the packets in flight one for each position that the base moves
  and one more for every bit of the mask, stopping at zero: the counter never wraps. The result tells
  whether anything was in flight.
\<close>

theorem sliding_window_on_ack:
  "sw_onAck ack bits w =
     (let delta = unat (ack - sw_base w); n = unat (sw_inFlight w) in
      if delta = 0 \<or> unat (sw_capacity w) \<le> delta then (False, w)
      else (0 < n, w\<lparr>sw_base := ack, sw_ackBits := bits,
                     sw_inFlight := of_nat (n - (delta + popCount (unat bits)))\<rparr>))"
proof (cases "ack - sw_base w = 0 \<or> sw_capacity w \<le> ack - sw_base w")
  case True
  then show ?thesis by (auto simp: sw_onAck_def Let_def word_le_nat_alt)
next
  case False
  let ?d = "unat (ack - sw_base w)" and ?n = "unat (sw_inFlight w)"
  have d: "0 < ?d" "?d < 65536" using False by (simp_all add: unat_gt_0)
  have s: "slideLoop ?d (sw_inFlight w) 0 = (of_nat (?n - ?d), of_nat (min ?d ?n))"
    using slideLoop_result [of 0 ?d "sw_inFlight w"] d by (simp add: word_minus_min)
  have "unat (of_nat (min ?d ?n) :: u16) = min ?d ?n"
    using min.strict_coboundedI1 [OF d(2), of ?n] by (simp add: unat_of_nat_u16)
  then have "0 < (of_nat (min ?d ?n) :: u16) \<longleftrightarrow> 0 < ?n"
    using d by (simp add: word_less_nat_alt)
  moreover have "maskLoop bits (of_nat (?n - ?d)) = of_nat (?n - (?d + popCount (unat bits)))"
  proof -
    have "?n - ?d < 2 ^ 64"
      by (rule le_less_trans [OF diff_le_self]) (rule order_less_le_trans [OF unsigned_less], simp)
    then have "unat (of_nat (?n - ?d) :: u64) = ?n - ?d" by (simp add: unat_of_nat)
    then show ?thesis
      using word_minus_min [of "of_nat (?n - ?d)" "popCount (unat bits)"] by (simp add: maskLoop_result)
  qed
  ultimately show ?thesis
    using False by (simp add: sw_onAck_def Let_def s word_le_nat_alt unat_eq_zero)
qed

end
