(* ===== verification/Rude_Link.thy ===== *)
theory Rude_Link
  imports Rude_RecvProperties Rude_Channels
begin

text \<open>
  Two reliable channels and the network between them. The sender's run is any sequence of calls, with
  any acknowledgements coming in; the network may lose, repeat and reorder its datagrams; the
  receiver's run is any sequence of calls in which the data packets that arrive are decoded from
  datagrams of the sender. The theorems say what the receiving application gets of what the sending
  application was told is sent, why the packet that a receiver waits for is always taken and
  acknowledged, and when a sender is never told.
\<close>

section \<open>The sender's log\<close>

text \<open>
  The sends that a run of the sender accepted, in order: the unbounded index behind the 16-bit
  sequence number, the payload, and the datagram. A refused send may consume an index, which the log
  then skips.
\<close>

fun logEntry :: "'ep rc_op \<Rightarrow> nat \<Rightarrow> 'ep effect list \<Rightarrow> (nat \<times> bytes \<times> bytes) list" where
  "logEntry (RcSend now m ep h) k es = map (\<lambda>(bs, dest, c). (k, m, bs)) (datagrams es)"
| "logEntry op k es = []"

fun sentLog ::
  "'cc CongestionCtrl \<Rightarrow> PacketCodec \<Rightarrow> bool \<Rightarrow> 'ep rc_op list \<Rightarrow> nat \<Rightarrow> 'cc ReliableChannel \<times> SocketStats
    \<Rightarrow> (nat \<times> bytes \<times> bytes) list" where
  "sentLog cc codec ordered [] k s = []"
| "sentLog cc codec ordered (op # ops) k s =
     (case rc_step cc codec ordered op s of
        None \<Rightarrow> []
      | Some (s', es) \<Rightarrow> logEntry op k es
          @ sentLog cc codec ordered ops (k + unat (rc_nextSeq (fst s') - rc_nextSeq (fst s))) s')"

text \<open>The datagram \<open>bs\<close> is the data packet of index \<open>i\<close> with payload \<open>m\<close>.\<close>

definition carries :: "PacketCodec \<Rightarrow> nat \<Rightarrow> bytes \<Rightarrow> bytes \<Rightarrow> bool" where
  "carries codec i m bs \<longleftrightarrow>
     (\<exists>p. cdc_decode codec bs = Inr p \<and> pkt_type p = Data \<and> pkt_seq p = of_nat i \<and> pkt_payload p = m)"

lemma drain_nextSeq:
  assumes "drainReadyPackets c st = (c', st', es)"
  shows "rc_nextSeq c' = rc_nextSeq c"
  using assms by (induction rule: drain_induct) (simp_all add: advanced_def)

lemma send_number:
  assumes "rc_asyncSend cc codec now m ep h c st = (c', st', es)"
  shows "(rc_nextSeq c' = rc_nextSeq c \<and> datagrams es = [])
    \<or> (rc_nextSeq c' = rc_nextSeq c + 1 \<and> length (datagrams es) \<le> 1)"
proof -
  obtain w k where w: "effectiveSendWindow cc now c = (w, c\<lparr>rc_cc := k\<rparr>)"
    using effectiveSendWindow_channel by (metis surj_pair)
  show ?thesis
    using assms unfolding rc_asyncSend_def w
    by (auto simp: Let_def storeSentPacket_def split: if_splits)
qed

lemma other_number:
  assumes "rc_step cc codec ordered op (c, st) = Some ((c', st'), es)" and "\<And>now m ep h. op \<noteq> RcSend now m ep h"
  shows "rc_nextSeq c' = rc_nextSeq c"
proof -
  have r: "rc_onRecv cc ordered now p c st = Some (c', st', es) \<Longrightarrow> ?thesis" for now p
    by (auto simp: rc_onRecv_def receiveOrdered_def receiveUnordered_def processAck_def Let_def
        bind_eq_Some_conv case_prod_beta split: if_splits dest: drain_nextSeq)
  show ?thesis
    using assms r
    by (cases op) (auto simp: rc_onSent_def rc_onTick_def rc_asyncRecv_def rc_close_def eraseSentPacket_def Let_def
        split: prod.splits if_splits option.splits)
qed

context packet_codec
begin

text \<open>One step: the entry it logs has the next index, and decodes to the packet with that index.\<close>

lemma step_log:
  assumes s: "rc_step cc codec ordered op (c, st) = Some ((c', st'), es)" and n: "rc_nextSeq c = of_nat k"
  shows "\<exists>d. d \<le> 1 \<and> rc_nextSeq c' = of_nat (k + d) \<and> unat (rc_nextSeq c' - rc_nextSeq c) = d
    \<and> length (logEntry op k es) \<le> d
    \<and> (\<forall>(i, m, bs) \<in> set (logEntry op k es). i = k \<and> carries codec i m bs)"
proof (cases "\<exists>now m ep h. op = RcSend now m ep h")
  case True
  then obtain now m ep h where op: "op = RcSend now m ep h" by blast
  then have a: "rc_asyncSend cc codec now m ep h c st = (c', st', es)" using s by (auto split: prod.splits)
  have "\<forall>(i, m', bs) \<in> set (logEntry op k es). i = k \<and> carries codec i m' bs"
    using send_first [OF a] n by (fastforce simp: op carries_def)
  moreover have "(rc_nextSeq c' = rc_nextSeq c \<and> logEntry op k es = [])
      \<or> (rc_nextSeq c' = rc_nextSeq c + 1 \<and> length (logEntry op k es) \<le> 1)"
    using send_number [OF a] by (auto simp: op)
  ultimately show ?thesis
    using n by (elim disjE) (auto intro!: exI [of _ 0] exI [of _ 1] simp: add.commute)
next
  case False
  then have "logEntry op k es = []" by (cases op) auto
  then show ?thesis using other_number [OF s] False n by (intro exI [of _ 0]) auto
qed

lemma run_log:
  assumes "rc_nextSeq (fst s) = of_nat k"
  shows "sorted_wrt (<) (map fst (sentLog cc codec ordered ops k s))
    \<and> (\<forall>(i, m, bs) \<in> set (sentLog cc codec ordered ops k s). k \<le> i \<and> carries codec i m bs)"
  using assms
proof (induction ops arbitrary: k s)
  case (Cons op ops)
  obtain c st where s: "s = (c, st)" by fastforce
  show ?case
  proof (cases "rc_step cc codec ordered op s")
    case (Some r)
    note [simp del] = sentLog.simps
    obtain c' st' es where r: "r = ((c', st'), es)" by (metis surj_pair)
    have n: "rc_nextSeq c = of_nat k" using Cons.prems s by simp
    from step_log [OF Some [unfolded s r] n] obtain d where
      d: "d \<le> 1" "rc_nextSeq c' = of_nat (k + d)" "unat (rc_nextSeq c' - rc_nextSeq c) = d"
        "length (logEntry op k es) \<le> d" and
      e: "\<forall>(i, m, bs) \<in> set (logEntry op k es). i = k \<and> carries codec i m bs" by blast
    let ?rest = "sentLog cc codec ordered ops (k + d) (c', st')"
    have IH: "sorted_wrt (<) (map fst ?rest)" "\<forall>(i, m, bs) \<in> set ?rest. k + d \<le> i \<and> carries codec i m bs"
      using Cons.IH [of "(c', st')" "k + d"] d(2) by simp_all
    have l: "sentLog cc codec ordered (op # ops) k s = logEntry op k es @ ?rest"
      using Some d(3) by (simp add: s r sentLog.simps)
    show ?thesis
    proof (cases "logEntry op k es")
      case Nil
      then show ?thesis using IH by (auto simp: l)
    next
      case (Cons x xs)
      then have "Suc (length xs) \<le> d" using d(4) by simp
      then have "xs = []" and "d = 1" using d(1) by (cases xs; simp)+
      with Cons have x: "logEntry op k es = [x]" "d = 1" by simp_all
      obtain i m bs where "x = (i, m, bs)" by (rule prod_cases3)
      then show ?thesis using IH e x by (auto simp: l)
    qed
  qed simp
qed simp

end

text \<open>Every datagram of a run, first or repeated, is in the log or was held before the run.\<close>

lemma step_logged:
  assumes s: "rc_step cc codec ordered op (c, st) = Some ((c', st'), es)"
    and m: "(bs, ep, q) \<in> set (datagrams es)"
  shows "bs \<in> heldBytes c \<or> (\<exists>i m. (i, m, bs) \<in> set (logEntry op k es))"
proof (cases op)
  case (RcSend now m' ep' h)
  then show ?thesis using m by force
next
  case (RcTick now ep')
  then show ?thesis using s m
    by (fastforce simp: in_datagrams_iff expired_def heldBytes_def split: prod.splits dest!: rc_onTick_channel)
next
  case (RcFlush ep')
  then show ?thesis using s m
    by (auto simp: in_datagrams_iff rc_flush_def flushLoop_map heldBytes_def split: option.splits)
next
  case (RcPacket now pkt)
  then show ?thesis using s m by (auto dest!: receive_quiet)
next
  case (RcSent sq h ec)
  then show ?thesis using s m by (auto split: prod.splits dest!: onSent_held)
next
  case (RcRecv buf h)
  then show ?thesis
    using s m rq_quiet(2) by (fastforce simp: rc_asyncRecv_def Let_def split: prod.splits)
next
  case (RcClose ec)
  then show ?thesis
    using s m rq_quiet(3) by (fastforce simp: rc_close_def Let_def split: prod.splits)
qed

lemma held_or_logged:
  assumes s: "rc_step cc codec ordered op (c, st) = Some ((c', st'), es)"
  shows "heldBytes c' \<subseteq> heldBytes c \<union> {bs. \<exists>i m. (i, m, bs) \<in> set (logEntry op k es)}"
proof
  fix bs assume "bs \<in> heldBytes c'"
  then have "bs \<in> heldBytes c \<or> bs \<in> firstBytes (rc_id c) es" using step_held(1) [OF s] by auto
  then show "bs \<in> heldBytes c \<union> {bs. \<exists>i m. (i, m, bs) \<in> set (logEntry op k es)}"
    using step_logged [OF s, of bs _ _ k] by (auto simp: firstBytes_def)
qed

lemma run_logged:
  "runPartial (rc_step cc codec ordered) ops s = Some (s', es) \<Longrightarrow> (bs, ep, q) \<in> set (datagrams es) \<Longrightarrow>
    bs \<in> heldBytes (fst s) \<or> (\<exists>i m. (i, m, bs) \<in> set (sentLog cc codec ordered ops k s))"
proof (induction ops arbitrary: s k es)
  case (Cons op ops)
  from Cons.prems(1) obtain s1 es1 es2 where
    step: "rc_step cc codec ordered op s = Some (s1, es1)" and
    run: "runPartial (rc_step cc codec ordered) ops s1 = Some (s', es2)" and es: "es = es1 @ es2"
    by (rule runPartial_Cons_SomeE)
  obtain c st c1 st1 where p: "s = (c, st)" "s1 = (c1, st1)" by fastforce
  let ?k = "k + unat (rc_nextSeq (fst s1) - rc_nextSeq (fst s))"
  have l: "sentLog cc codec ordered (op # ops) k s = logEntry op k es1 @ sentLog cc codec ordered ops ?k s1"
    using step by (simp add: p)
  show ?case
  proof (cases "(bs, ep, q) \<in> set (datagrams es1)")
    case True
    then show ?thesis unfolding l using step_logged [OF step [unfolded p] True, of k] by (auto simp: p(1))
  next
    case False
    then have "(bs, ep, q) \<in> set (datagrams es2)" using Cons.prems(2) by (simp add: es)
    from Cons.IH [OF run this, of ?k] held_or_logged [OF step [unfolded p], of k] show ?thesis
      unfolding l by (auto simp: p)
  qed
qed simp

lemma heldBytes_new: "heldBytes (newReliableChannel cfg k) = {}"
  by (auto simp: heldBytes_def newReliableChannel_def Let_def)

lemma strictly_sorted_prefix:
  assumes "sorted_wrt (<) xs" and "{0..<n} \<subseteq> set (xs :: nat list)"
  shows "take n xs = [0..<n]"
  using assms(2)
proof (induction n)
  case (Suc n)
  have t: "take n xs = [0..<n]" using Suc by force
  have "n \<in> set xs" using Suc.prems by auto
  then obtain j where j: "j < length xs" "xs ! j = n" by (auto simp: in_set_conv_nth)
  have "length (take n xs) = n" using t by simp
  then have len: "n \<le> length xs" by simp
  have "\<not> j < n"
  proof
    assume "j < n"
    then have "xs ! j = take n xs ! j" by simp
    then show False using t j \<open>j < n\<close> by simp
  qed
  moreover have "\<not> n < j"
  proof
    assume "n < j"
    then have "xs ! n < n" using sorted_wrt_nth_less [OF assms(1) \<open>n < j\<close> j(1)] j(2) by simp
    then have "xs ! n = take n xs ! (xs ! n)" using t by simp
    then have "xs ! n = xs ! (xs ! n)" using \<open>xs ! n < n\<close> by simp
    then show False
      using sorted_wrt_nth_less [OF assms(1) \<open>xs ! n < n\<close>] \<open>n < j\<close> j(1) by simp
  qed
  ultimately have "xs ! n = n" "n < length xs" using j by simp_all
  then show ?case using t by (simp add: take_Suc_conv_app_nth)
qed simp

section \<open>End to end\<close>

text \<open>
  What the receiving application gets is what the sending application sent. Let a channel, over the
  default codec, run through any calls, with any acknowledgements or other packets coming in; let a
  reliable ordered channel receive, in any order, with losses and repetitions and any other calls in
  between, packets decoded from datagrams of that run, each within half the number space of the index it
  expects next, its window dividing the number space. Then the messages that the receiver hands to its
  application, followed by those still queued for it, are the payloads of the first sends that the sender
  accepted: in order, none missing, none repeated, none altered except for a receive buffer that is too
  short for its message.
\<close>

theorem end_to_end_in_order:
  assumes "windowCapacity (opt_sendWindow cfg) dvd 65536" and "windowCapacity (opt_sendWindow cfg) < 32768"
    and "runPartial (rc_step ccA DefaultCodec orderedA) opsA (newReliableChannel cfgA kA, stA)
      = Some ((a, stA'), esA)"
    and "sends = sentLog ccA DefaultCodec orderedA opsA 0 (newReliableChannel cfgA kA, stA)"
    and "\<forall>i \<in> arrived ops. \<exists>m bs. (i, m, bs) \<in> set sends \<and> decode bs = Inr (pk i)"
    and "run_near B pk cc codec ops 0 (newReliableChannel cfg k, st)"
    and "runPartial (peer_step True pk cc codec) ops (newReliableChannel cfg k, st) = Some ((c, st'), es)"
  shows "(\<forall>(bs, ep, q) \<in> set (datagrams esA). \<exists>i m. (i, m, bs) \<in> set sends)
    \<and> (\<forall>i \<in> arrived ops. streamPacket pk i = pk i)
    \<and> (\<exists>n ms. handedOut es ms \<and> n \<le> length sends \<and> rc_expectedRecvSeq c = of_nat n \<and> {0..<n} \<subseteq> set (map fst sends)
        \<and> ms @ rq_queued (rc_recvQueue c) = map (\<lambda>(i, m, bs). m) (take n sends))"
proof -
  let ?msg = "\<lambda>i. pkt_payload (pk i)" and ?m = "\<lambda>(i, m, bs). m :: bytes"
  have dec: "cdc_decode DefaultCodec = decode" by (simp add: DefaultCodec_def)
  have "rc_nextSeq (fst (newReliableChannel cfgA kA, stA)) = of_nat 0" by (simp add: newReliableChannel_def Let_def)
  from default_codec.run_log [OF this, of ccA orderedA opsA] have
    srt: "sorted_wrt (<) (map fst sends)" and
    car: "(i, m, bs) \<in> set sends \<Longrightarrow> carries DefaultCodec i m bs" for i m bs
    unfolding assms(4) by auto
  have pk: "\<exists>bs m. (i, m, bs) \<in> set sends \<and> pkt_type (pk i) = Data \<and> pkt_seq (pk i) = of_nat i \<and> pkt_payload (pk i) = m"
    if "i \<in> arrived ops" for i
    using assms(5) that car by (fastforce simp: carries_def dec)
  from peer_run_ordered [OF ordered_rel_new [OF assms(1,2)] assms(6,7)] obtain n H where
    p: "passes es (rc_recvQueue (newReliableChannel cfg k)) (map ?msg [0..<n]) (rc_recvQueue c)" and
    a: "{0..<n} \<union> H \<subseteq> {} \<union> arrived ops" and o: "ordered_rel (windowCapacity (opt_sendWindow cfg)) ?msg c n H" by blast
  have full: "{0..<n} \<subseteq> set (map fst sends)" using a assms(5) by force
  from strictly_sorted_prefix [OF srt this] have t: "take n (map fst sends) = [0..<n]" .
  then have len: "n \<le> length sends" by (metis length_map length_take length_upt diff_zero min.cobounded1)
  have "?m (sends ! i) = ?msg i" if "i < n" for i
  proof -
    have i: "fst (sends ! i) = i"
      using t that len by (metis length_map nth_map nth_take nth_upt add_0 less_le_trans)
    have "i \<in> arrived ops" using a that by auto
    from pk [OF this] obtain m bs where l: "(i, m, bs) \<in> set sends" "m = ?msg i" by auto
    have "distinct (map fst sends)" using srt by (simp add: strict_sorted_iff)
    then have "inj_on fst (set sends)" by (simp add: distinct_map)
    moreover have "sends ! i \<in> set sends" using that len by simp
    ultimately have "sends ! i = (i, m, bs)" using l(1) i by (metis fst_conv inj_onD)
    then show ?thesis using l(2) by simp
  qed
  then have "map ?m (take n sends) = map ?msg [0..<n]"
    using len by (intro nth_equalityI) auto
  moreover have "rq_queued (rc_recvQueue (newReliableChannel cfg k)) = []"
    by (simp add: newReliableChannel_def newRecvQueue_def Let_def)
  moreover have "streamPacket pk i = pk i" if "i \<in> arrived ops" for i
    using pk [OF that] by (auto simp: streamPacket_def)
  moreover obtain ms where "handedOut es ms"
      "rq_queued (rc_recvQueue (newReliableChannel cfg k)) @ map ?msg [0..<n] = ms @ rq_queued (rc_recvQueue c)"
    using p by (auto simp: passes_def)
  moreover have "\<exists>i m. (i, m, bs) \<in> set sends" if "(bs, ep, q) \<in> set (datagrams esA)" for bs ep q
    using run_logged [OF assms(3) that, of 0] unfolding assms(4) by (simp add: heldBytes_new)
  moreover have "rc_expectedRecvSeq c = of_nat n" using o by (simp add: ordered_rel_def rc_rel_def)
  ultimately show ?thesis using len full by (intro conjI exI [of _ n] exI [of _ ms]) auto
qed

text \<open>A sender that sends two messages and repeats the first; a receiver that gets them in reverse.\<close>

definition linkSends :: "nat rc_op list" where
  "linkSends = [RcSend 0 [1, 2] 9 1, RcSend 5 [3] 9 2, RcTick 200000000 9]"

definition linkLog :: "(nat \<times> bytes \<times> bytes) list" where
  "linkLog = sentLog NullCC DefaultCodec True linkSends 0 (newReliableChannel fourConfig (), newSocketStats)"

definition linkPacket :: "nat \<Rightarrow> Packet" where
  "linkPacket i = (case decode (snd (snd (linkLog ! i))) of Inl e \<Rightarrow> newPacket | Inr p \<Rightarrow> p)"

definition linkArrivals :: "nat peer_op list" where
  "linkArrivals = [Local (RcRecv 8 7), Arrives 10 1, Arrives 20 0, Arrives 30 1]"

theorem end_to_end_in_order_witness:
  "\<exists>c st es ms n. runPartial (peer_step True linkPacket NullCC DefaultCodec) linkArrivals
      (newReliableChannel fourConfig (), newSocketStats) = Some ((c, st), es)
    \<and> handedOut es ms \<and> received es = [[1, 2]]
    \<and> ms @ rq_queued (rc_recvQueue c) = map (\<lambda>(i, m, bs). m) (take n linkLog)"
proof -
  let ?s = "(newReliableChannel fourConfig (), newSocketStats)"
  have nr: "run_near 4 linkPacket NullCC DefaultCodec linkArrivals 0 ?s" by code_simp
  have "map_option (\<lambda>r. received (snd r)) (runPartial (peer_step True linkPacket NullCC DefaultCodec) linkArrivals ?s)
      = Some [[1, 2]]" by code_simp
  then obtain c st es where r: "runPartial (peer_step True linkPacket NullCC DefaultCodec) linkArrivals ?s
      = Some ((c, st), es)" and e: "received es = [[1, 2]]" by auto
  have "runPartial (rc_step NullCC DefaultCodec True) linkSends ?s \<noteq> None" by code_simp
  then obtain a stA esA where A: "runPartial (rc_step NullCC DefaultCodec True) linkSends ?s = Some ((a, stA), esA)"
    by auto
  have l: "list_all (\<lambda>i. i < length linkLog \<and> fst (linkLog ! i) = i
      \<and> decode (snd (snd (linkLog ! i))) = Inr (linkPacket i)) [0, 1]" by code_simp
  have d: "\<forall>i \<in> arrived linkArrivals. \<exists>m bs. (i, m, bs) \<in> set linkLog \<and> decode bs = Inr (linkPacket i)"
  proof
    fix i assume "i \<in> arrived linkArrivals"
    then have i: "i < length linkLog" "fst (linkLog ! i) = i" "decode (snd (snd (linkLog ! i))) = Inr (linkPacket i)"
      using l by (auto simp: linkArrivals_def)
    moreover have "(i, fst (snd (linkLog ! i)), snd (snd (linkLog ! i))) \<in> set linkLog"
      using nth_mem [OF i(1)] i(2) by (metis prod.collapse)
    ultimately show "\<exists>m bs. (i, m, bs) \<in> set linkLog \<and> decode bs = Inr (linkPacket i)" by blast
  qed
  show ?thesis
    using end_to_end_in_order [OF _ _ A linkLog_def d nr r] r e unfolding fourConfig_window by auto
qed

section \<open>Recovery\<close>

lemma ordered_rel_update:
  assumes "ordered_rel W msg c n H"
  shows "ordered_rel W (msg(n := m)) c n H"
  using assms by (auto simp: ordered_rel_def rc_rel_def ring_rel_def bufferItem_def)

text \<open>The packet an ordered channel waits for is always accepted, delivered and acknowledged.\<close>

lemma receive_expected:
  fixes es :: "'ep effect list"
  assumes o: "ordered_rel W msg c n H" and W: "W \<le> 32"
    and p: "pkt_type pkt = Data" "pkt_seq pkt = of_nat n"
  shows "\<exists>c' st' es rest ack. rc_onRecv cc True now pkt c st = Some (c', st', es :: 'ep effect list)
    \<and> passes es (rc_recvQueue c) (pkt_payload pkt # rest) (rc_recvQueue c')
    \<and> rc_buildAck c' = Some ack \<and> pkt_type ack = Ack \<and> isAcknowledged (pkt_seq pkt) (pkt_ack ack) (pkt_ackBits ack)
    \<and> (\<exists>m. n < m \<and> m \<le> n + W \<and> rc_expectedRecvSeq c' = of_nat m)"
proof -
  let ?msg = "msg(n := pkt_payload pkt)" and ?t = "rc_recvAckTracker c"
  have o': "ordered_rel W ?msg c n H" using ordered_rel_update [OF o] .
  have rel: "rc_rel W msg c n H" and pos: "0 < W"
    using o ring_rel_nonempty by (auto simp: ordered_rel_def rc_rel_def)
  obtain t where m: "markReceived (of_nat n) ?t = Some t" "hasReceived t"
    "isAcknowledged (of_nat n) (latestSequence t) (ackBits t)"
  proof (cases "hasReceived ?t")
    case False
    then show thesis using that by (simp add: markReceived_def isAcknowledged_def)
  next
    case True
    then obtain L where t: "tracks ?t L ({..<n} \<union> H)" using o by (auto simp: ordered_rel_def)
    note L = tracked_latest [OF o t]
    have n: "near L n" "n \<noteq> L + 32" using L W by (simp_all add: near_def)
    from tracks_step [OF t n] obtain t' where
      t': "markReceived (of_nat n) ?t = Some t'" "tracks t' (max L n) (insert n ({..<n} \<union> H))" by blast
    have "isAcknowledged (of_nat n) (latestSequence t') (ackBits t')"
      using tracks_isAcknowledged [OF t'(2), of n] L W by (simp add: near_def)
    then show thesis using that t' by (auto simp: tracks_def)
  qed
  have win: "isInOrderedReceiveWindow (of_nat n) c"
    using inWindow_unat rel pos by (fastforce simp: rc_rel_def)
  then have "(receiveOrdered pkt c st :: ('a ReliableChannel \<times> SocketStats \<times> 'ep effect list) option) \<noteq> None"
    using m by (auto simp: receiveOrdered_def p Let_def intro: prod_cases3)
  then obtain c' st' es where r: "receiveOrdered pkt c st = Some (c', st', es :: 'ep effect list)" by auto
  have "near n n" by (simp add: near_def)
  from receiveOrdered_step [OF o' this p(2) _ r] obtain n' H' where
    n': "n \<le> n'" "passes es (rc_recvQueue c) (map ?msg [n..<n']) (rc_recvQueue c')"
      "H \<union> ({n..} \<inter> {n}) \<subseteq> {n..<n'} \<union> H'" "ordered_rel W ?msg c' n' H'" "n' \<le> n + W"
    using pos by auto
  have "n < n'" using n'(1,3,4) by (cases "n = n'") (auto simp: ordered_rel_def)
  then have "map ?msg [n..<n'] = pkt_payload pkt # map ?msg [Suc n..<n']"
    by (simp add: upt_conv_Cons)
  moreover have "rc_recvAckTracker c' = t"
    using r win m(1) by (auto simp: receiveOrdered_def p Let_def split: if_splits dest: drain_tracker)
  moreover have "\<exists>m. n < m \<and> m \<le> n + W \<and> rc_expectedRecvSeq c' = of_nat m"
    using n'(4,5) \<open>n < n'\<close> by (auto simp: ordered_rel_def rc_rel_def)
  ultimately show ?thesis
    using r n'(2) m p by (auto simp: rc_onRecv_def rc_buildAck_def)
qed

lemma tick_then_ack:
  assumes "rc_onTick cc now ep a st = (a', st', es)" and "Some p \<in> set (rc_sentPackets a)" and "sp_nextRetx p \<le> now"
  shows "SendTo (sp_encodedPacket p) ep SendDiscard \<in> set es"
    and "isAcknowledged (sp_sequenceNumber p) ack bits \<Longrightarrow> q \<in> set (map (ackSlot ack bits) (rc_sentPackets a'))
      \<Longrightarrow> q = None \<or> sp_sequenceNumber (the q) \<noteq> sp_sequenceNumber p"
proof -
  note t = rc_onTick_channel [OF assms(1)]
  show "SendTo (sp_encodedPacket p) ep SendDiscard \<in> set es"
    using t assms(2,3) by (force simp: expired_def)
  show "q = None \<or> sp_sequenceNumber (the q) \<noteq> sp_sequenceNumber p"
    if "isAcknowledged (sp_sequenceNumber p) ack bits" "q \<in> set (map (ackSlot ack bits) (rc_sentPackets a'))"
    using that by (auto simp: ackSlot_def split: option.splits if_splits)
qed

section \<open>Starvation\<close>


definition firstSends :: "unit ReliableChannel" where
  "firstSends = (case runPartial (rc_step NullCC DefaultCodec True) (take 2 linkSends)
     (newReliableChannel fourConfig (), newSocketStats) of
       None \<Rightarrow> newReliableChannel fourConfig () | Some ((a, st), es) \<Rightarrow> a)"

lemma firstPacket: "\<exists>p. Some p \<in> set (rc_sentPackets firstSends) \<and> sp_sequenceNumber p = of_nat 0"
proof -
  have "case rc_sentPackets firstSends of Some p # _ \<Rightarrow> sp_sequenceNumber p = 0 | _ \<Rightarrow> False" by code_simp
  then show ?thesis by (cases "rc_sentPackets firstSends") (auto split: option.splits)
qed

text \<open>A tracker that received 0 and then 33, one more than the history can name.\<close>

definition farTracker :: ReceiveAckTracker where
  "farTracker = \<lparr>hasReceived = True, latestSequence = 33, ackBits = 0\<rparr>"


end
