(* ===== verification/Rude_SessionRefinement.thy ===== *)
theory Rude_SessionRefinement
  imports Rude_SessionProperties Rude_Link "HOL-Library.Sublist"
begin

text \<open>
  A session as a composition of independent channels. A run of a session is a list of calls and
  completions; what one channel sees of it is a list of calls on that channel. The theorem of this
  theory says that the channel goes through exactly that run, whatever the other channels do and
  whatever the shared statistics are, and that every data packet with its number that leaves the
  session is one of that run.
\<close>

section \<open>Channels do not read the statistics\<close>

lemma tickLoop_free:
  "fst (tickLoop cc now rto ep sps k st) = fst (tickLoop cc now rto ep sps k st1)
   \<and> fst (snd (tickLoop cc now rto ep sps k st)) = fst (snd (tickLoop cc now rto ep sps k st1))
   \<and> snd (snd (snd (tickLoop cc now rto ep sps k st))) = snd (snd (snd (tickLoop cc now rto ep sps k st1)))"
proof (induction sps arbitrary: k st st1)
  case (Cons x sps)
  show ?case
  proof (cases x)
    case None
    then show ?thesis using Cons.IH [of k st st1] by (simp add: case_prod_beta)
  next
    case (Some p)
    let ?lost = "\<lambda>st. countSent (length (sp_encodedPacket p)) (st\<lparr>st_packetsLost := st_packetsLost st + 1\<rparr>)"
    show ?thesis
      using Cons.IH [of k st st1] Cons.IH [of "cc_onLoss cc (sp_sequenceNumber p) k" "?lost st" "?lost st1"]
      by (simp add: Some Let_def case_prod_beta)
  qed
qed simp

lemma ackLoop_free:
  "fst (ackLoop cc now ack bits sps n k st) = fst (ackLoop cc now ack bits sps n k st1)
   \<and> fst (snd (ackLoop cc now ack bits sps n k st)) = fst (snd (ackLoop cc now ack bits sps n k st1))
   \<and> fst (snd (snd (ackLoop cc now ack bits sps n k st))) = fst (snd (snd (ackLoop cc now ack bits sps n k st1)))"
proof (induction sps arbitrary: n k st st1)
  case (Cons x sps)
  show ?case
  proof (cases x)
    case None
    then show ?thesis using Cons.IH [of n k st st1] by (simp add: case_prod_beta)
  next
    case (Some p)
    let ?rtt = "if sp_retxCount p = 0 then of_int ((now - sp_sendTime p) sdiv 1000) else 0 :: u64"
    let ?est = "\<lambda>st. if sp_retxCount p = 0 then updateRttEstimate (real (unat ?rtt)) st else st"
    show ?thesis
      using Cons.IH [of n k st st1]
        Cons.IH [of "n - 1" "cc_onAck cc now (sp_sequenceNumber p) ?rtt k" "?est st" "?est st1"]
      by (simp add: Some Let_def case_prod_beta)
  qed
qed simp

lemma drain_free:
  assumes "drainReadyPackets c st = (c', st', es)"
  shows "\<exists>st1'. drainReadyPackets c st1 = (c', st1', es)"
  using assms
proof (induction arbitrary: st1 rule: drain_induct)
  case (finished c st)
  then show ?case by (simp add: drain_done)
next
  case (ready c st b q es c' st' fs)
  obtain st2 where "drainReadyPackets (advanced q c) (countRecv (length (bp_payload b)) st1) = (c', st2, fs)"
    using ready.IH by blast
  then show ?case using drain_next [OF ready.hyps(1,2)] by simp
qed

lemma receive_free:
  assumes "rc_onRecv cc ordered now p c st = Some (c', st', es)"
  shows "\<exists>st1'. rc_onRecv cc ordered now p c st1 = Some (c', st1', es)"
proof -
  have "fst (processAck cc now a b c st) = fst (processAck cc now a b c st1)" for a b
    using ackLoop_free [of cc now a b "rc_sentPackets c" "rc_inFlightCount c" "rc_cc c" st st1]
    by (simp add: processAck_def Let_def case_prod_beta)
  moreover have "\<exists>st1'. receiveOrdered p c st1 = Some (c', st1', es)" if "receiveOrdered p c st = Some (c', st', es)"
  proof (cases "slotAt (rc_receiveBuffer c) (pkt_seq p) = None")
    case True
    then show ?thesis
      using that by (auto simp: receiveOrdered_def bind_eq_Some_conv Let_def split: if_splits intro: drain_free)
  next
    case False
    then show ?thesis
      using that by (auto simp: receiveOrdered_def bind_eq_Some_conv Let_def split: if_splits)
  qed
  moreover have "\<exists>st1'. receiveUnordered p c st1 = Some (c', st1', es)" if "receiveUnordered p c st = Some (c', st', es)"
    using that by (auto simp: receiveUnordered_def bind_eq_Some_conv Let_def split: if_splits prod.splits)
  ultimately show ?thesis
    using assms by (auto simp: rc_onRecv_def case_prod_beta split: if_splits)
qed

lemma rc_step_free:
  assumes "rc_step cc codec ordered op (c, st) = Some ((c', st'), es)"
  shows "\<exists>st1'. rc_step cc codec ordered op (c, st1) = Some ((c', st1'), es)"
proof (cases op)
  case (RcTick now ep)
  then show ?thesis
    using assms tickLoop_free [of cc now "rc_retxTimeout c" ep "rc_sentPackets c" "rc_cc c" st st1]
    by (simp add: rc_onTick_def Let_def case_prod_beta)
next
  case (RcPacket now p)
  then show ?thesis using assms receive_free by fastforce
qed (use assms in \<open>auto simp: rc_asyncSend_def rc_onSent_def rc_asyncRecv_def rc_close_def Let_def
      split: prod.splits if_splits\<close>)

section \<open>Calls on a channel of any kind\<close>

fun ch_step ::
  "('o, 'u) Traits \<Rightarrow> 'ep rc_op \<Rightarrow> ('o, 'u) ChannelVar \<times> SocketStats
    \<Rightarrow> ((('o, 'u) ChannelVar \<times> SocketStats) \<times> 'ep effect list) option" where
  "ch_step T (RcSend now m ep h) (c, st) =
     (let (c, st, es) = ch_asyncSend (tr_ordered T) (tr_unordered T) (tr_codec T) now m ep h c st
      in Some ((c, st), es))"
| "ch_step T (RcSent sq h ec) (c, st) =
     (let (c, st, es) = ch_onSent (tr_ordered T) (tr_unordered T) sq h ec c st in Some ((c, st), es))"
| "ch_step T (RcRecv n h) (c, st) = (let (c, es) = ch_asyncRecv n h c in Some ((c, st), es))"
| "ch_step T (RcTick now ep) (c, st) =
     (let (c, st, es) = ch_onTick (tr_ordered T) (tr_unordered T) now ep c st in Some ((c, st), es))"
| "ch_step T (RcPacket now p) (c, st) =
     map_option (\<lambda>(c, st, es). ((c, st), es)) (ch_onRecv (tr_ordered T) (tr_unordered T) now p c st)"
| "ch_step T (RcFlush ep) (c, st) = Some ((c, st), ch_flush ep c)"
| "ch_step T (RcClose ec) (c, st) = (let (c, es) = ch_close (closeReason ec) c in Some ((c, st), es))"

lemma ch_step_reliable:
  "ch_step T op (OrderedVar c, st) =
     map_option (\<lambda>((c, st), es). ((OrderedVar c, st), es)) (rc_step (tr_ordered T) (tr_codec T) True op (c, st))"
  "ch_step T op (UnorderedVar u, st) =
     map_option (\<lambda>((c, st), es). ((UnorderedVar c, st), es)) (rc_step (tr_unordered T) (tr_codec T) False op (u, st))"
  by (cases op; simp add: case_prod_beta option.map_comp comp_def closeReason_def apfst_def map_prod_def)+

lemma ch_step_free:
  assumes "ch_step T op (c, st) = Some ((c', st'), es)"
  shows "\<exists>st1'. ch_step T op (c, st1) = Some ((c', st1'), es)"
proof (cases c)
  case (OrderedVar r)
  then show ?thesis
    using assms rc_step_free [where cc = "tr_ordered T" and codec = "tr_codec T" and op = op and c = r and st = st]
    by (fastforce simp: ch_step_reliable)
next
  case (UnorderedVar r)
  then show ?thesis
    using assms rc_step_free [where cc = "tr_unordered T" and codec = "tr_codec T" and op = op and c = r and st = st]
    by (fastforce simp: ch_step_reliable)
next
  case (UnreliableVar u)
  then show ?thesis
    using assms by (cases op) (auto simp: uc_asyncSend_def uc_onSent_def uc_asyncRecv_def uc_onTick_def uc_onRecv_def
        uc_close_def Let_def apfst_eq_conv split: prod.splits if_splits)
qed

section \<open>The packets of a channel carry its number\<close>

definition dataOf :: "PacketCodec \<Rightarrow> u8 \<Rightarrow> bytes \<Rightarrow> bool" where
  "dataOf codec i bs \<longleftrightarrow> (\<exists>p. cdc_decode codec bs = Inr p \<and> pkt_type p = Data \<and> pkt_channel p = i)"

text \<open>
  Datagrams that are not data: control packets, and acknowledgements that an open channel of the session
  has to give.
\<close>

definition opened :: "u8 \<Rightarrow> ('o, 'u, 'ep) Session \<Rightarrow> bool" where
  "opened i s \<longleftrightarrow> unat i < 8 \<and> ss_channelOpen s ! unat i"

definition acks :: "('o, 'u, 'ep) Session \<Rightarrow> Packet \<Rightarrow> bool" where
  "acks s p \<longleftrightarrow> (\<exists>j a. opened j s \<and> ch_buildAck (ss_channels s ! unat j) = Some a \<and> p = a\<lparr>pkt_crc := pkt_crc p\<rparr>)"

definition control :: "PacketCodec \<Rightarrow> ('o, 'u, 'ep) Session \<Rightarrow> bytes \<Rightarrow> bool" where
  "control codec s bs \<longleftrightarrow> (\<exists>p. cdc_decode codec bs = Inr p \<and> pkt_type p \<noteq> Data \<and> (pkt_type p = Ack \<longrightarrow> acks s p))"

fun ch_held :: "('o, 'u) ChannelVar \<Rightarrow> bytes set" where
  "ch_held (UnreliableVar c) = {}"
| "ch_held (OrderedVar c) = heldBytes c"
| "ch_held (UnorderedVar c) = heldBytes c"

definition tagged :: "PacketCodec \<Rightarrow> ('o, 'u) ChannelVar \<Rightarrow> bool" where
  "tagged codec c \<longleftrightarrow> (\<forall>bs\<in>ch_held c. dataOf codec (ch_id c) bs)"

lemma uc_quiet:
  "uc_asyncRecv n h c = (c', es) \<Longrightarrow> uc_id c' = uc_id c \<and> datagrams es = []"
  "uc_close ec c = (c', es) \<Longrightarrow> uc_id c' = uc_id c \<and> datagrams es = []"
  "uc_onRecv p c st = (c', st', es) \<Longrightarrow> uc_id c' = uc_id c \<and> datagrams es = []"
  by (auto simp: uc_asyncRecv_def uc_close_def uc_onRecv_def Let_def split: prod.splits if_splits dest: rq_quiet)

lemma other_quiet:
  assumes "ch_step T op (UnreliableVar u, st) = Some ((c', st'), es)" and "\<And>now m ep h. op \<noteq> RcSend now m ep h"
  shows "\<exists>u'. c' = UnreliableVar u' \<and> uc_id u' = uc_id u \<and> datagrams es = []"
proof (cases op)
  case (RcRecv n h)
  then show ?thesis using assms(1) by (auto simp: apfst_eq_conv split: prod.splits dest: uc_quiet)
next
  case (RcPacket now p)
  then show ?thesis using assms(1) by (auto simp: apfst_eq_conv split: prod.splits dest: uc_quiet)
next
  case (RcClose ec)
  then show ?thesis using assms(1) by (auto simp: apfst_eq_conv split: prod.splits dest: uc_quiet)
qed (use assms in \<open>auto simp: uc_onSent_def uc_onTick_def uc_flush_def\<close>)

context packet_codec
begin

lemma rc_step_tagged:
  assumes s: "rc_step cc codec ordered op (c, st) = Some ((c', st'), es)"
    and t: "\<forall>bs\<in>heldBytes c. dataOf codec (rc_id c) bs"
  shows "(\<forall>bs\<in>heldBytes c'. dataOf codec (rc_id c) bs) \<and> rc_id c' = rc_id c
    \<and> (\<forall>(bs, ep, k)\<in>set (datagrams es). dataOf codec (rc_id c) bs)"
proof -
  have e: "dataOf codec (rc_id c) bs" if l: "(i, m, bs) \<in> set (logEntry op 0 es)" for i m bs
  proof -
    from l obtain now ep h where op: "op = RcSend now m ep h" by (cases op) auto
    have "rc_asyncSend cc codec now m ep h c st = (c', st', es)" using s by (auto simp: op split: prod.splits)
    from send_first [OF this] l show ?thesis by (fastforce simp: op dataOf_def)
  qed
  have d: "dataOf codec (rc_id c) bs" if "(bs, ep, k) \<in> set (datagrams es)" for bs ep k
    using step_logged [OF s that, of 0] t e by blast
  then show ?thesis using held_or_logged [OF s, of 0] step_held(3) [OF s] t e by blast
qed

lemma uc_send_tagged:
  assumes "uc_asyncSend codec m ep h c st = (c', st', es)" and "(bs, ep', k) \<in> set (datagrams es)"
  shows "dataOf codec (uc_id c) bs"
proof -
  let ?p = "newPacket\<lparr>pkt_type := Data, pkt_seq := uc_nextSeq c, pkt_channel := uc_id c, pkt_payload := m\<rparr>"
  obtain n out where e: "cdc_encode codec ?p (replicate (length m + cdc_maxOverhead codec) 0) = (n, out)" by fastforce
  have l: "length (pkt_payload ?p) + cdc_maxOverhead codec \<le> length (replicate (length m + cdc_maxOverhead codec) (0 :: u8))"
    by simp
  have "bs = take n out"
    using assms encode_fits [OF l e] by (auto simp: uc_asyncSend_def e Let_def resizeBytes_def split: if_splits)
  then show ?thesis using decode_encode [OF l e] by (auto simp: dataOf_def)
qed

lemma ch_step_tagged:
  assumes T: "tr_codec T = codec" and s: "ch_step T op (c, st) = Some ((c', st'), es)" and t: "tagged codec c"
  shows "tagged codec c' \<and> ch_id c' = ch_id c \<and> (\<forall>(bs, ep, k)\<in>set (datagrams es). dataOf codec (ch_id c) bs)"
proof (cases c)
  case (OrderedVar r)
  then obtain r' where c': "c' = OrderedVar r'" and r: "rc_step (tr_ordered T) codec True op (r, st) = Some ((r', st'), es)"
    using s T by (auto simp: ch_step_reliable)
  show ?thesis using rc_step_tagged [OF r] t by (simp add: c' OrderedVar tagged_def)
next
  case (UnorderedVar r)
  then obtain r' where c': "c' = UnorderedVar r'" and r: "rc_step (tr_unordered T) codec False op (r, st) = Some ((r', st'), es)"
    using s T by (auto simp: ch_step_reliable)
  show ?thesis using rc_step_tagged [OF r] t by (simp add: c' UnorderedVar tagged_def)
next
  case (UnreliableVar u)
  show ?thesis
  proof (cases "\<exists>now m ep h. op = RcSend now m ep h")
    case True
    then obtain now m ep h where op: "op = RcSend now m ep h" by blast
    obtain u' where c': "c' = UnreliableVar u'" and a: "uc_asyncSend codec m ep h u st = (u', st', es)"
      using s T by (auto simp: op UnreliableVar apfst_eq_conv split: prod.splits)
    have "uc_id u' = uc_id u" using a by (auto simp: uc_asyncSend_def Let_def split: prod.splits if_splits)
    then show ?thesis using uc_send_tagged [OF a] by (auto simp: c' UnreliableVar tagged_def)
  next
    case False
    then show ?thesis
      using s other_quiet [of T op u st c' st' es] by (auto simp: UnreliableVar tagged_def)
  qed
qed

end

section \<open>Runs of a session\<close>

text \<open>Every call and completion of a session; \<open>None\<close> is undefined behaviour.\<close>

datatype 'ep ss_op =
    SsSend time_ns u8 bytes handler
  | SsRecv u8 nat handler
  | SsFlush handler
  | SsDisconnect handler
  | SsStart time_ns 'ep
  | SsCancel
  | SsRecvDone time_ns error_code 'ep bytes
  | SsSendDone send_cont error_code
  | SsRetransmit time_ns error_code
  | SsKeepalive time_ns error_code

fun ss_step ::
  "('o, 'u) Traits \<Rightarrow> 'ep ss_op \<Rightarrow> ('o, 'u, 'ep) Session \<Rightarrow> (('o, 'u, 'ep) Session \<times> 'ep effect list) option" where
  "ss_step T (SsSend now ch m h) s = Some (ss_asyncSend T now ch m h s)"
| "ss_step T (SsRecv ch n h) s = Some (ss_asyncRecv ch n h s)"
| "ss_step T (SsFlush h) s = Some (ss_asyncFlush h s)"
| "ss_step T (SsDisconnect h) s = Some (ss_asyncDisconnect T h s)"
| "ss_step T (SsStart now remote) s = Some (ss_start now remote s)"
| "ss_step T SsCancel s = Some (ss_cancel s)"
| "ss_step T (SsRecvDone now ec sender bs) s = onSocketRecv T now ec sender bs s"
| "ss_step T (SsSendDone k ec) s = Some (onSendDone T k ec s)"
| "ss_step T (SsRetransmit now ec) s = Some (onRetransmit T now ec s)"
| "ss_step T (SsKeepalive now ec) s = Some (onKeepalive T now ec s)"

text \<open>What channel \<open>i\<close>, which is open, sees of a step.\<close>

definition seenPacket :: "u8 \<Rightarrow> time_ns \<Rightarrow> Packet \<Rightarrow> 'ep rc_op list" where
  "seenPacket i now p =
     (if pkt_type p = Disconnect then [RcClose (makeErrorCode ConnectionReset)]
      else if pkt_type p = Keepalive \<or> pkt_type p = HandshakeInit \<or> pkt_type p = HandshakeAck then []
      else if pkt_channel p = i then [RcPacket now p] else [])"

fun seen :: "('o, 'u) Traits \<Rightarrow> u8 \<Rightarrow> 'ep ss_op \<Rightarrow> ('o, 'u, 'ep) Session \<Rightarrow> 'ep rc_op list" where
  "seen T i (SsSend now ch m h) s =
     (if \<not> ss_closed s \<and> ch = i \<and> length m + cdc_maxOverhead (tr_codec T) \<le> sc_mtu (ss_config s)
      then [RcSend now m (ss_remote s) h] else [])"
| "seen T i (SsRecv ch n h) s = (if ch = i then [RcRecv n h] else [])"
| "seen T i (SsFlush h) s = (if ss_closed s then [] else [RcFlush (ss_remote s)])"
| "seen T i (SsDisconnect h) s =
     (if ss_closed s \<or> ss_encodePacket (tr_codec T) (newPacket\<lparr>pkt_type := Disconnect\<rparr>) \<noteq> [] then []
      else [RcClose (makeErrorCode BadPacket)])"
| "seen T i (SsStart now remote) s = []"
| "seen T i SsCancel s = (if ss_closed s then [] else [RcClose (AsioCode operation_aborted)])"
| "seen T i (SsRecvDone now ec sender bs) s =
     (if ss_closed s then []
      else if failed ec then [RcClose ec]
      else if sender \<noteq> ss_remote s then []
      else case cdc_decode (tr_codec T) bs of Inl e \<Rightarrow> [] | Inr p \<Rightarrow> seenPacket i now p)"
| "seen T i (SsSendDone (SendReliable j sq h) ec) s = (if j = i then [RcSent sq h ec] else [])"
| "seen T i (SsSendDone (SendDisconnect h) ec) s = (if ss_closed s then [] else [RcClose NoError])"
| "seen T i (SsSendDone k ec) s = []"
| "seen T i (SsRetransmit now ec) s = (if failed ec \<or> ss_closed s then [] else [RcTick now (ss_remote s)])"
| "seen T i (SsKeepalive now ec) s =
     (if failed ec \<or> ss_closed s \<or> now - ss_lastRecv s \<le> millis (uint (sc_timeoutMs (ss_config s))) then []
      else [RcClose (makeErrorCode Timeout)])"

lemma unusable_opened: "unusable i s \<longleftrightarrow> \<not> opened i s"
  by (auto simp: unusable_def opened_def kMaxChannels_def word_le_nat_alt)

definition sized :: "('o, 'u, 'ep) Session \<Rightarrow> bool" where
  "sized s \<longleftrightarrow> length (ss_channels s) = 8 \<and> length (ss_channelOpen s) = 8"

text \<open>
  A step from \<open>s\<close> to \<open>s'\<close> with effects \<open>es\<close> is, for each open channel, a run of the calls \<open>ops i\<close> with
  effects \<open>F i\<close>, in their order among \<open>es\<close>; other datagrams are control packets and acknowledgements.
\<close>

definition splits ::
  "('o, 'u) Traits \<Rightarrow> ('o, 'u, 'ep) Session \<Rightarrow> (u8 \<Rightarrow> 'ep rc_op list) \<Rightarrow> ('o, 'u, 'ep) Session \<Rightarrow> 'ep effect list
    \<Rightarrow> (u8 \<Rightarrow> 'ep effect list) \<Rightarrow> bool" where
  "splits T s ops s' es F \<longleftrightarrow>
     (\<forall>i. opened i s \<longrightarrow> subseq (F i) es \<and> (\<exists>st st'. runPartial (ch_step T) (ops i) (ss_channels s ! unat i, st)
           = Some ((ss_channels s' ! unat i, st'), F i)))
     \<and> (\<forall>d\<in>set (datagrams es). (\<exists>i. opened i s \<and> d \<in> set (datagrams (F i))) \<or> control (tr_codec T) s' (fst d))
     \<and> ss_channelOpen s' = ss_channelOpen s \<and> sized s'"

lemma splits_idle:
  assumes "\<And>i. opened i s \<Longrightarrow> ops i = [] \<and> ss_channels s' ! unat i = ss_channels s ! unat i"
    and "\<And>d. d \<in> set (datagrams es) \<Longrightarrow> control (tr_codec T) s' (fst d)"
    and "ss_channelOpen s' = ss_channelOpen s" and "sized s'"
  shows "splits T s ops s' es (\<lambda>i. [])"
  using assms by (simp add: splits_def)

lemma splits_one:
  assumes j: "opened j s" and z: "sized s" and run: "ch_step T op (ss_channels s ! unat j, st) = Some ((c', st'), fs)"
    and ops: "\<And>i. ops i = (if i = j then [op] else [])"
    and s': "ss_channels s' = (ss_channels s)[unat j := c']" "ss_channelOpen s' = ss_channelOpen s"
    and es: "subseq fs es" "\<And>d. d \<in> set (datagrams es) \<Longrightarrow> d \<in> set (datagrams fs) \<or> control (tr_codec T) s' (fst d)"
  shows "splits T s ops s' es (\<lambda>i. if i = j then fs else [])"
proof -
  have "unat j < length (ss_channels s)" using j z by (simp add: opened_def sized_def)
  moreover have "(ss_channels s)[unat j := c'] ! unat i = ss_channels s ! unat i" if "i \<noteq> j" for i
    using that by (metis nth_list_update_neq word_unat_eq_iff)
  ultimately show ?thesis
    using assms by (auto simp: splits_def sized_def bind_eq_Some_conv)
qed

lemma visitOpen_nth:
  assumes "length opns = length cs" and "visitOpen f opns cs st = (cs', st', es)"
  shows "\<exists>F. (\<forall>j<length cs. opns ! j \<longrightarrow> (\<exists>st1 st2. f (cs ! j) st1 = (cs' ! j, st2, F j)) \<and> subseq (F j) es)
    \<and> set es \<subseteq> (\<Union>j\<in>{j. j < length cs \<and> opns ! j}. set (F j)) \<and> length cs' = length cs"
  using assms
proof (induction opns cs arbitrary: st cs' es rule: list_induct2)
  case Nil
  then show ?case by simp
next
  case (Cons opn opns c cs)
  obtain c1 st1 es1 where h: "(if opn then f c st else (c, st, [])) = (c1, st1, es1)" by (metis prod_cases3)
  obtain cs2 es2 where r: "visitOpen f opns cs st1 = (cs2, st', es2)" and cs': "cs' = c1 # cs2" and es: "es = es1 @ es2"
    using Cons.prems h by (auto split: prod.splits)
  from Cons.IH [OF r] obtain F where
    F: "\<And>j. j < length cs \<Longrightarrow> opns ! j \<Longrightarrow> (\<exists>st1 st2. f (cs ! j) st1 = (cs2 ! j, st2, F j)) \<and> subseq (F j) es2"
    and e: "set es2 \<subseteq> (\<Union>j\<in>{j. j < length cs \<and> opns ! j}. set (F j))" and l: "length cs2 = length cs" by blast
  let ?F = "case_nat es1 F"
  have "(\<exists>st1 st2. f ((c # cs) ! j) st1 = (cs' ! j, st2, ?F j)) \<and> subseq (?F j) es"
    if "j < length (c # cs)" "(opn # opns) ! j" for j
    using that F h by (cases j) (auto simp: cs' es split: if_splits)
  moreover have "set es \<subseteq> (\<Union>j\<in>{j. j < length (c # cs) \<and> (opn # opns) ! j}. set (?F j))"
  proof
    fix x assume "x \<in> set es"
    then consider "x \<in> set es1" | "x \<in> set es2" by (auto simp: es)
    then show "x \<in> (\<Union>j\<in>{j. j < length (c # cs) \<and> (opn # opns) ! j}. set (?F j))"
    proof cases
      case 1
      then have "opn" using h by (auto split: if_splits)
      with 1 show ?thesis by (auto intro!: exI [of _ 0])
    next
      case 2
      then obtain j where "j < length cs" "opns ! j" "x \<in> set (F j)" using e by auto
      then show ?thesis by (auto intro!: exI [of _ "Suc j"])
    qed
  qed
  ultimately show ?case using l by (intro exI [of _ ?F]) (auto simp: cs')
qed

lemma datagrams_mono: "set es \<subseteq> set fs \<Longrightarrow> set (datagrams es) \<subseteq> set (datagrams fs)"
  by (auto simp: in_datagrams_iff)

lemma splits_all:
  assumes z: "sized s" and v: "visitOpen f (ss_channelOpen s) (ss_channels s) st = (cs, st', fs)"
    and f: "\<And>c st c' st' es. f c st = (c', st', es) \<Longrightarrow> ch_step T op (c, st) = Some ((c', st'), es)"
    and ops: "\<And>i. ops i = [op]" and s': "ss_channels s' = cs" "ss_channelOpen s' = ss_channelOpen s"
    and es: "subseq fs es" "\<And>d. d \<in> set (datagrams es) \<Longrightarrow> d \<in> set (datagrams fs) \<or> control (tr_codec T) s' (fst d)"
  shows "\<exists>F. splits T s ops s' es F"
proof -
  from visitOpen_nth [OF _ v] z obtain G where
    G: "\<And>j. j < 8 \<Longrightarrow> ss_channelOpen s ! j \<Longrightarrow>
        (\<exists>st1 st2. f (ss_channels s ! j) st1 = (cs ! j, st2, G j)) \<and> subseq (G j) fs"
    and e: "set fs \<subseteq> (\<Union>j\<in>{j. j < 8 \<and> ss_channelOpen s ! j}. set (G j))" and l: "length cs = 8"
    by (auto simp: sized_def)
  have "subseq (G (unat i)) es \<and> (\<exists>st st'. runPartial (ch_step T) (ops i) (ss_channels s ! unat i, st)
      = Some ((ss_channels s' ! unat i, st'), G (unat i)))" if "opened i s" for i
    using that G [of "unat i"] f ops s' es(1) by (fastforce simp: opened_def intro: subseq_order.trans)
  moreover have "\<exists>i. opened i s \<and> d \<in> set (datagrams (G (unat i)))" if d: "d \<in> set (datagrams fs)" for d
  proof -
    obtain bs ep k where "d = (bs, ep, k)" "SendTo bs ep k \<in> set fs" using d by (metis in_datagrams_iff prod_cases3)
    then obtain j where j: "j < 8" "ss_channelOpen s ! j" "SendTo bs ep k \<in> set (G j)" using e by auto
    then have "unat (of_nat j :: u8) = j" by (simp add: unat_of_nat)
    then show ?thesis using j \<open>d = (bs, ep, k)\<close> by (intro exI [of _ "of_nat j"]) (auto simp: opened_def in_datagrams_iff)
  qed
  ultimately have "splits T s ops s' es (\<lambda>i. G (unat i))"
    using s' es(2) z l unfolding splits_def sized_def by metis
  then show ?thesis by blast
qed

lemma subseq_between: "subseq fs (as @ fs @ bs)"
  by (meson subseq_drop_many subseq_order.refl subseq_rev_drop_many)

lemma splits_close:
  fixes s s' :: "('o, 'u, 'ep) Session"
  assumes z: "sized s" and c: "ss_close reason s = (s', es)"
    and ops: "\<And>i. ops i = (if ss_closed s then [] else [RcClose reason])" and tail: "datagrams tail = []"
  shows "\<exists>F. splits T s ops s' (es @ tail) F"
proof (cases "ss_closed s")
  case True
  then have "splits T s ops s' (es @ tail) (\<lambda>i. [])"
    using assms by (intro splits_idle) (auto simp: ss_close_def)
  then show ?thesis by blast
next
  case False
  let ?f = "\<lambda>c st. let (c', es) = ch_close (closeReason reason) c in (c', st, es)"
  obtain cs st and fs :: "'ep effect list" where
    v: "visitOpen ?f (ss_channelOpen s) (ss_channels s) (ss_stats s) = (cs, st, fs)"
    using prod_cases3 by blast
  have s': "s' = s\<lparr>ss_closed := True, ss_channels := cs, ss_stats := st\<rparr>"
    and es: "es = [CancelTimers, CancelSocket, CloseSocket] @ fs @ [OnDisconnected reason]"
    using c False v by (auto simp: ss_close_def)
  have "subseq fs (es @ tail)"
    using subseq_between [of fs "[CancelTimers, CancelSocket, CloseSocket]" "OnDisconnected reason # tail"] by (simp add: es)
  then show ?thesis
    using ops False tail
    by (intro splits_all [OF z v, where op = "RcClose reason"]) (auto simp: s' es split: prod.splits)
qed

lemma splits_closed:
  assumes "sized s" and "ss_close reason s = (s', es)" and "\<And>i. ops i = (if ss_closed s then [] else [RcClose reason])"
  shows "\<exists>F. splits T s ops s' es F"
  using splits_close [OF assms(1,2), of ops "[]" T] assms(3) by simp

lemma control_types: "HandshakeAck \<noteq> Data" "Keepalive \<noteq> Data" "Disconnect \<noteq> Data" "Ack \<noteq> Data"
  "HandshakeAck \<noteq> Ack" "Keepalive \<noteq> Ack" "Disconnect \<noteq> Ack"
  using packet_types_distinct by auto

context packet_codec
begin

lemma encodePacket_control:
  assumes "pkt_type p \<noteq> Data" and "pkt_type p = Ack \<longrightarrow> (\<exists>j. opened j s \<and> ch_buildAck (ss_channels s ! unat j) = Some p)"
  shows "control codec s (ss_encodePacket codec p)"
proof -
  let ?out = "replicate (length (pkt_payload p) + cdc_maxOverhead codec) (0 :: u8)"
  obtain n out where e: "cdc_encode codec p ?out = (n, out)" by fastforce
  have l: "length (pkt_payload p) + cdc_maxOverhead codec \<le> length ?out" by simp
  have "ss_encodePacket codec p = take n out"
    using encode_fits [OF l e] by (simp add: ss_encodePacket_def e resizeBytes_def)
  then show ?thesis using decode_encode [OF l e] assms by (fastforce simp: control_def acks_def)
qed

lemma sendPacket_control:
  assumes "tr_codec T = codec" and "d \<in> set (datagrams (sendPacket T p s))" and "pkt_type p \<noteq> Data"
    and "pkt_type p = Ack \<longrightarrow> (\<exists>j. opened j s' \<and> ch_buildAck (ss_channels s' ! unat j) = Some p)"
  shows "control codec s' (fst d)"
  using assms encodePacket_control by (auto simp: sendPacket_def Let_def split: if_splits)

lemma splits_packet:
  fixes s s' :: "('o, 'u, 'ep) Session"
  assumes T: "tr_codec T = codec" and z: "sized s" and p: "cdc_decode codec bs = Inr p"
    and c: "handlePacket T now bs s = Some (s', es)" and nc: "\<not> ss_closed s" and tail: "datagrams tail = []"
  shows "\<exists>F. splits T s (\<lambda>i. seenPacket i now p) s' (es @ tail) F"
proof -
  let ?s = "s\<lparr>ss_lastRecv := now\<rparr>" and ?i = "pkt_channel p"
  have o: "opened i ?s = opened i s" "sized ?s = sized s" for i by (simp_all add: opened_def sized_def)
  have same: "splits T ?s ops s' es F \<longleftrightarrow> splits T s ops s' es F" for ops es F by (simp add: splits_def o)
  consider "pkt_type p = Disconnect"
    | "pkt_type p \<noteq> Disconnect" "pkt_type p = Keepalive \<or> pkt_type p = HandshakeInit \<or> pkt_type p = HandshakeAck \<or> unusable ?i ?s"
    | "pkt_type p \<noteq> Disconnect" "pkt_type p \<noteq> Keepalive" "pkt_type p \<noteq> HandshakeInit" "pkt_type p \<noteq> HandshakeAck" "\<not> unusable ?i ?s"
    by blast
  then show ?thesis
  proof cases
    case 1
    then have "ss_close (makeErrorCode ConnectionReset) ?s = (s', es)" using c p T by (simp add: handlePacket_def)
    from splits_close [OF _ this, of "\<lambda>i. seenPacket i now p", OF _ _ tail] have
      "\<exists>F. splits T ?s (\<lambda>i. seenPacket i now p) s' (es @ tail) F"
      using z nc 1 by (simp add: o seenPacket_def)
    then show ?thesis by (simp only: same)
  next
    case 2
    have "control codec s' (fst d)" if "d \<in> set (datagrams es)" for d
      using 2 c p T that control_types
        sendPacket_control [OF T, of d "newPacket\<lparr>pkt_type := HandshakeAck, pkt_ack := pkt_seq p\<rparr>" ?s s']
      by (auto simp: handlePacket_def Let_def split: if_splits)
    moreover have "seenPacket i now p = ([] :: 'ep rc_op list)" if "opened i s" for i
      using that 2 by (auto simp: seenPacket_def unusable_opened o)
    ultimately have "splits T s (\<lambda>i. seenPacket i now p) s' (es @ tail) (\<lambda>i. [])"
      using 2 c p T z tail
      by (intro splits_idle) (auto simp: handlePacket_def Let_def sized_def split: if_splits)
    then show ?thesis by blast
  next
    case 3
    let ?c = "ss_channels s ! unat ?i"
    have h: "handlePacket T now bs s = do {
        (c, st, es) \<leftarrow> ch_onRecv (tr_ordered T) (tr_unordered T) now p ?c (ss_stats s);
        let s = ?s\<lparr>ss_channels := (ss_channels s)[unat ?i := c], ss_stats := st\<rparr>;
        if pkt_type p \<noteq> Data then Some (s, es)
        else case ch_buildAck c of None \<Rightarrow> Some (s, es) | Some ack \<Rightarrow> Some (s, es @ sendPacket T ack s)}"
      using 3 p T by (simp add: handlePacket_def Let_def)
    obtain c' st' and fs :: "'ep effect list" where v: "ch_onRecv (tr_ordered T) (tr_unordered T) now p ?c (ss_stats s) = Some (c', st', fs)"
      using c unfolding h by (auto simp: bind_eq_Some_conv)
    have ack: "pkt_type a \<noteq> Data" if "ch_buildAck c' = Some a" for a
      using that control_types by (cases c') (auto simp: rc_buildAck_def uc_buildAck_def split: if_splits)
    let ?s' = "?s\<lparr>ss_channels := (ss_channels s)[unat ?i := c'], ss_stats := st'\<rparr>"
    have "opened ?i ?s'" using 3 by (simp add: unusable_opened opened_def)
    moreover have "unat ?i < length (ss_channels s)" using 3 z by (simp add: unusable_opened opened_def sized_def)
    ultimately have control: "control codec ?s' (fst d)" if "ch_buildAck c' = Some a" "d \<in> set (datagrams (sendPacket T a ?s'))" for a d
      using that ack by (intro sendPacket_control [OF T that(2)]) (auto intro!: exI [of _ ?i])
    obtain gs where s': "s' = ?s'" and es: "es = fs @ gs" and
      gs: "\<And>d. d \<in> set (datagrams gs) \<Longrightarrow> control codec s' (fst d)"
      using c control unfolding h v by (auto simp: Let_def split: if_splits option.splits)
    have "splits T s (\<lambda>i. seenPacket i now p) s' (es @ tail) (\<lambda>i. if i = ?i then fs else [])"
    proof (rule splits_one [OF _ z])
      show "ch_step T (RcPacket now p) (?c, ss_stats s) = Some ((c', st'), fs)" by (simp add: v)
      show "opened ?i s" using 3 by (simp add: unusable_opened o)
      show "subseq fs (es @ tail)" by (simp add: es subseq_rev_drop_many)
    qed (use 3 gs tail T in \<open>auto simp: seenPacket_def s' es\<close>)
    then show ?thesis by blast
  qed
qed

lemma splits_SsSend:
  fixes s s' :: "('o, 'u, 'ep) Session"
  assumes T: "tr_codec T = codec" and z: "sized s" and step: "ss_step T (SsSend now ch m h) s = Some (s', es)"
  shows "\<exists>F. splits T s (\<lambda>i. seen T i (SsSend now ch m h) s) s' es F"
proof (cases "ss_closed s \<or> unusable ch s \<or> sc_mtu (ss_config s) < length m + cdc_maxOverhead (tr_codec T)")
  case True
  then have "splits T s (\<lambda>i. seen T i (SsSend now ch m h) s) s' es (\<lambda>i. [])"
    using step z by (intro splits_idle) (auto simp: ss_asyncSend_def unusable_opened split: if_splits)
  then show ?thesis by blast
next
  case False
  obtain c' st' where v: "ch_asyncSend (tr_ordered T) (tr_unordered T) (tr_codec T) now m (ss_remote s) h
      (ss_channels s ! unat ch) (ss_stats s) = (c', st', es)"
    and s': "s' = s\<lparr>ss_channels := (ss_channels s)[unat ch := c'], ss_stats := st'\<rparr>"
    using step False by (auto simp: ss_asyncSend_def Let_def split: prod.splits)
  have "splits T s (\<lambda>i. seen T i (SsSend now ch m h) s) s' es (\<lambda>i. if i = ch then es else [])"
    by (rule splits_one [OF _ z, where op = "RcSend now m (ss_remote s) h" and st = "ss_stats s" and st' = st'])
      (use False v in \<open>auto simp: s' unusable_opened\<close>)
  then show ?thesis by blast
qed

lemma splits_SsRecv:
  fixes s s' :: "('o, 'u, 'ep) Session"
  assumes T: "tr_codec T = codec" and z: "sized s" and step: "ss_step T (SsRecv ch n h) s = Some (s', es)"
  shows "\<exists>F. splits T s (\<lambda>i. seen T i (SsRecv ch n h) s) s' es F"
proof (cases "unusable ch s")
  case True
  then have "splits T s (\<lambda>i. seen T i (SsRecv ch n h) s) s' es (\<lambda>i. [])"
    using step z by (intro splits_idle) (auto simp: ss_asyncRecv_def unusable_opened)
  then show ?thesis by blast
next
  case False
  obtain c' where v: "ch_asyncRecv n h (ss_channels s ! unat ch) = (c', es)"
    and s': "s' = s\<lparr>ss_channels := (ss_channels s)[unat ch := c']\<rparr>"
    using step False by (auto simp: ss_asyncRecv_def Let_def split: prod.splits)
  have "splits T s (\<lambda>i. seen T i (SsRecv ch n h) s) s' es (\<lambda>i. if i = ch then es else [])"
    by (rule splits_one [OF _ z, where op = "RcRecv n h" and st = "ss_stats s" and st' = "ss_stats s"])
      (use False v in \<open>auto simp: s' unusable_opened\<close>)
  then show ?thesis by blast
qed

lemma splits_SsFlush:
  fixes s s' :: "('o, 'u, 'ep) Session"
  assumes T: "tr_codec T = codec" and z: "sized s" and step: "ss_step T (SsFlush h) s = Some (s', es)"
  shows "\<exists>F. splits T s (\<lambda>i. seen T i (SsFlush h) s) s' es F"
proof (cases "ss_closed s")
  case True
  then have "splits T s (\<lambda>i. seen T i (SsFlush h) s) s' es (\<lambda>i. [])"
    using step z by (intro splits_idle) (auto simp: ss_asyncFlush_def)
  then show ?thesis by blast
next
  case False
  obtain cs st and fs :: "'ep effect list" where
    v: "visitOpen (\<lambda>c st. (c, st, ch_flush (ss_remote s) c)) (ss_channelOpen s) (ss_channels s) (ss_stats s) = (cs, st, fs)"
    using prod_cases3 by blast
  then have "s' = s\<lparr>ss_channels := cs, ss_stats := st\<rparr>" "es = fs @ [CompleteSend h NoError]"
    using step False by (auto simp: ss_asyncFlush_def)
  then show ?thesis
    using False by (intro splits_all [OF z v, where op = "RcFlush (ss_remote s)"]) (auto simp: subseq_rev_drop_many)
qed

lemma splits_SsDisconnect:
  fixes s s' :: "('o, 'u, 'ep) Session"
  assumes T: "tr_codec T = codec" and z: "sized s" and step: "ss_step T (SsDisconnect h) s = Some (s', es)"
  shows "\<exists>F. splits T s (\<lambda>i. seen T i (SsDisconnect h) s) s' es F"
proof -
  let ?p = "newPacket\<lparr>pkt_type := Disconnect\<rparr>"
  show ?thesis
  proof (cases "ss_closed s \<or> ss_encodePacket (tr_codec T) ?p \<noteq> []")
    case True
    have "control codec s' (fst d)" if "d \<in> set (datagrams es)" for d
      using step that True encodePacket_control [of ?p s'] T control_types
      by (auto simp: ss_asyncDisconnect_def Let_def split: if_splits)
    then have "splits T s (\<lambda>i. seen T i (SsDisconnect h) s) s' es (\<lambda>i. [])"
      using step z True T by (intro splits_idle) (auto simp: ss_asyncDisconnect_def Let_def split: if_splits)
    then show ?thesis by blast
  next
    case False
    obtain fs where c: "ss_close (makeErrorCode BadPacket) s = (s', fs)" and es: "es = fs @ [CompleteSend h (makeErrorCode BadPacket)]"
      using step False by (auto simp: ss_asyncDisconnect_def Let_def split: prod.splits)
    show ?thesis unfolding es using False by (intro splits_close [OF z c]) auto
  qed
qed

lemma splits_SsStart:
  fixes s s' :: "('o, 'u, 'ep) Session"
  assumes T: "tr_codec T = codec" and z: "sized s" and step: "ss_step T (SsStart now remote) s = Some (s', es)"
  shows "\<exists>F. splits T s (\<lambda>i. seen T i (SsStart now remote) s) s' es F"
proof -
  have "splits T s (\<lambda>i. seen T i (SsStart now remote) s) s' es (\<lambda>i. [])"
    using step z by (intro splits_idle) (auto simp: ss_start_def sized_def split: if_splits)
  then show ?thesis by blast
qed

lemma splits_SsCancel:
  fixes s s' :: "('o, 'u, 'ep) Session"
  assumes T: "tr_codec T = codec" and z: "sized s" and step: "ss_step T SsCancel s = Some (s', es)"
  shows "\<exists>F. splits T s (\<lambda>i. seen T i SsCancel s) s' es F"
proof -
  have "ss_close (AsioCode operation_aborted) s = (s', es)" using step by (simp add: ss_cancel_def)
  then show ?thesis by (rule splits_closed [OF z]) simp
qed

lemma splits_SsRecvDone:
  fixes s s' :: "('o, 'u, 'ep) Session"
  assumes T: "tr_codec T = codec" and z: "sized s" and step: "ss_step T (SsRecvDone now ec sender bs) s = Some (s', es)"
  shows "\<exists>F. splits T s (\<lambda>i. seen T i (SsRecvDone now ec sender bs) s) s' es F"
proof -
  note r = step [simplified]
  show ?thesis
  proof (cases "ss_closed s \<or> failed ec")
    case True
    show ?thesis
    proof (cases "ss_closed s")
      case False
      then have "ss_close ec s = (s', es)" using r True by (simp add: onSocketRecv_def)
      then show ?thesis by (rule splits_closed [OF z]) (use True False in simp)
    next
      case True
      then have "splits T s (\<lambda>i. seen T i (SsRecvDone now ec sender bs) s) s' es (\<lambda>i. [])"
        using r z by (intro splits_idle) (auto simp: onSocketRecv_def)
      then show ?thesis by blast
    qed
  next
    case False
    then obtain es1 where
      h: "(if sender = ss_remote s then handlePacket T now bs s else Some (s, [])) = Some (s', es1)"
      and es: "es = es1 @ (if \<not> ss_closed s' then [RecvFrom] else [])"
      using r by (auto simp: onSocketRecv_def bind_eq_Some_conv)
    show ?thesis
    proof (cases "sender = ss_remote s \<and> (\<exists>p. cdc_decode codec bs = Inr p)")
      case True
      then obtain p where p: "cdc_decode codec bs = Inr p" by blast
      have "\<exists>F. splits T s (\<lambda>i. seenPacket i now p) s' es F"
        unfolding es by (rule splits_packet [OF T z p]) (use h True False in auto)
      then show ?thesis using True False T p by simp
    next
      case F: False
      then have "splits T s (\<lambda>i. seen T i (SsRecvDone now ec sender bs) s) s' es (\<lambda>i. [])"
        using h z False T
        by (intro splits_idle) (auto simp: es handlePacket_def split: if_splits sum.splits)
      then show ?thesis by blast
    qed
  qed
qed

lemma splits_SsSendDone:
  fixes s s' :: "('o, 'u, 'ep) Session"
  assumes T: "tr_codec T = codec" and z: "sized s" and step: "ss_step T (SsSendDone k ec) s = Some (s', es)"
  shows "\<exists>F. splits T s (\<lambda>i. seen T i (SsSendDone k ec) s) s' es F"
proof -
  note r = step [simplified]
  show ?thesis
  proof (cases k)
    case (SendReliable j sq h)
    obtain c' st' where v: "ch_onSent (tr_ordered T) (tr_unordered T) sq h ec (ss_channels s ! unat j) (ss_stats s) = (c', st', es)"
      and s': "s' = s\<lparr>ss_channels := (ss_channels s)[unat j := c'], ss_stats := st'\<rparr>"
      using r by (auto simp: SendReliable Let_def split: prod.splits)
    show ?thesis
    proof (cases "opened j s")
      case True
      have "splits T s (\<lambda>i. seen T i (SsSendDone k ec) s) s' es (\<lambda>i. if i = j then es else [])"
        by (rule splits_one [OF True z, where op = "RcSent sq h ec" and st = "ss_stats s" and st' = st'])
          (use v in \<open>auto simp: SendReliable s'\<close>)
      then show ?thesis by blast
    next
      case False
      have "datagrams es = []"
        using v by (cases "ss_channels s ! unat j") (auto simp: apfst_eq_conv uc_onSent_def dest: onSent_held)
      moreover have "ss_channels s' ! unat i = ss_channels s ! unat i" if "opened i s" for i
      proof -
        have "unat j \<noteq> unat i" using that False by (metis word_unat_eq_iff)
        then show ?thesis by (simp add: s')
      qed
      ultimately have "splits T s (\<lambda>i. seen T i (SsSendDone k ec) s) s' es (\<lambda>i. [])"
        using z False by (intro splits_idle) (auto simp: SendReliable s' sized_def)
      then show ?thesis by blast
    qed
  next
    case (SendDisconnect h)
    obtain fs where c: "ss_close NoError s = (s', fs)" and es: "es = fs @ [CompleteSend h ec]"
      using r by (auto simp: SendDisconnect split: prod.splits)
    show ?thesis unfolding es by (rule splits_close [OF z c]) (simp_all add: SendDisconnect)
  qed (use r z in \<open>auto intro!: exI splits_idle\<close>)
qed

lemma splits_SsRetransmit:
  fixes s s' :: "('o, 'u, 'ep) Session"
  assumes T: "tr_codec T = codec" and z: "sized s" and step: "ss_step T (SsRetransmit now ec) s = Some (s', es)"
  shows "\<exists>F. splits T s (\<lambda>i. seen T i (SsRetransmit now ec) s) s' es F"
proof (cases "failed ec \<or> ss_closed s")
  case True
  then have "splits T s (\<lambda>i. seen T i (SsRetransmit now ec) s) s' es (\<lambda>i. [])"
    using step z by (intro splits_idle) (auto simp: onRetransmit_def)
  then show ?thesis by blast
next
  case False
  obtain cs st and fs :: "'ep effect list" where
    v: "visitOpen (\<lambda>c st. ch_onTick (tr_ordered T) (tr_unordered T) now (ss_remote s) c st)
          (ss_channelOpen s) (ss_channels s) (ss_stats s) = (cs, st, fs)"
    using prod_cases3 by blast
  then have "s' = s\<lparr>ss_channels := cs, ss_stats := st\<rparr>" "es = fs @ [ArmRetransmit (uint (ss_retxTick s))]"
    using step False by (auto simp: onRetransmit_def)
  then show ?thesis
    using False by (intro splits_all [OF z v, where op = "RcTick now (ss_remote s)"]) (auto simp: subseq_rev_drop_many)
qed

lemma splits_SsKeepalive:
  fixes s s' :: "('o, 'u, 'ep) Session"
  assumes T: "tr_codec T = codec" and z: "sized s" and step: "ss_step T (SsKeepalive now ec) s = Some (s', es)"
  shows "\<exists>F. splits T s (\<lambda>i. seen T i (SsKeepalive now ec) s) s' es F"
proof -
  let ?late = "millis (uint (sc_timeoutMs (ss_config s))) < now - ss_lastRecv s" and ?p = "newPacket\<lparr>pkt_type := Keepalive\<rparr>"
  show ?thesis
  proof (cases "\<not> failed ec \<and> \<not> ss_closed s \<and> ?late")
    case True
    then have "ss_close (makeErrorCode Timeout) s = (s', es)" using step by (simp add: onKeepalive_def)
    then show ?thesis by (rule splits_closed [OF z]) (use True in simp)
  next
    case False
    have "control codec s' (fst d)" if "d \<in> set (datagrams es)" for d
      using step that False sendPacket_control [OF T, of d ?p s s'] control_types
      by (auto simp: onKeepalive_def split: if_splits)
    then have "splits T s (\<lambda>i. seen T i (SsKeepalive now ec) s) s' es (\<lambda>i. [])"
      using step z False T by (intro splits_idle) (auto simp: onKeepalive_def split: if_splits)
    then show ?thesis by blast
  qed
qed

lemmas splits_ops = splits_SsSend splits_SsRecv splits_SsFlush splits_SsDisconnect splits_SsStart splits_SsCancel
  splits_SsRecvDone splits_SsSendDone splits_SsRetransmit splits_SsKeepalive

lemma step_splits:
  assumes "tr_codec T = codec" and "sized s" and "ss_step T op s = Some (s', es)"
  shows "\<exists>F. splits T s (\<lambda>i. seen T i op s) s' es F"
  using assms by (cases op) (auto simp del: ss_step.simps seen.simps intro: splits_ops)

end

section \<open>Runs of a channel inside a session\<close>

fun seenAll :: "('o, 'u) Traits \<Rightarrow> u8 \<Rightarrow> 'ep ss_op list \<Rightarrow> ('o, 'u, 'ep) Session \<Rightarrow> 'ep rc_op list" where
  "seenAll T i [] s = []"
| "seenAll T i (op # ops) s =
     seen T i op s @ (case ss_step T op s of None \<Rightarrow> [] | Some (s', es) \<Rightarrow> seenAll T i ops s')"

lemma runPartial_appendI:
  "runPartial f xs s = Some (s1, es) \<Longrightarrow> runPartial f ys s1 = Some (s2, fs) \<Longrightarrow>
    runPartial f (xs @ ys) s = Some (s2, es @ fs)"
  by (induction xs arbitrary: s es) (auto simp: bind_eq_Some_conv)

lemma ch_run_free:
  "runPartial (ch_step T) ops (c, st) = Some ((c', st'), es) \<Longrightarrow>
    \<exists>st1'. runPartial (ch_step T) ops (c, st1) = Some ((c', st1'), es)"
proof (induction ops arbitrary: c st st1 es)
  case (Cons op ops)
  from Cons.prems obtain r es1 es2 where step: "ch_step T op (c, st) = Some (r, es1)"
    and run: "runPartial (ch_step T) ops r = Some ((c', st'), es2)" and es: "es = es1 @ es2"
    by (rule runPartial_Cons_SomeE)
  obtain c2 st2 where r: "r = (c2, st2)" by fastforce
  obtain st3 where "ch_step T op (c, st1) = Some ((c2, st3), es1)" using ch_step_free step r by blast
  then show ?case using Cons.IH [OF run [unfolded r], of st3] by (auto simp: es)
qed simp

text \<open>Every open channel has its number, and all packets that it holds carry it.\<close>

definition numbered :: "PacketCodec \<Rightarrow> ('o, 'u, 'ep) Session \<Rightarrow> bool" where
  "numbered codec s \<longleftrightarrow> sized s
     \<and> (\<forall>i. opened i s \<longrightarrow> tagged codec (ss_channels s ! unat i) \<and> ch_id (ss_channels s ! unat i) = i)"

lemma splitsD:
  assumes "splits T s ops s' es F" and "opened i s"
  obtains st' where "runPartial (ch_step T) (ops i) (ss_channels s ! unat i, st) = Some ((ss_channels s' ! unat i, st'), F i)"
    and "subseq (F i) es" and "opened i s'"
proof -
  from assms obtain st0 st1 where "runPartial (ch_step T) (ops i) (ss_channels s ! unat i, st0)
      = Some ((ss_channels s' ! unat i, st1), F i)" unfolding splits_def by blast
  from ch_run_free [OF this] obtain st' where "runPartial (ch_step T) (ops i) (ss_channels s ! unat i, st)
      = Some ((ss_channels s' ! unat i, st'), F i)" by blast
  moreover have "subseq (F i) es" "opened i s'" using assms by (simp_all add: splits_def opened_def)
  ultimately show ?thesis using that by blast
qed

context packet_codec
begin

lemma ch_run_tagged:
  assumes T: "tr_codec T = codec"
  shows "runPartial (ch_step T) ops (c, st) = Some ((c', st'), es) \<Longrightarrow> tagged codec c \<Longrightarrow>
    tagged codec c' \<and> ch_id c' = ch_id c \<and> (\<forall>(bs, ep, k)\<in>set (datagrams es). dataOf codec (ch_id c) bs)"
proof (induction ops arbitrary: c st es)
  case (Cons op ops)
  from Cons.prems(1) obtain r es1 es2 where step: "ch_step T op (c, st) = Some (r, es1)"
    and run: "runPartial (ch_step T) ops r = Some ((c', st'), es2)" and es: "es = es1 @ es2"
    by (rule runPartial_Cons_SomeE)
  obtain c2 st2 where r: "r = (c2, st2)" by fastforce
  note t = ch_step_tagged [OF T step [unfolded r] Cons.prems(2)]
  show ?case using t Cons.IH [OF run [unfolded r]] by (auto simp: es)
qed simp

lemma step_refines:
  assumes T: "tr_codec T = codec" and n: "numbered codec s" and step: "ss_step T op s = Some (s', es)"
  obtains F where "splits T s (\<lambda>i. seen T i op s) s' es F" and "numbered codec s'"
    and "\<And>d i. d \<in> set (datagrams es) \<Longrightarrow> opened i s \<Longrightarrow> dataOf codec i (fst d) \<Longrightarrow> d \<in> set (datagrams (F i))"
proof -
  obtain F where F: "splits T s (\<lambda>i. seen T i op s) s' es F"
    using step_splits [OF T _ step] n by (auto simp: numbered_def)
  have tag: "tagged codec (ss_channels s' ! unat i) \<and> ch_id (ss_channels s' ! unat i) = i
      \<and> (\<forall>(bs, ep, k)\<in>set (datagrams (F i)). dataOf codec i bs)" if o: "opened i s" for i
  proof -
    obtain st' where r: "runPartial (ch_step T) (seen T i op s) (ss_channels s ! unat i, newSocketStats)
        = Some ((ss_channels s' ! unat i, st'), F i)" by (rule splitsD [OF F o])
    show ?thesis using ch_run_tagged [OF T r] n o by (simp add: numbered_def)
  qed
  have "numbered codec s'" using F tag by (auto simp: numbered_def splits_def opened_def)
  moreover have "d \<in> set (datagrams (F i))" if d: "d \<in> set (datagrams es)" "opened i s" "dataOf codec i (fst d)" for d i
  proof -
    have "\<not> control codec s' (fst d)" using d(3) by (auto simp: dataOf_def control_def)
    then obtain j where j: "opened j s" "d \<in> set (datagrams (F j))" using F d(1) T by (auto simp: splits_def)
    then have "dataOf codec j (fst d)" using tag [OF j(1)] by (cases d) auto
    then have "i = j" using d(3) by (auto simp: dataOf_def)
    then show ?thesis using j(2) by simp
  qed
  ultimately show ?thesis using F that by blast
qed

lemma run_refines:
  assumes T: "tr_codec T = codec" and i: "opened i s"
  shows "numbered codec s \<Longrightarrow> runPartial (ss_step T) ops s = Some (s', es) \<Longrightarrow>
    \<exists>st' fs. runPartial (ch_step T) (seenAll T i ops s) (ss_channels s ! unat i, st) = Some ((ss_channels s' ! unat i, st'), fs)
      \<and> subseq fs es \<and> (\<forall>d\<in>set (datagrams es). dataOf codec i (fst d) \<longrightarrow> d \<in> set (datagrams fs))
      \<and> (\<forall>d\<in>set (datagrams fs). dataOf codec i (fst d))"
  using i
proof (induction ops arbitrary: s es st)
  case (Cons op ops)
  from Cons.prems(2) obtain s1 es1 es2 where step: "ss_step T op s = Some (s1, es1)"
    and run: "runPartial (ss_step T) ops s1 = Some (s', es2)" and es: "es = es1 @ es2"
    by (rule runPartial_Cons_SomeE)
  obtain F where F: "splits T s (\<lambda>i. seen T i op s) s1 es1 F" and n1: "numbered codec s1"
    and d1: "\<And>d. d \<in> set (datagrams es1) \<Longrightarrow> dataOf codec i (fst d) \<Longrightarrow> d \<in> set (datagrams (F i))"
    by (rule step_refines [OF T Cons.prems(1) step]) (use Cons.prems(3) in blast)
  obtain st1 where r1: "runPartial (ch_step T) (seen T i op s) (ss_channels s ! unat i, st)
      = Some ((ss_channels s1 ! unat i, st1), F i)" and sub1: "subseq (F i) es1" and o1: "opened i s1"
    by (rule splitsD [OF F Cons.prems(3)])
  have t1: "\<forall>d\<in>set (datagrams (F i)). dataOf codec i (fst d)"
    using ch_run_tagged [OF T r1] Cons.prems(1,3) by (auto simp: numbered_def)
  from Cons.IH [OF n1 run o1, of st1] obtain st2 fs where
    r2: "runPartial (ch_step T) (seenAll T i ops s1) (ss_channels s1 ! unat i, st1) = Some ((ss_channels s' ! unat i, st2), fs)"
    and sub2: "subseq fs es2" and d2: "\<forall>d\<in>set (datagrams es2). dataOf codec i (fst d) \<longrightarrow> d \<in> set (datagrams fs)"
    and t2: "\<forall>d\<in>set (datagrams fs). dataOf codec i (fst d)" by blast
  have "runPartial (ch_step T) (seenAll T i (op # ops) s) (ss_channels s ! unat i, st)
      = Some ((ss_channels s' ! unat i, st2), F i @ fs)"
    using runPartial_appendI [OF r1 r2] step by simp
  moreover have "subseq (F i @ fs) es" using sub1 sub2 by (simp add: es list_emb_append_mono)
  ultimately show ?case using d1 d2 t1 t2 by (intro exI [of _ st2] exI [of _ "F i @ fs"]) (auto simp: es)
qed simp

end

section \<open>A new session\<close>

text \<open>An open channel of a new session is the one of a configuration with its number.\<close>

definition configured :: "'o \<Rightarrow> 'u \<Rightarrow> ChannelConfig list \<Rightarrow> ('o, 'u, 'ep) Session \<Rightarrow> bool" where
  "configured ko ku cfgs s \<longleftrightarrow> sized s
     \<and> (\<forall>i. opened i s \<longrightarrow> (\<exists>cc\<in>set cfgs. cfg_id cc = i \<and> ss_channels s ! unat i = channelFor ko ku cc))
     \<and> (\<forall>cc\<in>set cfgs. cfg_id cc < 8 \<longrightarrow> opened (cfg_id cc) s)"

lemma openChannel_configured:
  assumes "configured ko ku cfgs s"
  shows "configured ko ku (cfgs @ [cc]) (openChannel ko ku cc s)"
proof (cases "kMaxChannels \<le> cfg_id cc")
  case True
  then show ?thesis using assms by (auto simp: configured_def openChannel_def kMaxChannels_def)
next
  case False
  let ?s = "openChannel ko ku cc s" and ?j = "cfg_id cc"
  have j: "unat ?j < 8" using False by (simp add: kMaxChannels_def word_le_nat_alt not_le)
  have z: "length (ss_channels s) = 8" "length (ss_channelOpen s) = 8" using assms by (simp_all add: configured_def sized_def)
  have s': "ss_channels ?s = (ss_channels s)[unat ?j := channelFor ko ku cc]" "ss_channelOpen ?s = (ss_channelOpen s)[unat ?j := True]"
    using False by (simp_all add: openChannel_def)
  have "opened i ?s \<longleftrightarrow> i = ?j \<or> opened i s" for i
    using j z by (cases "i = ?j") (auto simp: opened_def s' nth_list_update word_unat_eq_iff)
  moreover have "ss_channels ?s ! unat i = (if i = ?j then channelFor ko ku cc else ss_channels s ! unat i)" for i
    using j z by (auto simp: s' nth_list_update word_unat_eq_iff)
  moreover have "sized ?s" by (simp add: sized_def s' z)
  ultimately show ?thesis using assms by (auto simp: configured_def)
qed

lemma newSession_configured: "configured ko ku (sc_channels cfg) (newSession ko ku (ep :: 'ep) cfg)"
proof -
  let ?s0 = "\<lparr>ss_config = cfg, ss_remote = ep,
      ss_channels = replicate 8 (UnreliableVar (newUnreliableChannel \<lparr>opt_id = 0, opt_priority = 0\<rparr>)),
      ss_channelOpen = replicate 8 False, ss_stats = newSocketStats, ss_lastRecv = 0,
      ss_retxTick = 100, ss_started = False, ss_closed = False\<rparr>"
  have "configured ko ku (pre @ cfgs) (fold (openChannel ko ku) cfgs s)" if "configured ko ku pre s"
    for pre cfgs and s :: "('a, 'b, 'ep) Session"
    using that
  proof (induction cfgs arbitrary: pre s)
    case (Cons cc cfgs)
    from Cons.IH [OF openChannel_configured [OF Cons.prems]] show ?case by simp
  qed simp
  moreover have "configured ko ku [] ?s0" by (auto simp: configured_def sized_def opened_def)
  ultimately have "configured ko ku (sc_channels cfg) (fold (openChannel ko ku) (sc_channels cfg) ?s0)"
    by (metis append_Nil)
  then show ?thesis by (simp add: newSession_def configured_def sized_def opened_def)
qed

lemma channelFor_tagged: "tagged codec (channelFor ko ku cc)"
  by (auto simp: tagged_def channelFor_def heldBytes_new split: ChannelMode.splits)

lemma newSession_numbered: "numbered codec (newSession ko ku ep cfg)"
  using newSession_configured [of ko ku cfg ep] channelFor_tagged channelFor_fresh
  by (fastforce simp: numbered_def configured_def)

section \<open>Property\<close>

text \<open>
  C3: a session is the independent composition of its channels. Let a session, over the default codec,
  run from its construction through any calls and completions. Then every open channel was built from a
  configuration with its number and has gone through a run of its own: exactly the calls that concern it
  (its sends within the size limit, its receives, the data and acknowledgement packets with its number from
  the peer, the ticks, flushes and the close), whatever the other channels did and whatever the shared
  counters held. The effects of that run occur in the same order among the effects of the session, and the
  datagrams of the session that decode to data with the channel's number are exactly those of that run.
\<close>

theorem session_refines_its_channels:
  assumes "tr_codec T = DefaultCodec" and "opened i (newSession ko ku ep cfg)"
    and "runPartial (ss_step T) ops (newSession ko ku ep cfg) = Some (s', es)"
  shows "\<exists>cc st' fs. cc \<in> set (sc_channels cfg) \<and> cfg_id cc = i
    \<and> runPartial (ch_step T) (seenAll T i ops (newSession ko ku ep cfg)) (channelFor ko ku cc, st)
        = Some ((ss_channels s' ! unat i, st'), fs)
    \<and> subseq fs es
    \<and> (\<forall>d\<in>set (datagrams es). dataOf DefaultCodec i (fst d) \<longleftrightarrow> d \<in> set (datagrams fs))"
proof -
  let ?s = "newSession ko ku ep cfg"
  obtain cc where c: "cc \<in> set (sc_channels cfg)" "cfg_id cc = i" "ss_channels ?s ! unat i = channelFor ko ku cc"
    using newSession_configured [of ko ku cfg ep] assms(2) by (auto simp: configured_def)
  from default_codec.run_refines [OF assms(1,2) newSession_numbered assms(3), of st] show ?thesis
    using c by (auto intro!: exI [of _ cc])
qed

definition twoChannelOps :: "nat ss_op list" where
  "twoChannelOps = [SsStart 1000 9, SsSend 2000 0 [1, 2] 5, SsSend 2000 1 [3] 6, SsRetransmit 300000000 NoError]"

theorem session_refines_its_channels_witness:
  "\<exists>s' es cc st' fs. tr_codec plainTraits = DefaultCodec \<and> opened 0 plainSession
   \<and> runPartial (ss_step plainTraits) twoChannelOps plainSession = Some (s', es)
   \<and> length (datagrams es) = 3 \<and> length (seenAll plainTraits 0 twoChannelOps plainSession) = 2
   \<and> cc \<in> set (sc_channels plainConfig) \<and> cfg_id cc = 0
   \<and> runPartial (ch_step plainTraits) (seenAll plainTraits 0 twoChannelOps plainSession)
       (channelFor () () cc, newSocketStats) = Some ((ss_channels s' ! 0, st'), fs) \<and> subseq fs es"
proof -
  have T: "tr_codec plainTraits = DefaultCodec" by (simp add: plainTraits_def)
  have o: "opened 0 plainSession" by code_simp
  have "map_option (\<lambda>r. length (datagrams (snd r))) (runPartial (ss_step plainTraits) twoChannelOps plainSession) = Some 3"
    by code_simp
  then obtain s' es where r: "runPartial (ss_step plainTraits) twoChannelOps plainSession = Some (s', es)"
    and n: "length (datagrams es) = 3" by auto
  have "length (seenAll plainTraits 0 twoChannelOps plainSession) = 2" by code_simp
  then show ?thesis
    using T o r n session_refines_its_channels [OF T o [unfolded plainSession_def] r [unfolded plainSession_def], of newSocketStats]
    by (fastforce simp: plainSession_def)
qed

end
