(* ===== verification/Rude_SessionLink.thy ===== *)
theory Rude_SessionLink
  imports Rude_SessionRefinement
begin

text \<open>
  Two sessions and the network between them: what the application of one session receives on a reliable
  ordered channel of what the application of the other sent there. The network may lose, repeat, delay
  and reorder datagrams and add any that do not decode to data of the channel; both sessions may use their
  other channels, time out, flush, disconnect and be closed at any point. The number of sends is bounded by
  half the number space, so that a 16-bit number names one packet.
\<close>

section \<open>What was sent\<close>

fun rcSends :: "'ep rc_op list \<Rightarrow> bytes list" where
  "rcSends [] = []"
| "rcSends (RcSend now m ep h # ops) = m # rcSends ops"
| "rcSends (_ # ops) = rcSends ops"

lemma rcSends_append [simp]: "rcSends (xs @ ys) = rcSends xs @ rcSends ys"
  by (induction xs rule: rcSends.induct) simp_all

fun sendsOn :: "u8 \<Rightarrow> 'ep ss_op list \<Rightarrow> bytes list" where
  "sendsOn i [] = []"
| "sendsOn i (SsSend now ch m h # ops) = (if ch = i then m # sendsOn i ops else sendsOn i ops)"
| "sendsOn i (_ # ops) = sendsOn i ops"

lemma sendsOn_Cons: "sendsOn i (op # ops) = sendsOn i [op] @ sendsOn i ops"
  by (cases op) simp_all

lemma seen_sends: "subseq (rcSends (seen T i op s)) (sendsOn i [op])"
  by (cases "(T, i, op, s)" rule: seen.cases) (auto simp: seenPacket_def split: sum.splits)

lemma seenAll_sends: "subseq (rcSends (seenAll T i ops s)) (sendsOn i ops)"
proof (induction ops arbitrary: s)
  case (Cons op ops)
  show ?case
  proof (cases "ss_step T op s")
    case None
    then show ?thesis
      unfolding sendsOn_Cons [of i op ops] using seen_sends [of T i op s] by (simp add: subseq_rev_drop_many)
  next
    case (Some r)
    then show ?thesis
      unfolding sendsOn_Cons [of i op ops] using seen_sends [of T i op s] Cons.IH [of "fst r"]
      by (simp add: case_prod_beta list_emb_append_mono del: sendsOn.simps)
  qed
qed simp

lemma seen_channel: "RcPacket now p \<in> set (seen T i op s) \<Longrightarrow> pkt_channel p = i"
  by (cases "(T, i, op, s)" rule: seen.cases) (auto simp: seenPacket_def split: if_splits sum.splits)

lemma seenAll_channel: "RcPacket now p \<in> set (seenAll T i ops s) \<Longrightarrow> pkt_channel p = i"
  by (induction ops arbitrary: s) (auto split: option.splits dest: seen_channel)

text \<open>The log of accepted sends: its payloads are among the sends, and its indices count them.\<close>

context packet_codec
begin

lemma log_bounds:
  assumes "rc_nextSeq (fst s) = of_nat k"
  shows "subseq (map (\<lambda>(i, m, bs). m) (sentLog cc codec ordered ops k s)) (rcSends ops)
    \<and> (\<forall>e \<in> set (sentLog cc codec ordered ops k s). fst e < k + length (rcSends ops))"
  using assms
proof (induction ops arbitrary: k s)
  case (Cons op ops)
  obtain c st where s: "s = (c, st)" by fastforce
  show ?case
  proof (cases "rc_step cc codec ordered op s")
    case (Some r)
    obtain c' st' es where r: "r = ((c', st'), es)" by (metis surj_pair)
    have n: "rc_nextSeq c = of_nat k" using Cons.prems s by simp
    from step_log [OF Some [unfolded s r] n] obtain d where
      d: "d \<le> 1" "rc_nextSeq c' = of_nat (k + d)" "unat (rc_nextSeq c' - rc_nextSeq c) = d"
        "length (logEntry op k es) \<le> d" by blast
    let ?rest = "sentLog cc codec ordered ops (k + d) (c', st')"
    have IH: "subseq (map (\<lambda>(i, m, bs). m) ?rest) (rcSends ops)"
      "\<forall>e \<in> set ?rest. fst e < k + d + length (rcSends ops)"
      using Cons.IH [of "(c', st')" "k + d"] d(2) by simp_all
    have l: "sentLog cc codec ordered (op # ops) k s = logEntry op k es @ ?rest"
      using Some d(3) by (simp add: s r)
    have "rcSends (op # ops) = rcSends [op] @ rcSends ops" by (cases op) simp_all
    moreover have "d \<le> length (rcSends [op])"
    proof (cases "\<exists>now m ep h. op = RcSend now m ep h")
      case False
      then show ?thesis using other_number [OF Some [unfolded s r]] d(3) by simp
    qed (use d(1) in auto)
    moreover have "subseq (map (\<lambda>(i, m, bs). m) (logEntry op k es)) (rcSends [op])"
      using d(1,4) by (cases op; cases "logEntry op k es") (auto simp: le_Suc_eq)
    moreover have "\<forall>e \<in> set (logEntry op k es). fst e < k + length (rcSends [op])"
      by (cases op) auto
    ultimately show ?thesis
      unfolding l using IH by (auto simp: list_emb_append_mono)
  qed simp
qed simp

end

section \<open>Arrivals by number\<close>

text \<open>
  While fewer than half the number space has been sent, the number of a data packet is its index, and
  every arrival is near whatever the receiver expects.
\<close>

fun toPeer :: "'ep rc_op \<Rightarrow> 'ep peer_op" where
  "toPeer (RcPacket now p) = (if pkt_type p = Data then Arrives now (unat (pkt_seq p)) else Local (RcPacket now p))"
| "toPeer op = Local op"

lemma runPartial_map:
  assumes "\<And>op s. op \<in> set ops \<Longrightarrow> f (g op) s = h op s"
  shows "runPartial f (map g ops) s = runPartial h ops s"
  using assms by (induction ops arbitrary: s) (auto intro!: arg_cong2 [where f = Option.bind])

lemma arrived_toPeer: "j \<in> arrived (map toPeer ops) \<longleftrightarrow> (\<exists>now p. RcPacket now p \<in> set ops \<and> pkt_type p = Data \<and> j = unat (pkt_seq p))"
proof (induction ops)
  case (Cons op ops)
  then show ?case by (cases op) auto
qed simp

lemma small_run_near:
  assumes "K \<le> 32768"
  shows "ordered_rel W (\<lambda>i. pkt_payload (pk i)) c n H \<Longrightarrow> n \<le> K \<Longrightarrow> H \<subseteq> {..<K} \<Longrightarrow>
    arrived (map toPeer ops) \<subseteq> {..<K} \<Longrightarrow> run_near K pk cc codec (map toPeer ops) n (c, st)"
proof (induction ops arbitrary: c n H st)
  case (Cons op ops)
  have a: "arrived (map toPeer (op # ops)) = arrived [toPeer op] \<union> arrived (map toPeer ops)"
    using arrived_Cons [of "toPeer op" "map toPeer ops"] by simp
  then have in1: "arrived [toPeer op] \<subseteq> {..<K}" and in2: "arrived (map toPeer ops) \<subseteq> {..<K}"
    using Cons.prems(4) by auto
  have nr: "op_near K n (toPeer op)"
    using in1 Cons.prems(2) assms by (cases op) (auto simp: near_def)
  show ?case
  proof (cases "peer_step True pk cc codec (toPeer op) (c, st)")
    case None
    then show ?thesis using nr by simp
  next
    case (Some r)
    obtain c' st' es where r: "r = ((c', st'), es)" by (metis surj_pair)
    from peer_step_ordered [OF Cons.prems(1) nr Some [unfolded r]] obtain n' H' where
      o: "ordered_rel W (\<lambda>i. pkt_payload (pk i)) c' n' H'" "n \<le> n'"
      and n': "n + unat (rc_expectedRecvSeq c' - rc_expectedRecvSeq c) = n'"
      and sub: "{n..<n'} \<union> H' \<subseteq> H \<union> arrived [toPeer op]" by blast
    have le: "{n..<n'} \<union> H' \<subseteq> {..<K}" using sub in1 Cons.prems(3) by blast
    have "n' \<le> K"
    proof (cases "n = n'")
      case False
      then have "n' - 1 \<in> {n..<n'}" using o(2) by auto
      then show ?thesis using le by auto
    qed (use Cons.prems(2) in simp)
    then have "run_near K pk cc codec (map toPeer ops) n' (c', st')"
      using Cons.IH [OF o(1) _ _ in2] le by auto
    then show ?thesis using nr Some n' by (simp add: r)
  qed
qed simp

section \<open>End to end\<close>

lemma log_packets:
  assumes log: "sends = sentLog cc DefaultCodec ordered ops 0 (newReliableChannel cfg k, st)"
  obtains pk where "\<And>j m bs. (j, m, bs) \<in> set sends \<Longrightarrow>
    decode bs = Inr (pk j) \<and> pkt_type (pk j) = Data \<and> pkt_seq (pk j) = of_nat j"
proof -
  have "rc_nextSeq (fst (newReliableChannel cfg k, st)) = of_nat 0" by (simp add: newReliableChannel_def Let_def)
  from default_codec.run_log [OF this, of cc ordered ops] have
    srt: "sorted_wrt (<) (map fst sends)" and
    car: "(j, m, bs) \<in> set sends \<Longrightarrow> carries DefaultCodec j m bs" for j m bs
    unfolding log by auto
  have inj: "inj_on fst (set sends)" using srt by (simp add: strict_sorted_iff distinct_map)
  have "\<exists>p. \<forall>m bs. (j, m, bs) \<in> set sends \<longrightarrow> decode bs = Inr p \<and> pkt_type p = Data \<and> pkt_seq p = of_nat j" for j
  proof (cases "\<exists>m bs. (j, m, bs) \<in> set sends")
    case True
    then obtain m bs where e: "(j, m, bs) \<in> set sends" by blast
    have "e' = (j, m, bs)" if "e' \<in> set sends" "fst e' = j" for e'
      using inj_onD [OF inj _ that(1) e] that(2) by simp
    then show ?thesis using car [OF e] by (fastforce simp: carries_def DefaultCodec_def)
  qed blast
  then obtain pk where "\<forall>j m bs. (j, m, bs) \<in> set sends \<longrightarrow>
      decode bs = Inr (pk j) \<and> pkt_type (pk j) = Data \<and> pkt_seq (pk j) = of_nat j" by metis
  then show ?thesis using that by blast
qed

text \<open>The receiver's run as arrivals by index of packets of the sender's log.\<close>

lemma link_run:
  assumes small: "length (rcSends opsA) \<le> 32768"
    and runA: "runPartial (rc_step ccA DefaultCodec orderedA) opsA (newReliableChannel cfgA kA, stA) = Some ((a, stA'), esA)"
    and log: "sends = sentLog ccA DefaultCodec orderedA opsA 0 (newReliableChannel cfgA kA, stA)"
    and net: "\<forall>now p. RcPacket now p \<in> set ops \<and> pkt_type p = Data \<longrightarrow>
      (\<exists>bs ep q. (bs, ep, q) \<in> set (datagrams esA) \<and> decode bs = Inr p)"
  obtains pk where "\<forall>j \<in> arrived (map toPeer ops). \<exists>m bs. (j, m, bs) \<in> set sends \<and> decode bs = Inr (pk j)"
    and "arrived (map toPeer ops) \<subseteq> {..<length (rcSends opsA)}"
    and "runPartial (peer_step True pk cc codec) (map toPeer ops) s = runPartial (rc_step cc codec True) ops s"
    and "\<And>op s. op \<in> set ops \<Longrightarrow> peer_step True pk cc codec (toPeer op) s = rc_step cc codec True op s"
proof -
  let ?K = "length (rcSends opsA)"
  obtain pk where pk: "\<And>j m bs. (j, m, bs) \<in> set sends \<Longrightarrow>
      decode bs = Inr (pk j) \<and> pkt_type (pk j) = Data \<and> pkt_seq (pk j) = of_nat j"
    using log_packets [OF log] by blast
  have "rc_nextSeq (fst (newReliableChannel cfgA kA, stA)) = of_nat 0" by (simp add: newReliableChannel_def Let_def)
  from default_codec.log_bounds [OF this, of ccA orderedA opsA]
  have bound: "j < ?K" if "(j, m, bs) \<in> set sends" for j m bs using that unfolding log by fastforce
  have idx: "\<exists>m bs. (unat (pkt_seq p), m, bs) \<in> set sends \<and> p = pk (unat (pkt_seq p)) \<and> pkt_seq p = of_nat (unat (pkt_seq p))"
    if "RcPacket now p \<in> set ops" "pkt_type p = Data" for now p
  proof -
    from net that obtain bs ep q where b: "(bs, ep, q) \<in> set (datagrams esA)" "decode bs = Inr p" by blast
    from run_logged [OF runA b(1), of 0] obtain j m where e: "(j, m, bs) \<in> set sends"
      unfolding log by (auto simp: heldBytes_new)
    have "unat (pkt_seq p) = j" using pk [OF e] b(2) bound [OF e] small by (simp add: unat_of_nat)
    then show ?thesis using e pk [OF e] b(2) by auto
  qed
  have same: "peer_step True pk cc codec (toPeer op) s = rc_step cc codec True op s" if "op \<in> set ops" for op s
  proof (cases op)
    case (RcPacket now p)
    have "streamPacket pk (unat (pkt_seq p)) = p" if d: "pkt_type p = Data"
    proof -
      have "pk (unat (pkt_seq p)) = p" using idx [of now p] d RcPacket \<open>op \<in> set ops\<close> by metis
      then show ?thesis using d by (simp add: streamPacket_def)
    qed
    then show ?thesis by (simp add: RcPacket peer_step_def)
  qed (simp_all add: peer_step_def)
  have run: "runPartial (peer_step True pk cc codec) (map toPeer ops) s = runPartial (rc_step cc codec True) ops s"
    by (rule runPartial_map) (rule same)
  have arr: "\<forall>j \<in> arrived (map toPeer ops). \<exists>m bs. (j, m, bs) \<in> set sends \<and> decode bs = Inr (pk j)"
  proof
    fix j assume "j \<in> arrived (map toPeer ops)"
    then obtain now p where "RcPacket now p \<in> set ops" "pkt_type p = Data" and j: "j = unat (pkt_seq p)"
      unfolding arrived_toPeer by blast
    from idx [OF this(1,2)] obtain m bs where "(j, m, bs) \<in> set sends" unfolding j by blast
    then show "\<exists>m bs. (j, m, bs) \<in> set sends \<and> decode bs = Inr (pk j)" using pk by blast
  qed
  then have "arrived (map toPeer ops) \<subseteq> {..<?K}" using bound by auto
  with arr run same show ?thesis using that by blast
qed

lemma link_in_order:
  assumes W: "windowCapacity (opt_sendWindow cfg) dvd 65536" "windowCapacity (opt_sendWindow cfg) < 32768"
    and small: "length (rcSends opsA) \<le> 32768"
    and runA: "runPartial (rc_step ccA DefaultCodec orderedA) opsA (newReliableChannel cfgA kA, stA) = Some ((a, stA'), esA)"
    and log: "sends = sentLog ccA DefaultCodec orderedA opsA 0 (newReliableChannel cfgA kA, stA)"
    and net: "\<forall>now p. RcPacket now p \<in> set ops \<and> pkt_type p = Data \<longrightarrow>
      (\<exists>bs ep q. (bs, ep, q) \<in> set (datagrams esA) \<and> decode bs = Inr p)"
    and run: "runPartial (rc_step cc codec True) ops (newReliableChannel cfg k, st) = Some ((c, st'), es)"
  shows "\<exists>n ms. handedOut es ms \<and> n \<le> length sends \<and> rc_expectedRecvSeq c = of_nat n \<and> {0..<n} \<subseteq> set (map fst sends)
    \<and> ms @ rq_queued (rc_recvQueue c) = map (\<lambda>(i, m, bs). m) (take n sends)"
proof -
  obtain pk where arr: "\<forall>j \<in> arrived (map toPeer ops). \<exists>m bs. (j, m, bs) \<in> set sends \<and> decode bs = Inr (pk j)"
    and K: "arrived (map toPeer ops) \<subseteq> {..<length (rcSends opsA)}"
    and same: "runPartial (peer_step True pk cc codec) (map toPeer ops) (newReliableChannel cfg k, st)
      = runPartial (rc_step cc codec True) ops (newReliableChannel cfg k, st)"
    by (rule link_run [OF small runA log net])
  have "run_near (length (rcSends opsA)) pk cc codec (map toPeer ops) 0 (newReliableChannel cfg k, st)"
    using K by (intro small_run_near [OF small ordered_rel_new [OF W]]) auto
  from end_to_end_in_order [OF W runA log arr this trans [OF same run]] show ?thesis by auto
qed

text \<open>
  The effects that concern one channel of a session's run, and the messages it accepted for sending.
\<close>

definition channelEffects :: "('o, 'u) Traits \<Rightarrow> u8 \<Rightarrow> 'ep ss_op list \<Rightarrow> ('o, 'u, 'ep) Session \<Rightarrow> 'ep effect list" where
  "channelEffects T i ops s =
     (case runPartial (ch_step T) (seenAll T i ops s) (ss_channels s ! unat i, newSocketStats) of
        None \<Rightarrow> [] | Some (r, fs) \<Rightarrow> fs)"

definition acceptedSends :: "('o, 'u) Traits \<Rightarrow> u8 \<Rightarrow> 'ep ss_op list \<Rightarrow> ('o, 'u, 'ep) Session \<Rightarrow> bytes list" where
  "acceptedSends T i ops s =
     (case ss_channels s ! unat i of
        OrderedVar c \<Rightarrow> map (\<lambda>(i, m, bs). m)
          (sentLog (tr_ordered T) (tr_codec T) True (seenAll T i ops s) 0 (c, newSocketStats))
      | _ \<Rightarrow> [])"

text \<open>The numbers of the accepted messages; a refused send may have consumed a number, which is then missing.\<close>

definition sentNumbers :: "('o, 'u) Traits \<Rightarrow> u8 \<Rightarrow> 'ep ss_op list \<Rightarrow> ('o, 'u, 'ep) Session \<Rightarrow> nat list" where
  "sentNumbers T i ops s =
     (case ss_channels s ! unat i of
        OrderedVar c \<Rightarrow> map fst (sentLog (tr_ordered T) (tr_codec T) True (seenAll T i ops s) 0 (c, newSocketStats))
      | _ \<Rightarrow> [])"

lemma ch_run_ordered:
  "runPartial (ch_step T) ops (OrderedVar c, st) = Some ((v, st'), fs) \<Longrightarrow>
    \<exists>c'. v = OrderedVar c' \<and> runPartial (rc_step (tr_ordered T) (tr_codec T) True) ops (c, st) = Some ((c', st'), fs)"
proof (induction ops arbitrary: c st fs)
  case (Cons op ops)
  from Cons.prems obtain r es1 es2 where step: "ch_step T op (OrderedVar c, st) = Some (r, es1)"
    and run: "runPartial (ch_step T) ops r = Some ((v, st'), es2)" and fs: "fs = es1 @ es2"
    by (rule runPartial_Cons_SomeE)
  from step obtain c1 st1 where r: "r = (OrderedVar c1, st1)"
    and step': "rc_step (tr_ordered T) (tr_codec T) True op (c, st) = Some ((c1, st1), es1)"
    by (auto simp: ch_step_reliable)
  from Cons.IH [OF run [unfolded r]] show ?case by (auto simp: fs step')
qed simp

text \<open>One ordered channel of a session's run from construction.\<close>

lemma ordered_run:
  fixes s' :: "('o, 'u, 'ep) Session"
  assumes T: "tr_codec T = DefaultCodec" and o: "opened i (newSession ko ku ep cfg)"
    and mode: "\<forall>cc\<in>set (sc_channels cfg). cfg_id cc = i \<longrightarrow> cfg_mode cc = ReliableOrdered"
    and run: "runPartial (ss_step T) ops (newSession ko ku ep cfg) = Some (s', es)"
  obtains cc c st where "cc \<in> set (sc_channels cfg)" and "cfg_id cc = i"
    and "ss_channels (newSession ko ku ep cfg) ! unat i = OrderedVar (newReliableChannel (reliableOptions cc) ko)"
    and "ss_channels s' ! unat i = OrderedVar c"
    and "runPartial (rc_step (tr_ordered T) DefaultCodec True) (seenAll T i ops (newSession ko ku ep cfg))
      (newReliableChannel (reliableOptions cc) ko, newSocketStats)
      = Some ((c, st), channelEffects T i ops (newSession ko ku ep cfg))"
    and "subseq (channelEffects T i ops (newSession ko ku ep cfg)) es"
    and "\<And>d. d \<in> set (datagrams es) \<Longrightarrow> dataOf DefaultCodec i (fst d) \<Longrightarrow>
      d \<in> set (datagrams (channelEffects T i ops (newSession ko ku ep cfg)))"
proof -
  let ?s = "newSession ko ku ep cfg"
  obtain cc where cc: "cc \<in> set (sc_channels cfg)" "cfg_id cc = i" "ss_channels ?s ! unat i = channelFor ko ku cc"
    using newSession_configured [of ko ku cfg ep] o by (auto simp: configured_def)
  then have c0: "ss_channels ?s ! unat i = OrderedVar (newReliableChannel (reliableOptions cc) ko)"
    using mode by (simp add: channelFor_def)
  from default_codec.run_refines [OF T o newSession_numbered run, of newSocketStats] obtain st fs where
    r: "runPartial (ch_step T) (seenAll T i ops ?s) (ss_channels ?s ! unat i, newSocketStats) = Some ((ss_channels s' ! unat i, st), fs)"
    and fs: "subseq fs es" "\<forall>d\<in>set (datagrams es). dataOf DefaultCodec i (fst d) \<longrightarrow> d \<in> set (datagrams fs)" by blast
  have e: "channelEffects T i ops ?s = fs" using r by (simp add: channelEffects_def)
  from ch_run_ordered [OF r [unfolded c0]] obtain c where "ss_channels s' ! unat i = OrderedVar c"
    "runPartial (rc_step (tr_ordered T) (tr_codec T) True) (seenAll T i ops ?s)
      (newReliableChannel (reliableOptions cc) ko, newSocketStats) = Some ((c, st), fs)" by blast
  then show ?thesis using that [OF cc(1,2) c0] fs T by (simp add: e)
qed

text \<open>
  The setting of both properties of two sessions: the runs of the two channels, and that the data packets
  which the receiving one sees come from datagrams of the sending one.
\<close>

lemma linked_runs:
  assumes T: "tr_codec TA = DefaultCodec" "tr_codec TB = DefaultCodec"
    and s: "sA = newSession koA kuA epA cfgA" "sB = newSession koB kuB epB cfgB" and o: "opened i sA" "opened i sB"
    and mode: "\<forall>cc\<in>set (sc_channels cfgA). cfg_id cc = i \<longrightarrow> cfg_mode cc = ReliableOrdered"
      "\<forall>cc\<in>set (sc_channels cfgB). cfg_id cc = i \<longrightarrow> cfg_mode cc = ReliableOrdered"
    and run: "runPartial (ss_step TA) opsA sA = Some (sA', esA)" "runPartial (ss_step TB) opsB sB = Some (sB', esB)"
    and small: "length (sendsOn i opsA) \<le> 32768"
    and net: "\<forall>now p. RcPacket now p \<in> set (seenAll TB i opsB sB) \<and> pkt_type p = Data \<longrightarrow>
      (\<exists>bs ep q. (bs, ep, q) \<in> set (datagrams esA) \<and> decode bs = Inr p)"
  obtains ca a sta cb b stb
  where "ss_channels sA ! unat i = OrderedVar (newReliableChannel (reliableOptions ca) koA)"
    and "ss_channels sA' ! unat i = OrderedVar a"
    and "runPartial (rc_step (tr_ordered TA) DefaultCodec True) (seenAll TA i opsA sA)
      (newReliableChannel (reliableOptions ca) koA, newSocketStats) = Some ((a, sta), channelEffects TA i opsA sA)"
    and "cb \<in> set (sc_channels cfgB)" and "cfg_id cb = i" and "ss_channels sB' ! unat i = OrderedVar b"
    and "runPartial (rc_step (tr_ordered TB) DefaultCodec True) (seenAll TB i opsB sB)
      (newReliableChannel (reliableOptions cb) koB, newSocketStats) = Some ((b, stb), channelEffects TB i opsB sB)"
    and "subseq (channelEffects TB i opsB sB) esB"
    and "length (rcSends (seenAll TA i opsA sA)) \<le> 32768"
    and "\<forall>now p. RcPacket now p \<in> set (seenAll TB i opsB sB) \<and> pkt_type p = Data \<longrightarrow>
      (\<exists>bs ep q. (bs, ep, q) \<in> set (datagrams (channelEffects TA i opsA sA)) \<and> decode bs = Inr p)"
proof -
  obtain ca a sta where ca: "ss_channels sA ! unat i = OrderedVar (newReliableChannel (reliableOptions ca) koA)"
    and fa: "ss_channels sA' ! unat i = OrderedVar a"
    and ra: "runPartial (rc_step (tr_ordered TA) DefaultCodec True) (seenAll TA i opsA sA)
      (newReliableChannel (reliableOptions ca) koA, newSocketStats) = Some ((a, sta), channelEffects TA i opsA sA)"
    and da: "\<And>d. d \<in> set (datagrams esA) \<Longrightarrow> dataOf DefaultCodec i (fst d) \<Longrightarrow> d \<in> set (datagrams (channelEffects TA i opsA sA))"
    using ordered_run [OF T(1) _ mode(1), of koA kuA epA opsA sA' esA] s(1) o(1) run(1) by metis
  obtain cb b stb where cb: "cb \<in> set (sc_channels cfgB)" "cfg_id cb = i"
    and fb: "ss_channels sB' ! unat i = OrderedVar b"
    and rb: "runPartial (rc_step (tr_ordered TB) DefaultCodec True) (seenAll TB i opsB sB)
      (newReliableChannel (reliableOptions cb) koB, newSocketStats) = Some ((b, stb), channelEffects TB i opsB sB)"
    and eb: "subseq (channelEffects TB i opsB sB) esB"
    using ordered_run [OF T(2) _ mode(2), of koB kuB epB opsB sB' esB] s(2) o(2) run(2) by metis
  have "length (rcSends (seenAll TA i opsA sA)) \<le> 32768"
    using list_emb_length [OF seenAll_sends [of TA i opsA sA]] small by simp
  moreover have "\<forall>now p. RcPacket now p \<in> set (seenAll TB i opsB sB) \<and> pkt_type p = Data \<longrightarrow>
      (\<exists>bs ep q. (bs, ep, q) \<in> set (datagrams (channelEffects TA i opsA sA)) \<and> decode bs = Inr p)"
  proof (intro allI impI, elim conjE)
    fix now p assume p: "RcPacket now p \<in> set (seenAll TB i opsB sB)" "pkt_type p = Data"
    from net p obtain bs ep q where d: "(bs, ep, q) \<in> set (datagrams esA)" "decode bs = Inr p" by blast
    then have "dataOf DefaultCodec i bs"
      using seenAll_channel [OF p(1)] p(2) by (simp add: dataOf_def DefaultCodec_def)
    then show "\<exists>bs ep q. (bs, ep, q) \<in> set (datagrams (channelEffects TA i opsA sA)) \<and> decode bs = Inr p"
      using da [OF d(1)] d(2) by auto
  qed
  ultimately show ?thesis using that ca fa ra cb fb rb eb by blast
qed

text \<open>What the receiving channel has passed on, counted by the number it expects next.\<close>

lemma linked_delivery:
  assumes "tr_codec TA = DefaultCodec" and "tr_codec TB = DefaultCodec"
    and "sA = newSession koA kuA epA cfgA" and "sB = newSession koB kuB epB cfgB"
    and "opened i sA" and "opened i sB"
    and "\<forall>cc\<in>set (sc_channels cfgA). cfg_id cc = i \<longrightarrow> cfg_mode cc = ReliableOrdered"
    and "\<forall>cc\<in>set (sc_channels cfgB). cfg_id cc = i \<longrightarrow> cfg_mode cc = ReliableOrdered
      \<and> windowCapacity (cfg_sendWindow cc) dvd 65536 \<and> windowCapacity (cfg_sendWindow cc) < 32768"
    and "runPartial (ss_step TA) opsA sA = Some (sA', esA)" and "runPartial (ss_step TB) opsB sB = Some (sB', esB)"
    and "length (sendsOn i opsA) \<le> 32768"
    and "\<forall>now p. RcPacket now p \<in> set (seenAll TB i opsB sB) \<and> pkt_type p = Data \<longrightarrow>
      (\<exists>bs ep q. (bs, ep, q) \<in> set (datagrams esA) \<and> decode bs = Inr p)"
  shows "\<exists>c n ms. ss_channels sB' ! unat i = OrderedVar c
    \<and> subseq (channelEffects TB i opsB sB) esB \<and> handedOut (channelEffects TB i opsB sB) ms
    \<and> ms @ rq_queued (rc_recvQueue c) = take n (acceptedSends TA i opsA sA) \<and> n \<le> length (acceptedSends TA i opsA sA)
    \<and> rc_expectedRecvSeq c = of_nat n \<and> {0..<n} \<subseteq> set (sentNumbers TA i opsA sA)
    \<and> subseq (acceptedSends TA i opsA sA) (sendsOn i opsA)"
proof -
  have mode: "\<forall>cc\<in>set (sc_channels cfgB). cfg_id cc = i \<longrightarrow> cfg_mode cc = ReliableOrdered" using assms(8) by blast
  obtain ca a sta cb b stb where ca: "ss_channels sA ! unat i = OrderedVar (newReliableChannel (reliableOptions ca) koA)"
    and ra: "runPartial (rc_step (tr_ordered TA) DefaultCodec True) (seenAll TA i opsA sA)
      (newReliableChannel (reliableOptions ca) koA, newSocketStats) = Some ((a, sta), channelEffects TA i opsA sA)"
    and cb: "cb \<in> set (sc_channels cfgB)" "cfg_id cb = i" and fb: "ss_channels sB' ! unat i = OrderedVar b"
    and rb: "runPartial (rc_step (tr_ordered TB) DefaultCodec True) (seenAll TB i opsB sB)
      (newReliableChannel (reliableOptions cb) koB, newSocketStats) = Some ((b, stb), channelEffects TB i opsB sB)"
    and eb: "subseq (channelEffects TB i opsB sB) esB" and small: "length (rcSends (seenAll TA i opsA sA)) \<le> 32768"
    and net: "\<forall>now p. RcPacket now p \<in> set (seenAll TB i opsB sB) \<and> pkt_type p = Data \<longrightarrow>
      (\<exists>bs ep q. (bs, ep, q) \<in> set (datagrams (channelEffects TA i opsA sA)) \<and> decode bs = Inr p)"
    by (rule linked_runs [OF assms(1-7) mode assms(9-12)])
  let ?log = "sentLog (tr_ordered TA) DefaultCodec True (seenAll TA i opsA sA) 0
    (newReliableChannel (reliableOptions ca) koA, newSocketStats)"
  have acc: "acceptedSends TA i opsA sA = map (\<lambda>(i, m, bs). m) ?log"
    and num: "sentNumbers TA i opsA sA = map fst ?log"
    using ca assms(1) by (simp_all add: acceptedSends_def sentNumbers_def)
  have w: "windowCapacity (opt_sendWindow (reliableOptions cb)) dvd 65536" "windowCapacity (opt_sendWindow (reliableOptions cb)) < 32768"
    using assms(8) cb by (simp_all add: reliableOptions_def)
  from link_in_order [OF w small ra refl net rb] obtain n ms where
    "handedOut (channelEffects TB i opsB sB) ms" "ms @ rq_queued (rc_recvQueue b) = take n (acceptedSends TA i opsA sA)"
    "n \<le> length (acceptedSends TA i opsA sA)" "rc_expectedRecvSeq b = of_nat n" "{0..<n} \<subseteq> set (sentNumbers TA i opsA sA)"
    unfolding acc num by (auto simp: take_map)
  moreover have "subseq (acceptedSends TA i opsA sA) (sendsOn i opsA)"
  proof -
    have "rc_nextSeq (fst (newReliableChannel (reliableOptions ca) koA, newSocketStats)) = of_nat 0"
      by (simp add: newReliableChannel_def Let_def)
    from default_codec.log_bounds [OF this] show ?thesis
      unfolding acc using seenAll_sends by (blast intro: subseq_order.trans)
  qed
  ultimately show ?thesis using fb eb by blast
qed

text \<open>
  C1: what an application receives on a reliable ordered channel is what the peer's application sent
  there. Let two sessions, over the default codec, run from their construction through any calls and
  completions, with the channel configured as reliable ordered on both sides, its window on the receiving
  side dividing the number space, and at most 32768 sends on it. Let every data packet that the receiving
  channel sees be decoded from some datagram that the sending session emitted; so the network may lose,
  repeat, delay and reorder, and anybody may send anything else. Then the messages handed to the
  receivers of the channel, followed by those queued for it, are the first messages that the sending
  channel accepted: in order, none missing, none repeated, none altered except for a receive buffer that is
  too short; and what was accepted is, in order, among what the sending application asked to send.
\<close>

theorem sessions_end_to_end:
  assumes "tr_codec TA = DefaultCodec" and "tr_codec TB = DefaultCodec"
    and "sA = newSession koA kuA epA cfgA" and "sB = newSession koB kuB epB cfgB"
    and "opened i sA" and "opened i sB"
    and "\<forall>cc\<in>set (sc_channels cfgA). cfg_id cc = i \<longrightarrow> cfg_mode cc = ReliableOrdered"
    and "\<forall>cc\<in>set (sc_channels cfgB). cfg_id cc = i \<longrightarrow> cfg_mode cc = ReliableOrdered
      \<and> windowCapacity (cfg_sendWindow cc) dvd 65536 \<and> windowCapacity (cfg_sendWindow cc) < 32768"
    and "runPartial (ss_step TA) opsA sA = Some (sA', esA)" and "runPartial (ss_step TB) opsB sB = Some (sB', esB)"
    and "length (sendsOn i opsA) \<le> 32768"
    and "\<forall>now p. RcPacket now p \<in> set (seenAll TB i opsB sB) \<and> pkt_type p = Data \<longrightarrow>
      (\<exists>bs ep q. (bs, ep, q) \<in> set (datagrams esA) \<and> decode bs = Inr p)"
  shows "\<exists>c n ms. ss_channels sB' ! unat i = OrderedVar c
    \<and> subseq (channelEffects TB i opsB sB) esB \<and> handedOut (channelEffects TB i opsB sB) ms
    \<and> ms @ rq_queued (rc_recvQueue c) = take n (acceptedSends TA i opsA sA)
    \<and> subseq (acceptedSends TA i opsA sA) (sendsOn i opsA)"
  using linked_delivery [OF assms] by blast

text \<open>
  A session that sends two messages on channel 0 and one on channel 1 between them; a peer that gets the
  second datagram of channel 0 first, then that of channel 1, then the first one twice.
\<close>

definition senderOps :: "nat ss_op list" where
  "senderOps = [SsStart 1000 9, SsSend 2000 0 [1, 2] 5, SsSend 2500 1 [3] 6, SsSend 3000 0 [4] 7]"

definition senderEffects :: "nat effect list" where
  "senderEffects = (case runPartial (ss_step plainTraits) senderOps plainSession of None \<Rightarrow> [] | Some (s, es) \<Rightarrow> es)"

definition receiverOps :: "nat ss_op list" where
  "receiverOps = [SsStart 1000 8, SsRecv 0 8 3]
     @ map (\<lambda>j. SsRecvDone (5000 + int j) NoError 8 (fst (datagrams senderEffects ! j))) [2, 1, 0, 0]"

lemma receiver_network:
  "\<forall>now p. RcPacket now p \<in> set (seenAll plainTraits 0 receiverOps plainSession) \<and> pkt_type p = Data \<longrightarrow>
    (\<exists>bs ep q. (bs, ep, q) \<in> set (datagrams senderEffects) \<and> decode bs = Inr p)"
proof -
  have "list_all (\<lambda>op. case op of RcPacket now p \<Rightarrow> list_ex (\<lambda>d. decode (fst d) = Inr p) (datagrams senderEffects) | _ \<Rightarrow> True)
      (seenAll plainTraits 0 receiverOps plainSession)" by code_simp
  then show ?thesis by (fastforce simp: list_all_iff list_ex_iff)
qed

theorem sessions_end_to_end_witness:
  "\<exists>sB' esB c n ms. runPartial (ss_step plainTraits) receiverOps plainSession = Some (sB', esB)
    \<and> ss_channels sB' ! 0 = OrderedVar c \<and> received (channelEffects plainTraits 0 receiverOps plainSession) = [[1, 2]]
    \<and> handedOut (channelEffects plainTraits 0 receiverOps plainSession) ms
    \<and> ms @ rq_queued (rc_recvQueue c) = take n (acceptedSends plainTraits 0 senderOps plainSession)
    \<and> subseq (acceptedSends plainTraits 0 senderOps plainSession) [[1, 2], [4]]"
proof -
  have T: "tr_codec plainTraits = DefaultCodec" by (simp add: plainTraits_def)
  have o: "opened 0 plainSession" by code_simp
  have w: "windowCapacity 4 = 4" by code_simp
  have cfg: "\<forall>cc\<in>set (sc_channels plainConfig). cfg_id cc = 0 \<longrightarrow> cfg_mode cc = ReliableOrdered
      \<and> windowCapacity (cfg_sendWindow cc) dvd 65536 \<and> windowCapacity (cfg_sendWindow cc) < 32768"
    using w by (simp add: plainConfig_def reliableOrdered_def unreliableSequenced_def)
  then have cfgA: "\<forall>cc\<in>set (sc_channels plainConfig). cfg_id cc = 0 \<longrightarrow> cfg_mode cc = ReliableOrdered" by blast
  have "runPartial (ss_step plainTraits) senderOps plainSession \<noteq> None" by code_simp
  then obtain sA' where rA: "runPartial (ss_step plainTraits) senderOps plainSession = Some (sA', senderEffects)"
    by (auto simp: senderEffects_def)
  have "runPartial (ss_step plainTraits) receiverOps plainSession \<noteq> None" by code_simp
  then obtain sB' esB where rB: "runPartial (ss_step plainTraits) receiverOps plainSession = Some (sB', esB)" by auto
  have on: "sendsOn 0 senderOps = [[1, 2], [4]]" by (simp add: senderOps_def)
  then have small: "length (sendsOn 0 senderOps) \<le> 32768" by simp
  have rc: "received (channelEffects plainTraits 0 receiverOps plainSession) = [[1, 2]]" by code_simp
  from sessions_end_to_end [OF T T plainSession_def plainSession_def o o cfgA cfg rA rB small receiver_network]
  show ?thesis using rB rc on by fastforce
qed

end
