(* ===== verification/Rude_SessionRecovery.thy ===== *)
theory Rude_SessionRecovery
  imports Rude_SessionLink
begin

text \<open>
  Recovery between two sessions: a lost packet of a reliable ordered channel reaches the peer's
  application and is released by its sender as soon as one retransmission and one acknowledgement get
  through.
\<close>

section \<open>What a channel holds\<close>

text \<open>The numbers and datagrams that a channel holds for retransmission.\<close>

definition heldPairs :: "'cc ReliableChannel \<Rightarrow> (u16 \<times> bytes) set" where
  "heldPairs c = {(sp_sequenceNumber p, sp_encodedPacket p) | p. Some p \<in> set (rc_sentPackets c)}"

lemma heldPairs_subset:
  assumes "\<And>p. Some p \<in> set (rc_sentPackets c') \<Longrightarrow> \<exists>q. Some q \<in> set (rc_sentPackets c)
      \<and> sp_sequenceNumber q = sp_sequenceNumber p \<and> sp_encodedPacket q = sp_encodedPacket p"
  shows "heldPairs c' \<subseteq> heldPairs c"
proof
  fix x assume "x \<in> heldPairs c'"
  then obtain p where p: "x = (sp_sequenceNumber p, sp_encodedPacket p)" "Some p \<in> set (rc_sentPackets c')"
    by (auto simp: heldPairs_def)
  from assms [OF p(2)] obtain q where "Some q \<in> set (rc_sentPackets c)" "x = (sp_sequenceNumber q, sp_encodedPacket q)"
    using p(1) by auto
  then show "x \<in> heldPairs c" unfolding heldPairs_def by blast
qed

lemma send_pairs:
  assumes "rc_asyncSend cc codec now m ep h c st = (c', st', es)"
  shows "heldPairs c' \<subseteq> heldPairs c \<union> {(s, bs). \<exists>ep i h. (bs, ep, SendReliable i s h) \<in> set (datagrams es)}"
proof -
  obtain w k where w: "effectiveSendWindow cc now c = (w, c\<lparr>rc_cc := k\<rparr>)"
    using effectiveSendWindow_channel by (metis surj_pair)
  show ?thesis
    using assms unfolding rc_asyncSend_def w
    by (auto simp: Let_def storeSentPacket_def heldPairs_def split: if_splits
        dest!: set_update_subset_insert [THEN subsetD])
qed

lemma receive_pairs:
  assumes "rc_onRecv cc ordered now pkt c st = Some (c', st', es)"
  shows "heldPairs c' \<subseteq> heldPairs c"
proof (cases "pkt_type pkt = Ack")
  case True
  then have "rc_sentPackets c' = map (ackSlot (pkt_ack pkt) (pkt_ackBits pkt)) (rc_sentPackets c)"
    using assms processAck_channel [of cc now "pkt_ack pkt" "pkt_ackBits pkt" c st] by (auto simp: rc_onRecv_def split: prod.splits)
  then show ?thesis by (intro heldPairs_subset) (fastforce dest: ackSlot_Some [OF sym])
next
  case False
  have "rc_sentPackets c' = rc_sentPackets c"
    using assms False by (auto simp: rc_onRecv_def receiveOrdered_def receiveUnordered_def bind_eq_Some_conv Let_def
        case_prod_beta split: if_splits dest!: drain_quiet)
  then show ?thesis by (simp add: heldPairs_def)
qed

lemma step_pairs:
  assumes "rc_step cc codec ordered op (c, st) = Some ((c', st'), es)"
  shows "heldPairs c' \<subseteq> heldPairs c \<union> {(s, bs). \<exists>ep i h. (bs, ep, SendReliable i s h) \<in> set (datagrams es)}"
proof (cases op)
  case (RcSend now m ep h)
  then have "rc_asyncSend cc codec now m ep h c st = (c', st', es)" using assms by (auto split: prod.splits)
  then show ?thesis by (rule send_pairs)
next
  case (RcPacket now p)
  then show ?thesis using assms receive_pairs by fastforce
next
  case (RcTick now ep)
  then obtain k where "c' = c\<lparr>rc_sentPackets := map (tickSlot now (rc_retxTimeout c)) (rc_sentPackets c), rc_cc := k\<rparr>"
    using assms rc_onTick_channel by (fastforce split: prod.splits)
  then have "heldPairs c' \<subseteq> heldPairs c"
    by (intro heldPairs_subset) (auto simp: tickSlot_def split: option.splits if_splits)
  then show ?thesis by blast
next
  case (RcSent s h ec)
  have "heldPairs c' \<subseteq> heldPairs c"
    using RcSent assms by (intro heldPairs_subset)
      (auto simp: rc_onSent_def eraseSentPacket_def Let_def split: prod.splits if_splits option.splits
        dest!: set_update_subset_insert [THEN subsetD])
  then show ?thesis by blast
next
  case (RcRecv n h)
  then have "heldPairs c' = heldPairs c" using assms by (auto simp: rc_asyncRecv_def heldPairs_def Let_def split: prod.splits)
  then show ?thesis by blast
next
  case (RcClose ec)
  then have "heldPairs c' = heldPairs c" using assms by (auto simp: rc_close_def heldPairs_def Let_def split: prod.splits)
  then show ?thesis by blast
qed (use assms in auto)

text \<open>Every datagram that a channel holds decodes to data with its own number, on the channel.\<close>

definition heldOk :: "PacketCodec \<Rightarrow> 'cc ReliableChannel \<Rightarrow> bool" where
  "heldOk codec c \<longleftrightarrow> (\<forall>(s, bs)\<in>heldPairs c. \<exists>p. cdc_decode codec bs = Inr p \<and> pkt_type p = Data \<and> pkt_seq p = s
     \<and> pkt_channel p = rc_id c)"

lemma heldOk_packet:
  assumes "heldOk codec c" and "Some p \<in> set (rc_sentPackets c)"
  obtains pkt where "cdc_decode codec (sp_encodedPacket p) = Inr pkt" and "pkt_type pkt = Data"
    and "pkt_seq pkt = sp_sequenceNumber p" and "pkt_channel pkt = rc_id c"
proof -
  have "(sp_sequenceNumber p, sp_encodedPacket p) \<in> heldPairs c" using assms(2) by (auto simp: heldPairs_def)
  then show ?thesis using assms(1) that by (auto simp: heldOk_def)
qed

context packet_codec
begin

lemma step_heldOk:
  assumes s: "rc_step cc codec ordered op (c, st) = Some ((c', st'), es)" and h: "heldOk codec c"
  shows "heldOk codec c'"
  unfolding heldOk_def
proof (intro ballI, clarify)
  fix n bs assume "(n, bs) \<in> heldPairs c'"
  then consider "(n, bs) \<in> heldPairs c" | ep i h where "(bs, ep, SendReliable i n h) \<in> set (datagrams es)"
    using step_pairs [OF s] by blast
  then show "\<exists>p. cdc_decode codec bs = Inr p \<and> pkt_type p = Data \<and> pkt_seq p = n \<and> pkt_channel p = rc_id c'"
    using h step_held(3) [OF s] step_first [OF s] by cases (fastforce simp: heldOk_def)+
qed

lemma run_heldOk:
  "runPartial (rc_step cc codec ordered) ops (c, st) = Some ((c', st'), es) \<Longrightarrow> heldOk codec c \<Longrightarrow> heldOk codec c'"
proof (induction ops arbitrary: c st es)
  case (Cons op ops)
  from Cons.prems(1) obtain r es1 es2 where step: "rc_step cc codec ordered op (c, st) = Some (r, es1)"
    and run: "runPartial (rc_step cc codec ordered) ops r = Some ((c', st'), es2)"
    by (rule runPartial_Cons_SomeE)
  obtain c1 st1 where r: "r = (c1, st1)" by fastforce
  show ?case using Cons.IH [OF run [unfolded r]] step_heldOk [OF step [unfolded r] Cons.prems(2)] by simp
qed simp

end

lemma heldOk_new: "heldOk codec (newReliableChannel cfg k)"
  by (auto simp: heldOk_def heldPairs_def newReliableChannel_def Let_def)

section \<open>Single steps of a session\<close>

context packet_codec
begin

lemma run_numbered:
  assumes T: "tr_codec T = codec"
  shows "numbered codec s \<Longrightarrow> runPartial (ss_step T) ops s = Some (s', es) \<Longrightarrow>
    numbered codec s' \<and> (\<forall>i. opened i s \<longrightarrow> opened i s')"
proof (induction ops arbitrary: s es)
  case (Cons op ops)
  from Cons.prems(2) obtain s1 es1 es2 where step: "ss_step T op s = Some (s1, es1)"
    and run: "runPartial (ss_step T) ops s1 = Some (s', es2)"
    by (rule runPartial_Cons_SomeE)
  obtain F where F: "splits T s (\<lambda>i. seen T i op s) s1 es1 F" and n: "numbered codec s1"
    by (rule step_refines [OF T Cons.prems(1) step])
  have "opened i s1" if "opened i s" for i using F that by (simp add: splits_def opened_def)
  then show ?case using Cons.IH [OF n run] by blast
qed simp

lemma encodePacket_back:
  "ss_encodePacket codec p \<noteq> [] \<and> (\<exists>c. cdc_decode codec (ss_encodePacket codec p) = Inr (p\<lparr>pkt_crc := c\<rparr>))"
proof -
  let ?out = "replicate (length (pkt_payload p) + cdc_maxOverhead codec) (0 :: u8)"
  obtain n out where e: "cdc_encode codec p ?out = (n, out)" by fastforce
  have l: "length (pkt_payload p) + cdc_maxOverhead codec \<le> length ?out" by simp
  have "ss_encodePacket codec p = take n out" "0 < n" "length out = length ?out" "n \<le> length ?out"
    using encode_fits [OF l e] by (simp_all add: ss_encodePacket_def e resizeBytes_def)
  then show ?thesis using decode_encode [OF l e] by auto
qed

text \<open>A tick of the session, seen from one of its ordered channels.\<close>

lemma session_tick:
  assumes T: "tr_codec T = codec" and z: "sized s" and o: "opened i s" "\<not> ss_closed s"
    and c: "ss_channels s ! unat i = OrderedVar a" and r: "onRetransmit T now NoError s = (s', es)"
  obtains a' st fs where "rc_onTick (tr_ordered T) now (ss_remote s) a newSocketStats = (a', st, fs)"
    and "ss_channels s' ! unat i = OrderedVar a'" and "set fs \<subseteq> set es" and "opened i s'" and "sized s'"
    and "\<not> ss_closed s'" and "ss_remote s' = ss_remote s"
proof -
  have step: "ss_step T (SsRetransmit now NoError) s = Some (s', es)" by (simp add: r)
  obtain F where F: "splits T s (\<lambda>i. seen T i (SsRetransmit now NoError) s) s' es F"
    using step_splits [OF T z step] by blast
  obtain st where run: "runPartial (ch_step T) (seen T i (SsRetransmit now NoError) s) (ss_channels s ! unat i, newSocketStats)
      = Some ((ss_channels s' ! unat i, st), F i)" and sub: "subseq (F i) es" and o': "opened i s'"
    by (rule splitsD [OF F o(1)])
  have "\<exists>a'. ss_channels s' ! unat i = OrderedVar a' \<and> rc_onTick (tr_ordered T) now (ss_remote s) a newSocketStats = (a', st, F i)"
    using ch_run_ordered [OF run [unfolded c]] o(2) by (auto split: prod.splits)
  moreover have "ss_closed s' = ss_closed s" "ss_remote s' = ss_remote s"
    using r by (auto simp: onRetransmit_def split: prod.splits if_splits)
  moreover have "set (F i) \<subseteq> set es" using list_emb_set [OF sub] by auto
  ultimately show ?thesis using that o o' F by (auto simp: splits_def)
qed

text \<open>A packet from the peer for an ordered channel that accepts it.\<close>

lemma session_packet:
  assumes T: "tr_codec T = codec" and o: "opened i s" "\<not> ss_closed s" and z: "sized s"
    and c: "ss_channels s ! unat i = OrderedVar b" and d: "cdc_decode codec bs = Inr pkt" "pkt_channel pkt = i"
    and r: "rc_onRecv (tr_ordered T) True now pkt b (ss_stats s) = Some (b', st, fs)"
    and t: "pkt_type pkt = Data \<and> rc_buildAck b' = Some ack \<and> out = sendPacket T ack s \<or> pkt_type pkt = Ack \<and> out = []"
  shows "\<exists>s'. onSocketRecv T now NoError (ss_remote s) bs s = Some (s', fs @ out @ [RecvFrom])
    \<and> ss_channels s' ! unat i = OrderedVar b' \<and> \<not> ss_closed s' \<and> ss_remote s' = ss_remote s"
proof -
  have ch: "pkt_type pkt \<notin> {Disconnect, Keepalive, HandshakeInit, HandshakeAck}"
    using t packet_types_distinct by auto
  have len: "unat i < length (ss_channels s)" using o(1) z by (simp add: opened_def sized_def)
  let ?s = "s\<lparr>ss_lastRecv := now, ss_channels := (ss_channels s)[unat i := OrderedVar b'], ss_stats := st\<rparr>"
  have "sendPacket T ack ?s = sendPacket T ack s" by (simp add: sendPacket_def Let_def)
  moreover have "\<not> unusable i (s\<lparr>ss_lastRecv := now\<rparr>)" using o by (simp add: unusable_opened opened_def)
  ultimately have "handlePacket T now bs s = Some (?s, fs @ out)"
    using t ch d c r T by (auto simp: handlePacket_def Let_def)
  then show ?thesis using o len by (simp add: onSocketRecv_def)
qed

end

section \<open>Recovery\<close>

lemma buildAck_fields: "rc_buildAck b = Some ack \<Longrightarrow> pkt_type ack = Ack \<and> pkt_channel ack = rc_id b"
  by (auto simp: rc_buildAck_def split: if_splits)

text \<open>The packet a channel waits for: the session delivers it and answers.\<close>

lemma session_answers:
  assumes T: "tr_codec T = DefaultCodec" and o: "opened i s" "\<not> ss_closed s" "sized s"
    and c: "ss_channels s ! unat i = OrderedVar b" "rc_id b = i" and r: "ordered_rel W msg b n H" "W \<le> 32"
    and d: "decode bs = Inr pkt" "pkt_channel pkt = i" "pkt_type pkt = Data" "pkt_seq pkt = rc_expectedRecvSeq b"
  obtains s' fs ack b' rest
  where "onSocketRecv T now NoError (ss_remote s) bs s
      = Some (s', fs @ [SendTo (ss_encodePacket DefaultCodec ack) (ss_remote s) SendDiscard, RecvFrom])"
    and "ss_channels s' ! unat i = OrderedVar b'" and "\<not> ss_closed s'" and "ss_remote s' = ss_remote s"
    and "\<exists>m. n < m \<and> m \<le> n + W \<and> rc_expectedRecvSeq b' = of_nat m"
    and "passes fs (rc_recvQueue b) (pkt_payload pkt # rest) (rc_recvQueue b')"
    and "pkt_type ack = Ack" and "pkt_channel ack = i" and "isAcknowledged (pkt_seq pkt) (pkt_ack ack) (pkt_ackBits ack)"
proof -
  have n: "pkt_seq pkt = of_nat n" using d(4) r(1) by (simp add: ordered_rel_def rc_rel_def)
  from receive_expected [OF r d(3) n] obtain b' st rest ack and fs :: "'c effect list" where
    b': "rc_onRecv (tr_ordered T) True now pkt b (ss_stats s) = Some (b', st, fs)"
      "passes fs (rc_recvQueue b) (pkt_payload pkt # rest) (rc_recvQueue b')"
      "rc_buildAck b' = Some ack" "pkt_type ack = Ack" "isAcknowledged (pkt_seq pkt) (pkt_ack ack) (pkt_ackBits ack)"
      "\<exists>m. n < m \<and> m \<le> n + W \<and> rc_expectedRecvSeq b' = of_nat m" by metis
  have ack: "pkt_channel ack = i" using buildAck_fields [OF b'(3)] receive_quiet [OF b'(1)] c(2) by simp
  have out: "sendPacket T ack s = [SendTo (ss_encodePacket DefaultCodec ack) (ss_remote s) SendDiscard]"
    using default_codec.encodePacket_back [of ack] T by (simp add: sendPacket_def Let_def)
  have dc: "cdc_decode DefaultCodec bs = Inr pkt" using d(1) by (simp add: DefaultCodec_def)
  obtain s' where "onSocketRecv T now NoError (ss_remote s) bs s = Some (s', fs @ sendPacket T ack s @ [RecvFrom])"
    "ss_channels s' ! unat i = OrderedVar b'" "\<not> ss_closed s'" "ss_remote s' = ss_remote s"
    using default_codec.session_packet [OF T o c(1) dc d(2) b'(1), of ack "sendPacket T ack s"] b'(3) d(3) by blast
  then show ?thesis using that b'(2,4,5,6) ack out by simp
qed

text \<open>An acknowledgement of the peer: the session takes it to the packets that its channel holds.\<close>

lemma session_acked:
  assumes T: "tr_codec T = DefaultCodec" and o: "opened i s" "\<not> ss_closed s" "sized s"
    and c: "ss_channels s ! unat i = OrderedVar a" and k: "pkt_type ack = Ack" "pkt_channel ack = i"
  obtains s' a' where "onSocketRecv T now NoError (ss_remote s) (ss_encodePacket DefaultCodec ack) s = Some (s', [RecvFrom])"
    and "ss_channels s' ! unat i = OrderedVar a'" and "\<not> ss_closed s'" and "ss_remote s' = ss_remote s"
    and "rc_sentPackets a' = map (ackSlot (pkt_ack ack) (pkt_ackBits ack)) (rc_sentPackets a)"
proof -
  from default_codec.encodePacket_back [of ack] obtain crc where
    d: "cdc_decode DefaultCodec (ss_encodePacket DefaultCodec ack) = Inr (ack\<lparr>pkt_crc := crc\<rparr>)" by blast
  obtain a' st where p: "processAck (tr_ordered T) now (pkt_ack ack) (pkt_ackBits ack) a (ss_stats s) = (a', st)" by fastforce
  have r: "rc_onRecv (tr_ordered T) True now (ack\<lparr>pkt_crc := crc\<rparr>) a (ss_stats s) = Some (a', st, [] :: 'c effect list)"
    using p k(1) by (simp add: rc_onRecv_def)
  have "pkt_channel (ack\<lparr>pkt_crc := crc\<rparr>) = i" using k(2) by simp
  from default_codec.session_packet [OF T o c d this r, of _ "[]"] k(1) that processAck_channel [OF p]
  show ?thesis by auto
qed

text \<open>What is known of an ordered channel and its session after any run from construction.\<close>

lemma ordered_reached:
  assumes T: "tr_codec T = DefaultCodec" and o: "opened i (newSession ko ku ep cfg)"
    and mode: "\<forall>cc\<in>set (sc_channels cfg). cfg_id cc = i \<longrightarrow> cfg_mode cc = ReliableOrdered"
    and run: "runPartial (ss_step T) ops (newSession ko ku ep cfg) = Some (s', es)"
    and c: "ss_channels s' ! unat i = OrderedVar c"
  shows "sized s' \<and> opened i s' \<and> rc_id c = i \<and> heldOk DefaultCodec c"
proof -
  have "numbered DefaultCodec s' \<and> opened i s'"
    using default_codec.run_numbered [OF T newSession_numbered run] o by blast
  moreover from this have "rc_id c = i" using c unfolding numbered_def by fastforce
  moreover have "heldOk DefaultCodec c"
    by (rule ordered_run [OF T o mode run]) (use c default_codec.run_heldOk heldOk_new in fastforce)
  ultimately show ?thesis by (simp add: numbered_def)
qed

text \<open>The receiving channel of two linked sessions mirrors an index and a window of at most 32.\<close>

lemma linked_window:
  assumes T: "tr_codec TA = DefaultCodec" "tr_codec TB = DefaultCodec"
    and s: "sA = newSession koA kuA epA cfgA" "sB = newSession koB kuB epB cfgB" and o: "opened i sA" "opened i sB"
    and modeA: "\<forall>cc\<in>set (sc_channels cfgA). cfg_id cc = i \<longrightarrow> cfg_mode cc = ReliableOrdered"
    and modeB: "\<forall>cc\<in>set (sc_channels cfgB). cfg_id cc = i \<longrightarrow> cfg_mode cc = ReliableOrdered
      \<and> windowCapacity (cfg_sendWindow cc) dvd 65536 \<and> windowCapacity (cfg_sendWindow cc) \<le> 32"
    and run: "runPartial (ss_step TA) opsA sA = Some (sA', esA)" "runPartial (ss_step TB) opsB sB = Some (sB', esB)"
    and few: "length (sendsOn i opsA) \<le> 32768"
    and net: "\<forall>now p. RcPacket now p \<in> set (seenAll TB i opsB sB) \<and> pkt_type p = Data \<longrightarrow>
      (\<exists>bs ep q. (bs, ep, q) \<in> set (datagrams esA) \<and> decode bs = Inr p)"
    and c: "ss_channels sB' ! unat i = OrderedVar b"
  obtains W msg n H where "ordered_rel W msg b n H" and "W \<le> 32"
proof -
  have mode: "\<forall>cc\<in>set (sc_channels cfgB). cfg_id cc = i \<longrightarrow> cfg_mode cc = ReliableOrdered" using modeB by blast
  obtain a0 sta cb b0 stb and ca :: ChannelConfig where
    ra: "runPartial (rc_step (tr_ordered TA) DefaultCodec True) (seenAll TA i opsA sA)
      (newReliableChannel (reliableOptions ca) koA, newSocketStats) = Some ((a0, sta), channelEffects TA i opsA sA)"
    and cb: "cb \<in> set (sc_channels cfgB)" "cfg_id cb = i" and fb: "ss_channels sB' ! unat i = OrderedVar b0"
    and rb: "runPartial (rc_step (tr_ordered TB) DefaultCodec True) (seenAll TB i opsB sB)
      (newReliableChannel (reliableOptions cb) koB, newSocketStats) = Some ((b0, stb), channelEffects TB i opsB sB)"
    and small: "length (rcSends (seenAll TA i opsA sA)) \<le> 32768"
    and net': "\<forall>now p. RcPacket now p \<in> set (seenAll TB i opsB sB) \<and> pkt_type p = Data \<longrightarrow>
      (\<exists>bs ep q. (bs, ep, q) \<in> set (datagrams (channelEffects TA i opsA sA)) \<and> decode bs = Inr p)"
    by (rule linked_runs [OF T s o modeA mode run few net])
  have w: "windowCapacity (opt_sendWindow (reliableOptions cb)) dvd 65536" "windowCapacity (opt_sendWindow (reliableOptions cb)) \<le> 32"
    using modeB cb by (simp_all add: reliableOptions_def)
  obtain pk where K: "arrived (map toPeer (seenAll TB i opsB sB)) \<subseteq> {..<length (rcSends (seenAll TA i opsA sA))}"
    and same: "runPartial (peer_step True pk (tr_ordered TB) DefaultCodec) (map toPeer (seenAll TB i opsB sB))
        (newReliableChannel (reliableOptions cb) koB, newSocketStats)
      = runPartial (rc_step (tr_ordered TB) DefaultCodec True) (seenAll TB i opsB sB)
        (newReliableChannel (reliableOptions cb) koB, newSocketStats)"
    by (rule link_run [OF small ra refl net'])
  have nr: "run_near (length (rcSends (seenAll TA i opsA sA))) pk (tr_ordered TB) DefaultCodec
      (map toPeer (seenAll TB i opsB sB)) 0 (newReliableChannel (reliableOptions cb) koB, newSocketStats)"
    using K w by (intro small_run_near [OF small ordered_rel_new]) auto
  have "b0 = b" using fb c by simp
  with peer_run_ordered [OF ordered_rel_new nr trans [OF same rb]] w obtain n H where
    "ordered_rel (windowCapacity (opt_sendWindow (reliableOptions cb))) (\<lambda>i. pkt_payload (pk i)) b n H" by auto
  then show ?thesis using that w(2) by blast
qed

text \<open>
  What one round achieves: the sender's timer expires at \<open>now\<close> and sends the held packet \<open>p\<close> to the peer; when
  it arrives at \<open>t2\<close>, its payload and what was held back behind it go to the receivers or their queue, the
  number that channel \<open>i\<close> waits for goes up, and an acknowledgement leaves; when that arrives at \<open>t3\<close>, the sender
  holds the packet no longer. Both sessions stay open.
\<close>

definition recovers :: "('o, 'u) Traits \<Rightarrow> ('p, 'v) Traits \<Rightarrow> u8 \<Rightarrow> ('o, 'u, 'ep) Session \<Rightarrow> ('p, 'v, 'ep) Session
    \<Rightarrow> 'p ReliableChannel \<Rightarrow> SentPacket \<Rightarrow> int \<Rightarrow> int \<Rightarrow> int \<Rightarrow> bool" where
  "recovers TA TB i sA sB b p now t2 t3 \<longleftrightarrow> (\<exists>sA1 es1 pkt sB1 fs ack b1 rest sA2 a2 d.
      onRetransmit TA now NoError sA = (sA1, es1) \<and> SendTo (sp_encodedPacket p) (ss_remote sA) SendDiscard \<in> set es1
    \<and> decode (sp_encodedPacket p) = Inr pkt
    \<and> onSocketRecv TB t2 NoError (ss_remote sB) (sp_encodedPacket p) sB
        = Some (sB1, fs @ [SendTo ack (ss_remote sB) SendDiscard, RecvFrom])
    \<and> ss_channels sB1 ! unat i = OrderedVar b1
    \<and> passes fs (rc_recvQueue b) (pkt_payload pkt # rest) (rc_recvQueue b1)
    \<and> 0 < d \<and> d \<le> 32 \<and> rc_expectedRecvSeq b1 = rc_expectedRecvSeq b + of_nat d
    \<and> onSocketRecv TA t3 NoError (ss_remote sA) ack sA1 = Some (sA2, [RecvFrom])
    \<and> ss_channels sA2 ! unat i = OrderedVar a2
    \<and> (\<forall>q. Some q \<in> set (rc_sentPackets a2) \<longrightarrow> sp_sequenceNumber q \<noteq> sp_sequenceNumber p)
    \<and> \<not> ss_closed sB1 \<and> \<not> ss_closed sA2)"

text \<open>
  One round: let the sender's channel hold the packet that the receiver's channel waits for, its deadline
  passed. The timer sends it again, the receiver passes it on and acknowledges it, the sender releases it.
\<close>

lemma recovery_round:
  assumes "tr_codec TA = DefaultCodec" and "tr_codec TB = DefaultCodec"
    and "sA0 = newSession koA kuA epA cfgA" and "sB0 = newSession koB kuB epB cfgB"
    and "opened i sA0" and "opened i sB0"
    and "\<forall>cc\<in>set (sc_channels cfgA). cfg_id cc = i \<longrightarrow> cfg_mode cc = ReliableOrdered"
    and "\<forall>cc\<in>set (sc_channels cfgB). cfg_id cc = i \<longrightarrow> cfg_mode cc = ReliableOrdered
      \<and> windowCapacity (cfg_sendWindow cc) dvd 65536 \<and> windowCapacity (cfg_sendWindow cc) \<le> 32"
    and "runPartial (ss_step TA) opsA sA0 = Some (sA, esA)" and "runPartial (ss_step TB) opsB sB0 = Some (sB, esB)"
    and "length (sendsOn i opsA) \<le> 32768"
    and "\<forall>now p. RcPacket now p \<in> set (seenAll TB i opsB sB0) \<and> pkt_type p = Data \<longrightarrow>
      (\<exists>bs ep q. (bs, ep, q) \<in> set (datagrams esA) \<and> decode bs = Inr p)"
    and "\<not> ss_closed sA" and "\<not> ss_closed sB"
    and "ss_channels sA ! unat i = OrderedVar a" and "ss_channels sB ! unat i = OrderedVar b"
    and "Some p \<in> set (rc_sentPackets a)" and "sp_nextRetx p \<le> now" and "sp_sequenceNumber p = rc_expectedRecvSeq b"
  shows "recovers TA TB i sA sB b p now t2 t3"
proof -
  have mode: "\<forall>cc\<in>set (sc_channels cfgB). cfg_id cc = i \<longrightarrow> cfg_mode cc = ReliableOrdered" using assms(8) by blast
  obtain W msg n H where r: "ordered_rel W msg b n H" "W \<le> 32"
    by (rule linked_window [OF assms(1-12,16)])
  have A: "sized sA" "opened i sA" "rc_id a = i" "heldOk DefaultCodec a"
    using ordered_reached [OF assms(1) assms(5) [unfolded assms(3)] assms(7) assms(9) [unfolded assms(3)] assms(15)] by simp_all
  have B: "sized sB" "opened i sB" "rc_id b = i"
    using ordered_reached [OF assms(2) assms(6) [unfolded assms(4)] mode assms(10) [unfolded assms(4)] assms(16)] by simp_all
  obtain pkt where pkt: "decode (sp_encodedPacket p) = Inr pkt" "pkt_type pkt = Data"
    "pkt_seq pkt = sp_sequenceNumber p" "pkt_channel pkt = i"
    using heldOk_packet [OF A(4) assms(17)] A(3) by (auto simp: DefaultCodec_def)
  have q: "pkt_seq pkt = rc_expectedRecvSeq b" using pkt assms(19) by simp
  obtain sB1 fs ack b1 rest where
    B1: "onSocketRecv TB t2 NoError (ss_remote sB) (sp_encodedPacket p) sB
        = Some (sB1, fs @ [SendTo (ss_encodePacket DefaultCodec ack) (ss_remote sB) SendDiscard, RecvFrom])"
      "ss_channels sB1 ! unat i = OrderedVar b1" "passes fs (rc_recvQueue b) (pkt_payload pkt # rest) (rc_recvQueue b1)"
      "\<not> ss_closed sB1" "ss_remote sB1 = ss_remote sB" and up: "\<exists>m. n < m \<and> m \<le> n + W \<and> rc_expectedRecvSeq b1 = of_nat m"
    and ack: "pkt_type ack = Ack" "pkt_channel ack = i" "isAcknowledged (pkt_seq pkt) (pkt_ack ack) (pkt_ackBits ack)"
    by (rule session_answers [OF assms(2) B(2) assms(14) B(1) assms(16) B(3) r pkt(1,4,2) q])
  obtain sA1 es1 where t: "onRetransmit TA now NoError sA = (sA1, es1)" by fastforce
  obtain a1 st1 fs1 where a1: "rc_onTick (tr_ordered TA) now (ss_remote sA) a newSocketStats = (a1, st1, fs1)"
    and A1: "ss_channels sA1 ! unat i = OrderedVar a1" "set fs1 \<subseteq> set es1" "opened i sA1" "sized sA1"
      "\<not> ss_closed sA1" "ss_remote sA1 = ss_remote sA"
    by (rule default_codec.session_tick [OF assms(1) A(1,2) assms(13,15) t])
  obtain sA2 a2 where
    A2: "onSocketRecv TA t3 NoError (ss_remote sA1) (ss_encodePacket DefaultCodec ack) sA1 = Some (sA2, [RecvFrom])"
      "ss_channels sA2 ! unat i = OrderedVar a2" "\<not> ss_closed sA2" "ss_remote sA2 = ss_remote sA1"
      "rc_sentPackets a2 = map (ackSlot (pkt_ack ack) (pkt_ackBits ack)) (rc_sentPackets a1)"
    by (rule session_acked [OF assms(1) A1(3,5,4,1) ack(1,2)])
  have "sp_sequenceNumber q \<noteq> sp_sequenceNumber p" if "Some q \<in> set (rc_sentPackets a2)" for q
    using tick_then_ack(2) [OF a1 assms(17,18), of "pkt_ack ack" "pkt_ackBits ack" "Some q"] that
    unfolding A2(5) using ack(3) pkt(3) by simp
  moreover have "SendTo (sp_encodedPacket p) (ss_remote sA) SendDiscard \<in> set es1"
    using A1(2) tick_then_ack(1) [OF a1 assms(17,18)] by blast
  moreover obtain d where "0 < d" "d \<le> 32" "rc_expectedRecvSeq b1 = rc_expectedRecvSeq b + of_nat d"
  proof -
    obtain m where m: "n < m" "m \<le> n + W" "rc_expectedRecvSeq b1 = of_nat m" using up by blast
    have "rc_expectedRecvSeq b = of_nat n" using r(1) by (simp add: ordered_rel_def rc_rel_def)
    then have "rc_expectedRecvSeq b1 = rc_expectedRecvSeq b + of_nat (m - n)" using m by (simp flip: of_nat_add)
    then show ?thesis using m(1,2) r(2) by (intro that [of "m - n"]) auto
  qed
  ultimately show ?thesis
    using t pkt(1) B1 A2(1-3) unfolding A1(6) recovers_def by blast
qed

end
