(* ===== verification/Rude_SessionProgress.thy ===== *)
theory Rude_SessionProgress
  imports Rude_SessionRecovery
begin

text \<open>
  Progress between two sessions. The acknowledgements that a session emits are those of its channels; a
  sender lets a packet go only when an acknowledgement covers it; and a receiver keeps what it
  acknowledged. So the packet that an ordered receiver waits for is always held by its sender, and one
  round of a retransmission and its acknowledgement after the other delivers everything that was
  accepted.
\<close>

section \<open>Acknowledgements come from channels\<close>

lemma buildAck_channel: "ch_buildAck c = Some a \<Longrightarrow> pkt_type a = Ack \<and> pkt_channel a = ch_id c"
  by (cases c) (auto simp: rc_buildAck_def uc_buildAck_def split: if_splits)

context packet_codec
begin

lemma step_acks:
  assumes T: "tr_codec T = codec" and n: "numbered codec s" and step: "ss_step T op s = Some (s', es)"
    and d: "d \<in> set (datagrams es)" "cdc_decode codec (fst d) = Inr p" "pkt_type p = Ack"
  shows "acks s' p"
proof -
  obtain F where F: "splits T s (\<lambda>i. seen T i op s) s' es F" by (rule step_refines [OF T n step])
  have "\<not> d \<in> set (datagrams (F j))" if o: "opened j s" for j
  proof
    assume "d \<in> set (datagrams (F j))"
    moreover obtain st' where "runPartial (ch_step T) (seen T j op s) (ss_channels s ! unat j, newSocketStats)
        = Some ((ss_channels s' ! unat j, st'), F j)" by (rule splitsD [OF F o])
    ultimately have "dataOf codec (ch_id (ss_channels s ! unat j)) (fst d)"
      using ch_run_tagged [OF T] n o by (fastforce simp: numbered_def)
    then show False using d control_types by (auto simp: dataOf_def)
  qed
  then have "control codec s' (fst d)" using F d(1) T by (auto simp: splits_def)
  then show ?thesis using d by (auto simp: control_def)
qed

text \<open>An acknowledgement that leaves a session was built by its channel at some moment of the channel's run.\<close>

lemma run_acks:
  assumes T: "tr_codec T = codec"
  shows "numbered codec s \<Longrightarrow> opened i s \<Longrightarrow> runPartial (ss_step T) ops s = Some (s', es) \<Longrightarrow>
    d \<in> set (datagrams es) \<Longrightarrow> cdc_decode codec (fst d) = Inr p \<Longrightarrow> pkt_type p = Ack \<Longrightarrow> pkt_channel p = i \<Longrightarrow>
    \<exists>xs ys c st' fs a. seenAll T i ops s = xs @ ys
      \<and> runPartial (ch_step T) xs (ss_channels s ! unat i, st) = Some ((c, st'), fs)
      \<and> ch_buildAck c = Some a \<and> pkt_ack p = pkt_ack a \<and> pkt_ackBits p = pkt_ackBits a"
proof (induction ops arbitrary: s es st)
  case (Cons op ops)
  from Cons.prems(3) obtain s1 es1 es2 where step: "ss_step T op s = Some (s1, es1)"
    and run: "runPartial (ss_step T) ops s1 = Some (s', es2)" and es: "es = es1 @ es2"
    by (rule runPartial_Cons_SomeE)
  obtain F where F: "splits T s (\<lambda>i. seen T i op s) s1 es1 F" and n1: "numbered codec s1"
    by (rule step_refines [OF T Cons.prems(1) step])
  obtain st1 where r1: "runPartial (ch_step T) (seen T i op s) (ss_channels s ! unat i, st)
      = Some ((ss_channels s1 ! unat i, st1), F i)" and o1: "opened i s1"
    by (rule splitsD [OF F Cons.prems(2)])
  consider "d \<in> set (datagrams es1)" | "d \<in> set (datagrams es2)" using Cons.prems(4) by (auto simp: es)
  then show ?case
  proof cases
    case 1
    from step_acks [OF T Cons.prems(1) step 1 Cons.prems(5,6)] obtain j a where
      a: "opened j s1" "ch_buildAck (ss_channels s1 ! unat j) = Some a" "p = a\<lparr>pkt_crc := pkt_crc p\<rparr>"
      by (auto simp: acks_def)
    have f: "pkt_channel p = pkt_channel a" "pkt_ack p = pkt_ack a" "pkt_ackBits p = pkt_ackBits a"
      by (subst a(3), simp)+
    have "pkt_channel a = j" using buildAck_channel [OF a(2)] n1 a(1) by (simp add: numbered_def)
    then have "j = i" using f(1) Cons.prems(7) by simp
    then show ?thesis using r1 a(2) f(2,3) step by auto
  next
    case 2
    from Cons.IH [OF n1 o1 run 2 Cons.prems(5-7), of st1] obtain xs ys c st' fs a where
      x: "seenAll T i ops s1 = xs @ ys" "runPartial (ch_step T) xs (ss_channels s1 ! unat i, st1) = Some ((c, st'), fs)"
      and a: "ch_buildAck c = Some a" "pkt_ack p = pkt_ack a" "pkt_ackBits p = pkt_ackBits a" by blast
    have "seenAll T i (op # ops) s = (seen T i op s @ xs) @ ys" using step x(1) by simp
    then show ?thesis using runPartial_appendI [OF r1 x(2)] a by blast
  qed
qed simp

end

section \<open>What a sender lets go\<close>

text \<open>A call that may let the packet with number \<open>n\<close> go: an acknowledgement that covers it, or a failed send.\<close>

fun releases :: "u16 \<Rightarrow> 'ep rc_op \<Rightarrow> bool" where
  "releases n (RcPacket now p) \<longleftrightarrow> pkt_type p = Ack \<and> isAcknowledged n (pkt_ack p) (pkt_ackBits p)"
| "releases n (RcSent s h ec) \<longleftrightarrow> s = n \<and> failed ec"
| "releases n op \<longleftrightarrow> False"

definition holds :: "u16 \<Rightarrow> 'cc ReliableChannel \<Rightarrow> bool" where
  "holds n c \<longleftrightarrow> (\<exists>p. Some p \<in> set (rc_sentPackets c) \<and> sp_sequenceNumber p = n)"

lemma slot_kept:
  assumes "Some p \<in> set xs" and "slotAt xs s \<noteq> Some p"
  shows "Some p \<in> set (xs[slotIndex s (length xs) := y])"
proof -
  obtain i where i: "i < length xs" "xs ! i = Some p" using assms(1) by (auto simp: in_set_conv_nth)
  then have "slotIndex s (length xs) \<noteq> i" using assms(2) by (cases "xs = []") (auto simp: slotAt_def)
  then have "xs[slotIndex s (length xs) := y] ! i = Some p" using i(2) by simp
  then show ?thesis using i(1) by (metis length_list_update nth_mem)
qed

lemma send_holds:
  assumes "rc_asyncSend cc codec now m ep h c st = (c', st', es)" and "holds n c"
  shows "holds n c'"
proof -
  obtain w k where w: "effectiveSendWindow cc now c = (w, c\<lparr>rc_cc := k\<rparr>)"
    using effectiveSendWindow_channel by (metis surj_pair)
  have "rc_sentPackets c' = rc_sentPackets c \<or> (\<exists>y. slotAt (rc_sentPackets c) (rc_nextSeq c) = None
      \<and> rc_sentPackets c' = (rc_sentPackets c)[slotIndex (rc_nextSeq c) (length (rc_sentPackets c)) := y])"
    using assms(1) unfolding rc_asyncSend_def w by (auto simp: Let_def storeSentPacket_def split: if_splits)
  moreover obtain p where p: "Some p \<in> set (rc_sentPackets c)" "sp_sequenceNumber p = n"
    using assms(2) by (auto simp: holds_def)
  ultimately have "Some p \<in> set (rc_sentPackets c')"
    using slot_kept [OF p(1), of "rc_nextSeq c"] by auto
  then show ?thesis using p(2) by (auto simp: holds_def)
qed

lemma step_holds:
  assumes "rc_step cc codec ordered op (c, st) = Some ((c', st'), es)" and "holds n c" and "\<not> releases n op"
  shows "holds n c'"
proof (cases op)
  case (RcSend now m ep h)
  then show ?thesis using assms send_holds by (fastforce split: prod.splits)
next
  case (RcPacket now p)
  then have r: "rc_onRecv cc ordered now p c st = Some (c', st', es)" using assms(1) by auto
  show ?thesis
  proof (cases "pkt_type p = Ack")
    case True
    then have e: "rc_sentPackets c' = map (ackSlot (pkt_ack p) (pkt_ackBits p)) (rc_sentPackets c)"
      using r processAck_channel [of cc now "pkt_ack p" "pkt_ackBits p" c st] by (auto simp: rc_onRecv_def split: prod.splits)
    obtain q where q: "Some q \<in> set (rc_sentPackets c)" "sp_sequenceNumber q = n" using assms(2) by (auto simp: holds_def)
    moreover have "ackSlot (pkt_ack p) (pkt_ackBits p) (Some q) = Some q"
      using q(2) True assms(3) RcPacket by (simp add: ackSlot_def)
    ultimately show ?thesis unfolding holds_def e by (metis image_eqI set_map)
  next
    case False
    have "rc_sentPackets c' = rc_sentPackets c"
      using r False by (auto simp: rc_onRecv_def receiveOrdered_def receiveUnordered_def bind_eq_Some_conv Let_def
          case_prod_beta split: if_splits dest!: drain_quiet)
    then show ?thesis using assms(2) by (simp add: holds_def)
  qed
next
  case (RcTick now ep)
  then obtain k where "c' = c\<lparr>rc_sentPackets := map (tickSlot now (rc_retxTimeout c)) (rc_sentPackets c), rc_cc := k\<rparr>"
    using assms(1) rc_onTick_channel by (fastforce split: prod.splits)
  moreover have "\<exists>q. tickSlot now t (Some p) = Some q \<and> sp_sequenceNumber q = sp_sequenceNumber p" for t p
    by (simp add: tickSlot_def)
  ultimately show ?thesis using assms(2) by (auto simp: holds_def) (metis image_eqI)
next
  case (RcSent s h ec)
  show ?thesis
  proof (cases "failed ec")
    case True
    then have "s \<noteq> n" using RcSent assms(3) by simp
    then show ?thesis
      using True RcSent assms(1,2) slot_kept [of _ "rc_sentPackets c" s None]
      by (fastforce simp: holds_def rc_onSent_def eraseSentPacket_def Let_def split: prod.splits if_splits option.splits)
  qed (use RcSent assms in \<open>auto simp: rc_onSent_def\<close>)
qed (use assms in \<open>auto simp: holds_def rc_asyncRecv_def rc_close_def Let_def split: prod.splits\<close>)

lemma stored_holds:
  assumes "rc_inv c" and "rc_asyncSend cc codec now m ep h c st = (c', st', es)" and "datagrams es \<noteq> []"
  shows "holds (rc_nextSeq c) c'"
proof -
  obtain w k where w: "effectiveSendWindow cc now c = (w, c\<lparr>rc_cc := k\<rparr>)"
    using effectiveSendWindow_channel by (metis surj_pair)
  have "slotIndex (rc_nextSeq c) (length (rc_sentPackets c)) < length (rc_sentPackets c)"
    using rc_inv_window(1) [OF assms(1)] slotIndex_less by auto
  then show ?thesis
    using assms(2,3) unfolding rc_asyncSend_def w
    by (auto simp: Let_def storeSentPacket_def holds_def split: if_splits intro!: exI set_update_memI)
qed

text \<open>A run: every accepted send is held, unless some call released it.\<close>

lemma run_holds:
  "runPartial (rc_step cc codec ordered) ops (c, st) = Some ((c', st'), es) \<Longrightarrow> holds n c \<Longrightarrow>
    \<forall>op \<in> set ops. \<not> releases n op \<Longrightarrow> holds n c'"
proof (induction ops arbitrary: c st es)
  case (Cons op ops)
  from Cons.prems(1) obtain r es1 es2 where step: "rc_step cc codec ordered op (c, st) = Some (r, es1)"
    and run: "runPartial (rc_step cc codec ordered) ops r = Some ((c', st'), es2)"
    by (rule runPartial_Cons_SomeE)
  obtain c1 st1 where r: "r = (c1, st1)" by fastforce
  show ?case using Cons.IH [OF run [unfolded r]] step_holds [OF step [unfolded r] Cons.prems(2)] Cons.prems(3) by simp
qed simp

context packet_codec
begin

lemma logged_held:
  "rc_inv c \<Longrightarrow> rc_nextSeq c = of_nat k \<Longrightarrow> runPartial (rc_step cc codec ordered) ops (c, st) = Some ((c', st'), es) \<Longrightarrow>
    (j, m, bs) \<in> set (sentLog cc codec ordered ops k (c, st)) \<Longrightarrow> \<forall>op \<in> set ops. \<not> releases (of_nat j) op \<Longrightarrow>
    holds (of_nat j) c'"
proof (induction ops arbitrary: c st k es)
  case (Cons op ops)
  from Cons.prems(3) obtain r es1 es2 where step: "rc_step cc codec ordered op (c, st) = Some (r, es1)"
    and run: "runPartial (rc_step cc codec ordered) ops r = Some ((c', st'), es2)"
    by (rule runPartial_Cons_SomeE)
  obtain c1 st1 where r: "r = (c1, st1)" by fastforce
  have i1: "rc_inv c1" using rc_step_inv [of "(c, st)"] Cons.prems(1) step r by fastforce
  from step_log [OF step [unfolded r] Cons.prems(2)] obtain d where
    d: "rc_nextSeq c1 = of_nat (k + d)" "unat (rc_nextSeq c1 - rc_nextSeq c) = d" by blast
  consider "(j, m, bs) \<in> set (logEntry op k es1)" | "(j, m, bs) \<in> set (sentLog cc codec ordered ops (k + d) (c1, st1))"
    using Cons.prems(4) step r d(2) by auto
  then show ?case
  proof cases
    case 1
    then obtain now ep h where op: "op = RcSend now m ep h" and j: "j = k" and e: "datagrams es1 \<noteq> []"
      by (cases op; cases "datagrams es1") auto
    have "rc_asyncSend cc codec now m ep h c st = (c1, st1, es1)" using step r op by (auto split: prod.splits)
    from stored_holds [OF Cons.prems(1) this e] have "holds (of_nat j) c1" using Cons.prems(2) j by simp
    then show ?thesis using run_holds [OF run [unfolded r]] Cons.prems(5) by simp
  next
    case 2
    show ?thesis using Cons.IH [OF i1 d(1) run [unfolded r] 2] Cons.prems(5) by simp
  qed
qed simp

end

section \<open>What a receiver keeps\<close>

lemma runPartial_prefix:
  "runPartial f (xs @ ys) s = Some (s', es) \<Longrightarrow> \<exists>s1 es1 es2. runPartial f xs s = Some (s1, es1)
    \<and> runPartial f ys s1 = Some (s', es2) \<and> es = es1 @ es2"
proof (induction xs arbitrary: s es)
  case (Cons x xs)
  from Cons.prems obtain s1 es1 es2 where step: "f x s = Some (s1, es1)"
    and run: "runPartial f (xs @ ys) s1 = Some (s', es2)" and es: "es = es1 @ es2"
    unfolding append_Cons by (rule runPartial_Cons_SomeE)
  from Cons.IH [OF run] show ?case using step es by fastforce
qed simp

lemma small_step_keeps:
  assumes K: "K \<le> 32768" and o: "ordered_rel W (\<lambda>i. pkt_payload (pk i)) c n H" and b: "n \<le> K" "H \<subseteq> {..<K}"
    and a: "arrived [toPeer op] \<subseteq> {..<K}"
    and s: "peer_step True pk cc codec (toPeer op) (c, st) = Some ((c', st'), es)"
  shows "\<exists>n' H'. ordered_rel W (\<lambda>i. pkt_payload (pk i)) c' n' H' \<and> n' \<le> K \<and> H' \<subseteq> {..<K} \<and> {..<n} \<union> H \<subseteq> {..<n'} \<union> H'"
proof (cases "op_near W n (toPeer op)")
  case True
  from peer_step_ordered [OF o True s] obtain n' H' where
    o': "ordered_rel W (\<lambda>i. pkt_payload (pk i)) c' n' H'" "n \<le> n'"
    and sub: "{n..<n'} \<union> H' \<subseteq> H \<union> arrived [toPeer op]" and keep: "H \<subseteq> {n..<n'} \<union> H'" by auto
  have le: "{n..<n'} \<union> H' \<subseteq> {..<K}" using sub a b by blast
  have "n' \<le> K"
  proof (cases "n = n'")
    case False
    then have "n' - 1 \<in> {n..<n'}" using o'(2) by auto
    then show ?thesis using le by auto
  qed (use b in simp)
  then show ?thesis using o' keep le by (intro exI [of _ n'] exI [of _ H']) auto
next
  case False
  then obtain now p where op: "op = RcPacket now p" "pkt_type p = Data" by (cases op) (auto split: if_splits)
  let ?i = "unat (pkt_seq p)"
  have nr: "near n ?i" using a b K op by (auto simp: near_def)
  then have out: "?i < n \<or> n + W \<le> ?i" using False op by auto
  have rel: "rc_rel W (\<lambda>i. pkt_payload (pk i)) c n H" using o by (simp add: ordered_rel_def)
  have "c' = c"
    using s op accept_outside(2) [OF rel nr out] by (simp add: peer_step_def rc_onRecv_def receiveOrdered_def streamPacket_def)
  then show ?thesis using o b by blast
qed

lemma small_run_keeps:
  assumes K: "K \<le> 32768"
  shows "ordered_rel W (\<lambda>i. pkt_payload (pk i)) c n H \<Longrightarrow> n \<le> K \<Longrightarrow> H \<subseteq> {..<K} \<Longrightarrow> arrived (map toPeer ops) \<subseteq> {..<K} \<Longrightarrow>
    (\<And>op s. op \<in> set ops \<Longrightarrow> peer_step True pk cc codec (toPeer op) s = rc_step cc codec True op s) \<Longrightarrow>
    runPartial (rc_step cc codec True) ops (c, st) = Some ((c', st'), es) \<Longrightarrow>
    \<exists>n' H'. ordered_rel W (\<lambda>i. pkt_payload (pk i)) c' n' H' \<and> n' \<le> K \<and> H' \<subseteq> {..<K} \<and> {..<n} \<union> H \<subseteq> {..<n'} \<union> H'"
proof (induction ops arbitrary: c n H st es)
  case (Cons op ops)
  from Cons.prems(6) obtain r es1 es2 where step: "rc_step cc codec True op (c, st) = Some (r, es1)"
    and run: "runPartial (rc_step cc codec True) ops r = Some ((c', st'), es2)"
    by (rule runPartial_Cons_SomeE)
  obtain c1 st1 where r: "r = (c1, st1)" by fastforce
  have a: "arrived [toPeer op] \<subseteq> {..<K}" "arrived (map toPeer ops) \<subseteq> {..<K}"
    using Cons.prems(4) arrived_Cons [of "toPeer op" "map toPeer ops"] by auto
  have "peer_step True pk cc codec (toPeer op) (c, st) = Some ((c1, st1), es1)" using Cons.prems(5) step r by simp
  from small_step_keeps [OF K Cons.prems(1-3) a(1) this] obtain n1 H1 where
    1: "ordered_rel W (\<lambda>i. pkt_payload (pk i)) c1 n1 H1" "n1 \<le> K" "H1 \<subseteq> {..<K}" "{..<n} \<union> H \<subseteq> {..<n1} \<union> H1" by blast
  have "\<And>op s. op \<in> set ops \<Longrightarrow> peer_step True pk cc codec (toPeer op) s = rc_step cc codec True op s"
    using Cons.prems(5) by simp
  from Cons.IH [OF 1(1-3) a(2) this run [unfolded r]] 1(4) show ?case by blast
qed (use K in auto)

lemma arrived_append: "arrived (xs @ ys) = arrived xs \<union> arrived ys"
  by (induction xs rule: arrived.induct) auto

text \<open>What an acknowledgement covered, at any moment of the run, is no longer expected at its end.\<close>

lemma acked_not_expected:
  assumes K: "K \<le> 32768" and W: "windowCapacity (opt_sendWindow cfg) dvd 65536" "windowCapacity (opt_sendWindow cfg) < 32768"
    and arr: "arrived (map toPeer (xs @ ys)) \<subseteq> {..<K}"
    and same: "\<And>op s. op \<in> set (xs @ ys) \<Longrightarrow> peer_step True pk cc codec (toPeer op) s = rc_step cc codec True op s"
    and run: "runPartial (rc_step cc codec True) (xs @ ys) (newReliableChannel cfg k, st) = Some ((b, stb), es)"
    and pre: "runPartial (rc_step cc codec True) xs (newReliableChannel cfg k, st) = Some ((c, st1), es1)"
    and a: "rc_buildAck c = Some a" "isAcknowledged (of_nat j) (pkt_ack a) (pkt_ackBits a)" "j < K"
  shows "rc_expectedRecvSeq b \<noteq> of_nat j"
proof -
  let ?W = "windowCapacity (opt_sendWindow cfg)" and ?rel = "ordered_rel (windowCapacity (opt_sendWindow cfg)) (\<lambda>i. pkt_payload (pk i))"
  have u: "arrived (map toPeer (xs @ ys)) = arrived (map toPeer xs) \<union> arrived (map toPeer ys)"
    by (simp add: arrived_append)
  have "?rel (newReliableChannel cfg k) 0 {}" using W by (rule ordered_rel_new)
  from small_run_keeps [OF K this _ _ _ _ pre] u arr same obtain n H where
    1: "?rel c n H" "n \<le> K" "H \<subseteq> {..<K}" by auto
  from runPartial_prefix [OF run] pre obtain es2 where suf: "runPartial (rc_step cc codec True) ys (c, st1) = Some ((b, stb), es2)" by auto
  from small_run_keeps [OF K 1 _ _ suf] u arr same obtain n' H' where
    2: "?rel b n' H'" "n' \<le> K" "{..<n} \<union> H \<subseteq> {..<n'} \<union> H'" by auto
  have t: "hasReceived (rc_recvAckTracker c)" "pkt_ack a = latestSequence (rc_recvAckTracker c)"
    "pkt_ackBits a = ackBits (rc_recvAckTracker c)" using a(1) by (auto simp: rc_buildAck_def split: if_splits)
  then obtain L where L: "tracks (rc_recvAckTracker c) L ({..<n} \<union> H)" using 1(1) by (auto simp: ordered_rel_def)
  then have "L \<in> {..<n} \<union> H" by (simp add: tracks_def)
  then have "L < K" using 1(2,3) by auto
  then have "near L j" using a(3) K by (simp add: near_def)
  then have "j \<in> {..<n'} \<union> H'" using tracks_isAcknowledged [OF L] a(2) t 2(3) by auto
  moreover have "n' \<notin> H'" "rc_expectedRecvSeq b = of_nat n'" using 2(1) by (auto simp: ordered_rel_def rc_rel_def)
  ultimately show ?thesis using 2(2) a(3) K by (auto simp: of_nat_u16_eq_iff)
qed

section \<open>The packet that the receiver waits for\<close>

text \<open>
  Two new sessions over the default codec with channel \<open>i\<close> reliable and ordered on both sides, and a
  receiving window of at most 32 that divides the number space.
\<close>

definition ordered_link ::
  "('o, 'u) Traits \<Rightarrow> ('p, 'v) Traits \<Rightarrow> u8 \<Rightarrow> ('o, 'u, 'ep) Session \<Rightarrow> ('p, 'v, 'ep) Session \<Rightarrow> bool" where
  "ordered_link TA TB i sA sB \<longleftrightarrow> tr_codec TA = DefaultCodec \<and> tr_codec TB = DefaultCodec \<and> opened i sA \<and> opened i sB
     \<and> (\<exists>ko ku ep cfg. sA = newSession ko ku ep cfg
          \<and> (\<forall>cc\<in>set (sc_channels cfg). cfg_id cc = i \<longrightarrow> cfg_mode cc = ReliableOrdered))
     \<and> (\<exists>ko ku ep cfg. sB = newSession ko ku ep cfg
          \<and> (\<forall>cc\<in>set (sc_channels cfg). cfg_id cc = i \<longrightarrow> cfg_mode cc = ReliableOrdered
               \<and> windowCapacity (cfg_sendWindow cc) dvd 65536 \<and> windowCapacity (cfg_sendWindow cc) \<le> 32))"

text \<open>Every packet of a type that channel \<open>i\<close> sees in a run was decoded from one of the peer's datagrams.\<close>

definition carried :: "('o, 'u) Traits \<Rightarrow> u8 \<Rightarrow> u8 \<Rightarrow> 'ep ss_op list \<Rightarrow> ('o, 'u, 'ep) Session \<Rightarrow> 'ep effect list \<Rightarrow> bool" where
  "carried T i ty ops s es \<longleftrightarrow> (\<forall>now p. RcPacket now p \<in> set (seenAll T i ops s) \<and> pkt_type p = ty \<longrightarrow>
     (\<exists>bs ep q. (bs, ep, q) \<in> set (datagrams es) \<and> decode bs = Inr p))"

text \<open>
  A run of two sessions: the data that one sees and the acknowledgements that the other sees come from
  their peer, no datagram of the sending channel failed in its own socket, no number was lost to a refused
  send, and both sessions are open.
\<close>

definition exchange ::
  "('o, 'u) Traits \<Rightarrow> ('p, 'v) Traits \<Rightarrow> u8 \<Rightarrow> ('o, 'u, 'ep) Session \<Rightarrow> ('p, 'v, 'ep) Session
    \<Rightarrow> 'ep ss_op list \<Rightarrow> 'ep ss_op list \<Rightarrow> ('o, 'u, 'ep) Session \<Rightarrow> 'ep effect list
    \<Rightarrow> ('p, 'v, 'ep) Session \<Rightarrow> 'ep effect list \<Rightarrow> bool" where
  "exchange TA TB i sA0 sB0 opsA opsB sA esA sB esB \<longleftrightarrow>
     runPartial (ss_step TA) opsA sA0 = Some (sA, esA) \<and> runPartial (ss_step TB) opsB sB0 = Some (sB, esB)
     \<and> length (sendsOn i opsA) \<le> 32768
     \<and> carried TB i Data opsB sB0 esA \<and> carried TA i Ack opsA sA0 esB
     \<and> (\<forall>n h ec. RcSent n h ec \<in> set (seenAll TA i opsA sA0) \<longrightarrow> \<not> failed ec)
     \<and> sentNumbers TA i opsA sA0 = [0..<length (acceptedSends TA i opsA sA0)]
     \<and> \<not> ss_closed sA \<and> \<not> ss_closed sB"

text \<open>A number that an acknowledgement of the receiving session covers is not the one it expects.\<close>

lemma session_acked_not_expected:
  assumes T: "tr_codec T = DefaultCodec" and s0: "s0 = newSession ko ku ep0 cfg" and o: "opened i s0"
    and mode: "\<forall>cc\<in>set (sc_channels cfg). cfg_id cc = i \<longrightarrow> cfg_mode cc = ReliableOrdered
       \<and> windowCapacity (cfg_sendWindow cc) dvd 65536 \<and> windowCapacity (cfg_sendWindow cc) \<le> 32"
    and run: "runPartial (ss_step T) ops s0 = Some (s, es)" and c: "ss_channels s ! unat i = OrderedVar b"
    and K: "K \<le> 32768" and arr: "arrived (map toPeer (seenAll T i ops s0)) \<subseteq> {..<K}"
    and same: "\<And>op r. op \<in> set (seenAll T i ops s0) \<Longrightarrow>
      peer_step True pk (tr_ordered T) DefaultCodec (toPeer op) r = rc_step (tr_ordered T) DefaultCodec True op r"
    and d: "(bs, ep, q) \<in> set (datagrams es)" "decode bs = Inr p" "pkt_type p = Ack" "pkt_channel p = i"
    and j: "isAcknowledged (of_nat j) (pkt_ack p) (pkt_ackBits p)" "j < K"
  shows "rc_expectedRecvSeq b \<noteq> of_nat j"
proof -
  have m: "\<forall>cc\<in>set (sc_channels cfg). cfg_id cc = i \<longrightarrow> cfg_mode cc = ReliableOrdered" using mode by blast
  obtain cc b' st where cc: "cc \<in> set (sc_channels cfg)" "cfg_id cc = i"
    and c0: "ss_channels s0 ! unat i = OrderedVar (newReliableChannel (reliableOptions cc) ko)"
    and fb: "ss_channels s ! unat i = OrderedVar b'"
    and rb: "runPartial (rc_step (tr_ordered T) DefaultCodec True) (seenAll T i ops s0)
      (newReliableChannel (reliableOptions cc) ko, newSocketStats) = Some ((b', st), channelEffects T i ops s0)"
    using ordered_run [OF T o [unfolded s0] m run [unfolded s0]] unfolding s0 by metis
  have b: "b' = b" using fb c by simp
  have n: "numbered DefaultCodec s0" unfolding s0 by (rule newSession_numbered)
  have dd: "cdc_decode DefaultCodec (fst (bs, ep, q)) = Inr p" using d(2) by (simp add: DefaultCodec_def)
  from default_codec.run_acks [OF T n o run d(1) dd d(3,4), of newSocketStats] obtain xs ys c1 st1 fs a where
    x: "seenAll T i ops s0 = xs @ ys" "runPartial (ch_step T) xs (ss_channels s0 ! unat i, newSocketStats) = Some ((c1, st1), fs)"
    and a: "ch_buildAck c1 = Some a" "pkt_ack p = pkt_ack a" "pkt_ackBits p = pkt_ackBits a" by blast
  from ch_run_ordered [OF x(2) [unfolded c0]] T obtain c2 where c2: "c1 = OrderedVar c2"
    and pre: "runPartial (rc_step (tr_ordered T) DefaultCodec True) xs
      (newReliableChannel (reliableOptions cc) ko, newSocketStats) = Some ((c2, st1), fs)" by auto
  have w: "windowCapacity (opt_sendWindow (reliableOptions cc)) dvd 65536" "windowCapacity (opt_sendWindow (reliableOptions cc)) < 32768"
    using mode cc by (fastforce simp: reliableOptions_def)+
  have "rc_buildAck c2 = Some a" using a(1) c2 by simp
  from acked_not_expected [OF K w arr [unfolded x(1)] same [unfolded x(1)] rb [unfolded x(1)] pre this] j a(2,3) b
  show ?thesis by simp
qed

lemma newReliableChannel_next: "rc_nextSeq (newReliableChannel cfg k) = of_nat 0"
  by (simp add: newReliableChannel_def Let_def)

text \<open>So no call of the sender releases the number that the receiver expects.\<close>

lemma waited_not_released:
  assumes l: "ordered_link TA TB i sA0 sB0" and x: "exchange TA TB i sA0 sB0 opsA opsB sA esA sB esB"
    and c: "ss_channels sB ! unat i = OrderedVar b" and op: "op \<in> set (seenAll TA i opsA sA0)"
    and w: "unat (rc_expectedRecvSeq b) < length (rcSends (seenAll TA i opsA sA0))"
  shows "\<not> releases (rc_expectedRecvSeq b) op"
proof
  assume r: "releases (rc_expectedRecvSeq b) op"
  obtain koA kuA epA cfgA koB kuB epB cfgB where s0: "sA0 = newSession koA kuA epA cfgA" "sB0 = newSession koB kuB epB cfgB"
    and mA: "\<forall>cc\<in>set (sc_channels cfgA). cfg_id cc = i \<longrightarrow> cfg_mode cc = ReliableOrdered"
    and mB: "\<forall>cc\<in>set (sc_channels cfgB). cfg_id cc = i \<longrightarrow> cfg_mode cc = ReliableOrdered
       \<and> windowCapacity (cfg_sendWindow cc) dvd 65536 \<and> windowCapacity (cfg_sendWindow cc) \<le> 32"
    and T: "tr_codec TA = DefaultCodec" "tr_codec TB = DefaultCodec" and o: "opened i sA0" "opened i sB0"
    using l unfolding ordered_link_def by blast
  have mB': "\<forall>cc\<in>set (sc_channels cfgB). cfg_id cc = i \<longrightarrow> cfg_mode cc = ReliableOrdered" using mB by blast
  have run: "runPartial (ss_step TA) opsA sA0 = Some (sA, esA)" "runPartial (ss_step TB) opsB sB0 = Some (sB, esB)"
    and few: "length (sendsOn i opsA) \<le> 32768" and dat: "carried TB i Data opsB sB0 esA"
    using x by (simp_all add: exchange_def)
  obtain ca a stA where ra: "runPartial (rc_step (tr_ordered TA) DefaultCodec True) (seenAll TA i opsA sA0)
      (newReliableChannel (reliableOptions ca) koA, newSocketStats) = Some ((a, stA), channelEffects TA i opsA sA0)"
    and small: "length (rcSends (seenAll TA i opsA sA0)) \<le> 32768"
    and net: "\<forall>now p. RcPacket now p \<in> set (seenAll TB i opsB sB0) \<and> pkt_type p = Data \<longrightarrow>
      (\<exists>bs ep q. (bs, ep, q) \<in> set (datagrams (channelEffects TA i opsA sA0)) \<and> decode bs = Inr p)"
    by (rule linked_runs [OF T s0 o mA mB' run few dat [unfolded carried_def]])
  obtain pk where arr: "arrived (map toPeer (seenAll TB i opsB sB0)) \<subseteq> {..<length (rcSends (seenAll TA i opsA sA0))}"
    and same: "\<And>op r. op \<in> set (seenAll TB i opsB sB0) \<Longrightarrow>
      peer_step True pk (tr_ordered TB) DefaultCodec (toPeer op) r = rc_step (tr_ordered TB) DefaultCodec True op r"
    using link_run [OF small ra refl net] by metis
  show False
  proof (cases op)
    case (RcPacket now p)
    then have p: "pkt_type p = Ack" "isAcknowledged (of_nat (unat (rc_expectedRecvSeq b))) (pkt_ack p) (pkt_ackBits p)"
      using r by auto
    then obtain bs' ep q where d: "(bs', ep, q) \<in> set (datagrams esB)" "decode bs' = Inr p"
      using x op RcPacket unfolding exchange_def carried_def by blast
    have ch: "pkt_channel p = i" using seenAll_channel op RcPacket by blast
    from session_acked_not_expected [OF T(2) s0(2) o(2) mB run(2) c small arr same d p(1) ch p(2) w] show False by simp
  qed (use r x op in \<open>auto simp: exchange_def\<close>)
qed

lemma waited_held:
  assumes l: "ordered_link TA TB i sA0 sB0" and x: "exchange TA TB i sA0 sB0 opsA opsB sA esA sB esB"
    and c: "ss_channels sA ! unat i = OrderedVar a" "ss_channels sB ! unat i = OrderedVar b"
    and w: "unat (rc_expectedRecvSeq b) < length (acceptedSends TA i opsA sA0)"
  shows "holds (rc_expectedRecvSeq b) a"
proof -
  obtain ko ku ep cfg where s0: "sA0 = newSession ko ku ep cfg"
    and m: "\<forall>cc\<in>set (sc_channels cfg). cfg_id cc = i \<longrightarrow> cfg_mode cc = ReliableOrdered"
    and T: "tr_codec TA = DefaultCodec" and o: "opened i sA0"
    using l unfolding ordered_link_def by blast
  have r: "runPartial (ss_step TA) opsA sA0 = Some (sA, esA)"
    and num: "sentNumbers TA i opsA sA0 = [0..<length (acceptedSends TA i opsA sA0)]"
    using x by (simp_all add: exchange_def)
  let ?ops = "seenAll TA i opsA sA0" and ?j = "unat (rc_expectedRecvSeq b)"
  obtain ca a1 st where ca: "ss_channels sA0 ! unat i = OrderedVar (newReliableChannel (reliableOptions ca) ko)"
    and fa: "ss_channels sA ! unat i = OrderedVar a1" and ra: "runPartial (rc_step (tr_ordered TA) DefaultCodec True) ?ops
      (newReliableChannel (reliableOptions ca) ko, newSocketStats) = Some ((a1, st), channelEffects TA i opsA sA0)"
    using ordered_run [OF T o [unfolded s0] m r [unfolded s0]] unfolding s0 by metis
  let ?log = "sentLog (tr_ordered TA) DefaultCodec True ?ops 0 (newReliableChannel (reliableOptions ca) ko, newSocketStats)"
  have "sentNumbers TA i opsA sA0 = map fst ?log" using ca T by (simp add: sentNumbers_def)
  then have "?j \<in> set (map fst ?log)" using num w by (metis atLeastLessThan_iff atLeastLessThan_upt le0)
  then obtain m bs where e: "(?j, m, bs) \<in> set ?log" by auto
  have "?j < length (rcSends ?ops)"
    using default_codec.log_bounds [of "(newReliableChannel (reliableOptions ca) ko, newSocketStats)" 0 "tr_ordered TA" True ?ops]
      newReliableChannel_next e by fastforce
  then have "\<forall>op \<in> set ?ops. \<not> releases (of_nat ?j) op" using waited_not_released [OF l x c(2)] by simp
  then have "holds (of_nat ?j) a1"
    using default_codec.logged_held [OF rc_inv_new newReliableChannel_next ra e] by blast
  then show ?thesis using fa c(1) by simp
qed

section \<open>Continuing an exchange\<close>

text \<open>
  What a continuation consists of: expiries of the retransmission timer, and receives of datagrams among
  \<open>es\<close> that come from the peer at \<open>r\<close>.
\<close>

fun relays :: "'ep \<Rightarrow> 'ep effect list \<Rightarrow> 'ep ss_op \<Rightarrow> bool" where
  "relays r es (SsRetransmit now ec) \<longleftrightarrow> ec = NoError"
| "relays r es (SsRecvDone now ec sender bs) \<longleftrightarrow> ec = NoError \<and> sender = r \<and> (\<exists>ep q. (bs, ep, q) \<in> set (datagrams es))"
| "relays r es op \<longleftrightarrow> False"

lemma relays_mono: "relays r es op \<Longrightarrow> relays r (es @ fs) op"
  by (cases "(r, es, op)" rule: relays.cases) auto

lemma relay_seen:
  assumes "tr_codec T = DefaultCodec" and "relays r es op"
  shows "rcSends (seen T i op s) = [] \<and> sendsOn i [op] = [] \<and> (\<forall>n h ec. RcSent n h ec \<notin> set (seen T i op s))
    \<and> (\<forall>now p. RcPacket now p \<in> set (seen T i op s) \<longrightarrow> (\<exists>bs ep q. (bs, ep, q) \<in> set (datagrams es) \<and> decode bs = Inr p))"
  using assms
  by (cases "(r, es, op)" rule: relays.cases, auto simp: seenPacket_def DefaultCodec_def split: sum.splits if_splits) blast

lemma relay_seenAll:
  assumes "tr_codec T = DefaultCodec"
  shows "\<forall>op \<in> set ops. relays r es op \<Longrightarrow>
    rcSends (seenAll T i ops s) = [] \<and> sendsOn i ops = [] \<and> (\<forall>n h ec. RcSent n h ec \<notin> set (seenAll T i ops s))
    \<and> (\<forall>now p. RcPacket now p \<in> set (seenAll T i ops s) \<longrightarrow> (\<exists>bs ep q. (bs, ep, q) \<in> set (datagrams es) \<and> decode bs = Inr p))"
proof (induction ops arbitrary: s)
  case (Cons op ops)
  have op: "relays r es op" and ops: "\<forall>op \<in> set ops. relays r es op" using Cons.prems by simp_all
  show ?case
    unfolding sendsOn_Cons [of i op ops] using relay_seen [OF assms op, of i s] Cons.IH [OF ops]
    by (cases "ss_step T op s") (auto simp: case_prod_beta simp del: sendsOn.simps)
qed simp

lemma seenAll_append:
  "runPartial (ss_step T) xs s = Some (s1, es) \<Longrightarrow> seenAll T i (xs @ ys) s = seenAll T i xs s @ seenAll T i ys s1"
proof (induction xs arbitrary: s es)
  case (Cons x xs)
  from Cons.prems obtain s2 es1 es2 where "ss_step T x s = Some (s2, es1)" "runPartial (ss_step T) xs s2 = Some (s1, es2)"
    by (rule runPartial_Cons_SomeE)
  then show ?case using Cons.IH by simp
qed simp

lemma sendsOn_append: "sendsOn i (xs @ ys) = sendsOn i xs @ sendsOn i ys"
  by (induction xs rule: sendsOn.induct) simp_all

lemma sentLog_quiet: "rcSends ys = [] \<Longrightarrow> sentLog cc codec ordered ys k s = []"
proof (induction ys arbitrary: k s)
  case (Cons op ys)
  then have "logEntry op k es = []" "rcSends ys = []" for es k by (cases op; simp)+
  then show ?case using Cons.IH by (auto split: option.splits)
qed simp

lemma sentLog_more: "rcSends ys = [] \<Longrightarrow> sentLog cc codec ordered (xs @ ys) k s = sentLog cc codec ordered xs k s"
  by (induction xs arbitrary: k s) (auto simp: sentLog_quiet split: option.splits)

lemma accepted_more:
  assumes "runPartial (ss_step T) xs s = Some (s1, es)" and "rcSends (seenAll T i ys s1) = []"
  shows "acceptedSends T i (xs @ ys) s = acceptedSends T i xs s" "sentNumbers T i (xs @ ys) s = sentNumbers T i xs s"
  by (simp_all add: acceptedSends_def sentNumbers_def seenAll_append [OF assms(1)] sentLog_more [OF assms(2)]
      split: ChannelVar.splits)

lemma carried_more:
  assumes "runPartial (ss_step T) ops s = Some (s1, fs)" and "carried T i ty ops s es"
    and "\<forall>now p. RcPacket now p \<in> set (seenAll T i ops' s1) \<longrightarrow>
      (\<exists>bs ep q. (bs, ep, q) \<in> set (datagrams (es @ es')) \<and> decode bs = Inr p)"
  shows "carried T i ty (ops @ ops') s (es @ es')"
  unfolding carried_def seenAll_append [OF assms(1)]
proof (intro allI impI)
  fix now p
  assume p: "RcPacket now p \<in> set (seenAll T i ops s @ seenAll T i ops' s1) \<and> pkt_type p = ty"
  show "\<exists>bs ep q. (bs, ep, q) \<in> set (datagrams (es @ es')) \<and> decode bs = Inr p"
  proof (cases "RcPacket now p \<in> set (seenAll T i ops s)")
    case True
    then show ?thesis using p assms(2) unfolding carried_def by (metis Un_iff datagrams_append set_append)
  next
    case False
    then show ?thesis using p assms(3) by auto
  qed
qed

lemma exchange_extend:
  assumes T: "tr_codec TA = DefaultCodec" "tr_codec TB = DefaultCodec"
    and x: "exchange TA TB i sA0 sB0 opsA opsB sA esA sB esB"
    and r: "runPartial (ss_step TA) opsA' sA = Some (sA', esA')" "runPartial (ss_step TB) opsB' sB = Some (sB', esB')"
    and rel: "\<forall>op \<in> set opsA'. relays rA (esB @ esB') op" "\<forall>op \<in> set opsB'. relays rB (esA @ esA') op"
    and op: "\<not> ss_closed sA'" "\<not> ss_closed sB'"
  shows "exchange TA TB i sA0 sB0 (opsA @ opsA') (opsB @ opsB') sA' (esA @ esA') sB' (esB @ esB')
    \<and> acceptedSends TA i (opsA @ opsA') sA0 = acceptedSends TA i opsA sA0"
proof -
  have run: "runPartial (ss_step TA) opsA sA0 = Some (sA, esA)" "runPartial (ss_step TB) opsB sB0 = Some (sB, esB)"
    using x by (simp_all add: exchange_def)
  note A = relay_seenAll [OF T(1) rel(1), of i sA] and B = relay_seenAll [OF T(2) rel(2), of i sB]
  note acc = accepted_more [OF run(1), of i opsA'] A
  have "carried TB i Data (opsB @ opsB') sB0 (esA @ esA')"
    using x B by (intro carried_more [OF run(2)]) (auto simp: exchange_def)
  moreover have "carried TA i Ack (opsA @ opsA') sA0 (esB @ esB')"
    using x A by (intro carried_more [OF run(1)]) (auto simp: exchange_def)
  moreover have "sentNumbers TA i (opsA @ opsA') sA0 = sentNumbers TA i opsA sA0"
    "acceptedSends TA i (opsA @ opsA') sA0 = acceptedSends TA i opsA sA0"
    using acc by simp_all
  ultimately show ?thesis
    using x A op runPartial_appendI [OF run(1) r(1)] runPartial_appendI [OF run(2) r(2)]
    by (auto simp: exchange_def sendsOn_append seenAll_append [OF run(1)])
qed

section \<open>Everything gets there\<close>

lemma ordered_link_delivery:
  assumes l: "ordered_link TA TB i sA0 sB0"
    and r: "runPartial (ss_step TA) opsA sA0 = Some (sA, esA)" "runPartial (ss_step TB) opsB sB0 = Some (sB, esB)"
    and few: "length (sendsOn i opsA) \<le> 32768" and dat: "carried TB i Data opsB sB0 esA"
  obtains a b n ms where "ss_channels sA ! unat i = OrderedVar a" and "ss_channels sB ! unat i = OrderedVar b"
    and "handedOut (channelEffects TB i opsB sB0) ms"
    and "ms @ rq_queued (rc_recvQueue b) = take n (acceptedSends TA i opsA sA0)"
    and "n \<le> length (acceptedSends TA i opsA sA0)" and "length (acceptedSends TA i opsA sA0) \<le> 32768"
    and "unat (rc_expectedRecvSeq b) = n" and "{0..<n} \<subseteq> set (sentNumbers TA i opsA sA0)"
proof -
  obtain koA kuA epA cfgA koB kuB epB cfgB where s0: "sA0 = newSession koA kuA epA cfgA" "sB0 = newSession koB kuB epB cfgB"
    and mA: "\<forall>cc\<in>set (sc_channels cfgA). cfg_id cc = i \<longrightarrow> cfg_mode cc = ReliableOrdered"
    and mB: "\<forall>cc\<in>set (sc_channels cfgB). cfg_id cc = i \<longrightarrow> cfg_mode cc = ReliableOrdered
       \<and> windowCapacity (cfg_sendWindow cc) dvd 65536 \<and> windowCapacity (cfg_sendWindow cc) \<le> 32"
    and T: "tr_codec TA = DefaultCodec" "tr_codec TB = DefaultCodec" and o: "opened i sA0" "opened i sB0"
    using l unfolding ordered_link_def by blast
  have mB': "\<forall>cc\<in>set (sc_channels cfgB). cfg_id cc = i \<longrightarrow> cfg_mode cc = ReliableOrdered
       \<and> windowCapacity (cfg_sendWindow cc) dvd 65536 \<and> windowCapacity (cfg_sendWindow cc) < 32768" using mB by fastforce
  obtain a where a: "ss_channels sA ! unat i = OrderedVar a"
    using ordered_run [OF T(1) o(1) [unfolded s0] mA r(1) [unfolded s0]] by metis
  from linked_delivery [OF T s0 o mA mB' r few dat [unfolded carried_def]] obtain b n ms where
    b: "ss_channels sB ! unat i = OrderedVar b" "handedOut (channelEffects TB i opsB sB0) ms"
      "ms @ rq_queued (rc_recvQueue b) = take n (acceptedSends TA i opsA sA0)"
      "n \<le> length (acceptedSends TA i opsA sA0)" "rc_expectedRecvSeq b = of_nat n" "{0..<n} \<subseteq> set (sentNumbers TA i opsA sA0)"
    and sub: "subseq (acceptedSends TA i opsA sA0) (sendsOn i opsA)" by metis
  have len: "length (acceptedSends TA i opsA sA0) \<le> 32768" using few list_emb_length [OF sub] by simp
  have "unat (rc_expectedRecvSeq b) = n" using b(4,5) len by (simp add: unat_of_nat)
  then show ?thesis using that a b len by blast
qed

lemma exchange_delivery:
  assumes l: "ordered_link TA TB i sA0 sB0" and x: "exchange TA TB i sA0 sB0 opsA opsB sA esA sB esB"
  obtains a b n ms where "ss_channels sA ! unat i = OrderedVar a" and "ss_channels sB ! unat i = OrderedVar b"
    and "handedOut (channelEffects TB i opsB sB0) ms"
    and "ms @ rq_queued (rc_recvQueue b) = take n (acceptedSends TA i opsA sA0)"
    and "n \<le> length (acceptedSends TA i opsA sA0)" and "length (acceptedSends TA i opsA sA0) \<le> 32768"
    and "unat (rc_expectedRecvSeq b) = n"
proof -
  have "runPartial (ss_step TA) opsA sA0 = Some (sA, esA)" "runPartial (ss_step TB) opsB sB0 = Some (sB, esB)"
    "length (sendsOn i opsA) \<le> 32768" "carried TB i Data opsB sB0 esA"
    using x by (simp_all add: exchange_def)
  then show ?thesis by (rule ordered_link_delivery [OF l]) (rule that)
qed

text \<open>One round from any exchange in which the receiver still waits for something that was accepted.\<close>

lemma exchange_recovers:
  assumes l: "ordered_link TA TB i sA0 sB0" and x: "exchange TA TB i sA0 sB0 opsA opsB sA esA sB esB"
    and c: "ss_channels sA ! unat i = OrderedVar a" "ss_channels sB ! unat i = OrderedVar b"
    and w: "unat (rc_expectedRecvSeq b) < length (acceptedSends TA i opsA sA0)"
  obtains p where "Some p \<in> set (rc_sentPackets a)" and "sp_sequenceNumber p = rc_expectedRecvSeq b"
    and "\<forall>now t2 t3. sp_nextRetx p \<le> now \<longrightarrow> recovers TA TB i sA sB b p now t2 t3"
proof -
  obtain koA kuA epA cfgA koB kuB epB cfgB where s0: "sA0 = newSession koA kuA epA cfgA" "sB0 = newSession koB kuB epB cfgB"
    and mA: "\<forall>cc\<in>set (sc_channels cfgA). cfg_id cc = i \<longrightarrow> cfg_mode cc = ReliableOrdered"
    and mB: "\<forall>cc\<in>set (sc_channels cfgB). cfg_id cc = i \<longrightarrow> cfg_mode cc = ReliableOrdered
       \<and> windowCapacity (cfg_sendWindow cc) dvd 65536 \<and> windowCapacity (cfg_sendWindow cc) \<le> 32"
    and T: "tr_codec TA = DefaultCodec" "tr_codec TB = DefaultCodec" and o: "opened i sA0" "opened i sB0"
    using l unfolding ordered_link_def by blast
  have r: "runPartial (ss_step TA) opsA sA0 = Some (sA, esA)" "runPartial (ss_step TB) opsB sB0 = Some (sB, esB)"
    and few: "length (sendsOn i opsA) \<le> 32768" and dat: "carried TB i Data opsB sB0 esA"
    and op: "\<not> ss_closed sA" "\<not> ss_closed sB"
    using x by (simp_all add: exchange_def)
  obtain p where p: "Some p \<in> set (rc_sentPackets a)" "sp_sequenceNumber p = rc_expectedRecvSeq b"
    using waited_held [OF l x c w] by (auto simp: holds_def)
  show ?thesis
    using recovery_round [OF T s0 o mA mB r few dat [unfolded carried_def] op c p(1) _ p(2)] by (intro that [OF p]) blast
qed

text \<open>
  A schedule without any new work of the applications: the sender's retransmission timer expires, or a
  datagram that one side has emitted reaches the other one. The clock never goes back.
\<close>

type_synonym ('o, 'u, 'ep) side = "'ep ss_op list \<times> ('o, 'u, 'ep) Session \<times> 'ep effect list"

inductive relay :: "('o, 'u) Traits \<Rightarrow> ('p, 'v) Traits
    \<Rightarrow> int \<times> ('o, 'u, 'ep) side \<times> ('p, 'v, 'ep) side \<Rightarrow> int \<times> ('o, 'u, 'ep) side \<times> ('p, 'v, 'ep) side \<Rightarrow> bool"
  for TA TB where
  relay_tick: "t \<le> now \<Longrightarrow> onRetransmit TA now NoError sA = (sA', es) \<Longrightarrow>
    relay TA TB (t, (opsA, sA, esA), B) (now, (opsA @ [SsRetransmit now NoError], sA', esA @ es), B)"
| relay_data: "t \<le> now \<Longrightarrow> (bs, ep, q) \<in> set (datagrams esA) \<Longrightarrow>
    onSocketRecv TB now NoError (ss_remote sB) bs sB = Some (sB', es) \<Longrightarrow>
    relay TA TB (t, (opsA, sA, esA), (opsB, sB, esB))
      (now, (opsA, sA, esA), (opsB @ [SsRecvDone now NoError (ss_remote sB) bs], sB', esB @ es))"
| relay_ack: "t \<le> now \<Longrightarrow> (bs, ep, q) \<in> set (datagrams esB) \<Longrightarrow>
    onSocketRecv TA now NoError (ss_remote sA) bs sA = Some (sA', es) \<Longrightarrow>
    relay TA TB (t, (opsA, sA, esA), (opsB, sB, esB))
      (now, (opsA @ [SsRecvDone now NoError (ss_remote sA) bs], sA', esA @ es), (opsB, sB, esB))"

lemma datagram_sent: "SendTo bs ep q \<in> set es \<Longrightarrow> (bs, ep, q) \<in> set (datagrams es)"
  by (induction es rule: datagrams.induct) auto

lemma exchange_round:
  assumes l: "ordered_link TA TB i sA0 sB0" and x: "exchange TA TB i sA0 sB0 opsA opsB sA esA sB esB"
    and c: "ss_channels sA ! unat i = OrderedVar a" "ss_channels sB ! unat i = OrderedVar b"
    and w: "unat (rc_expectedRecvSeq b) < length (acceptedSends TA i opsA sA0)"
    and few: "length (acceptedSends TA i opsA sA0) \<le> 32768"
  obtains t' opsA' sA' esA' opsB' sB' esB' b'
  where "(relay TA TB ^^ 3) (t, (opsA, sA, esA), (opsB, sB, esB)) (t', (opsA', sA', esA'), (opsB', sB', esB'))"
    and "exchange TA TB i sA0 sB0 opsA' opsB' sA' esA' sB' esB'"
    and "acceptedSends TA i opsA' sA0 = acceptedSends TA i opsA sA0"
    and "ss_channels sB' ! unat i = OrderedVar b'" and "unat (rc_expectedRecvSeq b) < unat (rc_expectedRecvSeq b')"
proof -
  have T: "tr_codec TA = DefaultCodec" "tr_codec TB = DefaultCodec" using l by (simp_all add: ordered_link_def)
  obtain p where "Some p \<in> set (rc_sentPackets a)" "sp_sequenceNumber p = rc_expectedRecvSeq b"
    and rec: "\<forall>now t2 t3. sp_nextRetx p \<le> now \<longrightarrow> recovers TA TB i sA sB b p now t2 t3"
    by (rule exchange_recovers [OF l x c w])
  define now where "now = max t (sp_nextRetx p)"
  have now: "t \<le> now" "sp_nextRetx p \<le> now" by (simp_all add: now_def)
  have "recovers TA TB i sA sB b p now now now" using rec now(2) by blast
  then obtain sA1 es1 sB1 fs ack b1 sA2 d where
    A1: "onRetransmit TA now NoError sA = (sA1, es1)" "SendTo (sp_encodedPacket p) (ss_remote sA) SendDiscard \<in> set es1"
    and B1: "onSocketRecv TB now NoError (ss_remote sB) (sp_encodedPacket p) sB
        = Some (sB1, fs @ [SendTo ack (ss_remote sB) SendDiscard, RecvFrom])" "ss_channels sB1 ! unat i = OrderedVar b1"
    and A2: "onSocketRecv TA now NoError (ss_remote sA) ack sA1 = Some (sA2, [RecvFrom])"
    and op: "\<not> ss_closed sB1" "\<not> ss_closed sA2" and d: "0 < d" "d \<le> 32" "rc_expectedRecvSeq b1 = rc_expectedRecvSeq b + of_nat d"
    unfolding recovers_def by blast
  have same: "ss_remote sA1 = ss_remote sA" using A1(1) by (auto simp: onRetransmit_def split: prod.splits if_splits)
  let ?esB = "fs @ [SendTo ack (ss_remote sB) SendDiscard, RecvFrom]"
    and ?recv = "SsRecvDone now NoError (ss_remote sB) (sp_encodedPacket p)" and ?acked = "SsRecvDone now NoError (ss_remote sA) ack"
  have tick: "relay TA TB (t, (opsA, sA, esA), (opsB, sB, esB))
      (now, (opsA @ [SsRetransmit now NoError], sA1, esA @ es1), (opsB, sB, esB))"
    by (rule relay_tick [OF now(1) A1(1)])
  have data: "relay TA TB (now, (opsA @ [SsRetransmit now NoError], sA1, esA @ es1), (opsB, sB, esB))
      (now, (opsA @ [SsRetransmit now NoError], sA1, esA @ es1), (opsB @ [?recv], sB1, esB @ ?esB))"
    using datagram_sent [OF A1(2)] by (intro relay_data [OF order_refl _ B1(1)]) auto
  have ack: "relay TA TB (now, (opsA @ [SsRetransmit now NoError], sA1, esA @ es1), (opsB @ [?recv], sB1, esB @ ?esB))
      (now, ((opsA @ [SsRetransmit now NoError]) @ [?acked], sA2, (esA @ es1) @ [RecvFrom]), (opsB @ [?recv], sB1, esB @ ?esB))"
    by (rule relay_ack [OF order_refl _ A2 [folded same], unfolded same, where ep = "ss_remote sB" and q = SendDiscard]) simp
  have "(relay TA TB ^^ 3) (t, (opsA, sA, esA), (opsB, sB, esB))
      (now, ((opsA @ [SsRetransmit now NoError]) @ [?acked], sA2, (esA @ es1) @ [RecvFrom]), (opsB @ [?recv], sB1, esB @ ?esB))"
    unfolding numeral_3_eq_3 using tick data ack by (auto intro!: relcomppI)
  moreover have "exchange TA TB i sA0 sB0 (opsA @ [SsRetransmit now NoError, ?acked]) (opsB @ [?recv]) sA2 (esA @ es1 @ [RecvFrom]) sB1 (esB @ ?esB)
      \<and> acceptedSends TA i (opsA @ [SsRetransmit now NoError, ?acked]) sA0 = acceptedSends TA i opsA sA0"
    using A1 B1 A2 op datagram_sent [OF A1(2)]
    by (intro exchange_extend [OF T x, of _ _ _ _ _ _ "ss_remote sA" "ss_remote sB"]) auto
  moreover have "unat (rc_expectedRecvSeq b) < unat (rc_expectedRecvSeq b1)"
    using d w few unfolding d(3) by (simp add: unat_word_ariths unat_of_nat)
  ultimately show ?thesis using that B1(2) by simp
qed

lemma exchange_completes:
  assumes l: "ordered_link TA TB i sA0 sB0"
  shows "exchange TA TB i sA0 sB0 opsA opsB sA esA sB esB \<Longrightarrow> ss_channels sB ! unat i = OrderedVar b \<Longrightarrow>
    length (acceptedSends TA i opsA sA0) - unat (rc_expectedRecvSeq b) \<le> k \<Longrightarrow>
    \<exists>n t' opsA' sA' esA' opsB' sB' esB' b'. n \<le> 3 * k
      \<and> (relay TA TB ^^ n) (t, (opsA, sA, esA), (opsB, sB, esB)) (t', (opsA', sA', esA'), (opsB', sB', esB'))
      \<and> exchange TA TB i sA0 sB0 opsA' opsB' sA' esA' sB' esB'
      \<and> acceptedSends TA i opsA' sA0 = acceptedSends TA i opsA sA0
      \<and> ss_channels sB' ! unat i = OrderedVar b' \<and> unat (rc_expectedRecvSeq b') = length (acceptedSends TA i opsA sA0)"
proof (induction k arbitrary: t opsA sA esA opsB sB esB b)
  case 0
  obtain b1 n where "ss_channels sB ! unat i = OrderedVar b1" "n \<le> length (acceptedSends TA i opsA sA0)"
    "unat (rc_expectedRecvSeq b1) = n"
    by (rule exchange_delivery [OF l 0(1)])
  then have "unat (rc_expectedRecvSeq b) = length (acceptedSends TA i opsA sA0)" using 0(2,3) by simp
  then show ?case using 0(1,2) by (intro exI [of _ "0 :: nat"]) auto
next
  case (Suc k)
  obtain a b1 n where a: "ss_channels sA ! unat i = OrderedVar a" and few: "length (acceptedSends TA i opsA sA0) \<le> 32768"
    by (rule exchange_delivery [OF l Suc.prems(1)])
  show ?case
  proof (cases "unat (rc_expectedRecvSeq b) < length (acceptedSends TA i opsA sA0)")
    case True
    obtain t1 opsA1 sA1 esA1 opsB1 sB1 esB1 b1 where
      r: "(relay TA TB ^^ 3) (t, (opsA, sA, esA), (opsB, sB, esB)) (t1, (opsA1, sA1, esA1), (opsB1, sB1, esB1))"
      and x: "exchange TA TB i sA0 sB0 opsA1 opsB1 sA1 esA1 sB1 esB1"
      and acc: "acceptedSends TA i opsA1 sA0 = acceptedSends TA i opsA sA0"
      and b1: "ss_channels sB1 ! unat i = OrderedVar b1" and up: "unat (rc_expectedRecvSeq b) < unat (rc_expectedRecvSeq b1)"
      by (rule exchange_round [OF l Suc.prems(1) a Suc.prems(2) True few, where t = t])
    have "length (acceptedSends TA i opsA1 sA0) - unat (rc_expectedRecvSeq b1) \<le> k" using up acc Suc.prems(3) by simp
    from Suc.IH [OF x b1 this, of t1] obtain n t' opsA' sA' esA' opsB' sB' esB' b' where n: "n \<le> 3 * k"
      and r': "(relay TA TB ^^ n) (t1, (opsA1, sA1, esA1), (opsB1, sB1, esB1)) (t', (opsA', sA', esA'), (opsB', sB', esB'))"
      and fin: "exchange TA TB i sA0 sB0 opsA' opsB' sA' esA' sB' esB'" "acceptedSends TA i opsA' sA0 = acceptedSends TA i opsA sA0"
        "ss_channels sB' ! unat i = OrderedVar b'" "unat (rc_expectedRecvSeq b') = length (acceptedSends TA i opsA sA0)"
      unfolding acc by blast
    have "(relay TA TB ^^ (3 + n)) (t, (opsA, sA, esA), (opsB, sB, esB)) (t', (opsA', sA', esA'), (opsB', sB', esB'))"
      unfolding relpowp_add using r r' by (rule relcomppI)
    moreover have "3 + n \<le> 3 * Suc k" using n by simp
    ultimately show ?thesis using fin by blast
  next
    case False
    then have "length (acceptedSends TA i opsA sA0) - unat (rc_expectedRecvSeq b) \<le> k" by simp
    from Suc.IH [OF Suc.prems(1,2) this, of t] show ?thesis by (meson le_SucI mult_le_mono2 order_refl order_trans)
  qed
qed


text \<open>
  The first datagram of channel 0 is lost, the second one arrives and is acknowledged; the acknowledgement
  arrives, too.
\<close>

definition lossyOps :: "nat ss_op list" where
  "lossyOps = [SsStart 1000 8, SsRecv 0 8 3, SsRecvDone 5000 NoError 8 (fst (datagrams senderEffects ! 2))]"

definition lossyEffects :: "nat effect list" where
  "lossyEffects = (case runPartial (ss_step plainTraits) lossyOps plainSession of None \<Rightarrow> [] | Some (s, es) \<Rightarrow> es)"

definition ackedOps :: "nat ss_op list" where
  "ackedOps = senderOps @ [SsRecvDone 6000 NoError 9 (fst (datagrams lossyEffects ! 0))]"

definition orderedAt :: "u8 \<Rightarrow> ('o, 'u) Traits \<Rightarrow> nat ss_op list \<Rightarrow> ('o, 'u, nat) Session \<Rightarrow> 'o ReliableChannel option" where
  "orderedAt i T ops s = (case runPartial (ss_step T) ops s of
     Some (s', es) \<Rightarrow> (if ss_closed s' then None else
       case ss_channels s' ! unat i of OrderedVar c \<Rightarrow> Some c | _ \<Rightarrow> None) | None \<Rightarrow> None)"

lemma orderedAtE:
  assumes "orderedAt i T ops s = Some c"
  obtains s' es where "runPartial (ss_step T) ops s = Some (s', es)" and "\<not> ss_closed s'"
    and "ss_channels s' ! unat i = OrderedVar c"
  using assms by (auto simp: orderedAt_def split: option.splits if_splits ChannelVar.splits)

lemma carriedI:
  assumes "list_all (\<lambda>op. case op of RcPacket now p \<Rightarrow> pkt_type p = ty \<longrightarrow> list_ex (\<lambda>d. decode (fst d) = Inr p) (datagrams es)
      | _ \<Rightarrow> True) (seenAll T i ops s)"
  shows "carried T i ty ops s es"
  using assms by (fastforce simp: carried_def list_all_iff list_ex_iff)

lemma plain_link: "ordered_link plainTraits plainTraits 0 plainSession plainSession"
proof -
  have o: "opened 0 plainSession" by code_simp
  have w: "windowCapacity 4 = 4" by code_simp
  have "\<forall>cc\<in>set (sc_channels plainConfig). cfg_id cc = 0 \<longrightarrow> cfg_mode cc = ReliableOrdered
      \<and> windowCapacity (cfg_sendWindow cc) dvd 65536 \<and> windowCapacity (cfg_sendWindow cc) \<le> 32"
    using w by (simp add: plainConfig_def reliableOrdered_def unreliableSequenced_def)
  then show ?thesis unfolding ordered_link_def using o plainSession_def by (fastforce simp: plainTraits_def)
qed

lemma lossy_facts:
  "map_option rc_expectedRecvSeq (orderedAt 0 plainTraits lossyOps plainSession) = Some 0"
  "map_option (\<lambda>a. list_all (case_option True (\<lambda>p. sp_nextRetx p \<le> 300000000)) (rc_sentPackets a))
    (orderedAt 0 plainTraits ackedOps plainSession) = Some True"
  "acceptedSends plainTraits 0 ackedOps plainSession = [[1, 2], [4]]"
  "sentNumbers plainTraits 0 ackedOps plainSession = [0, 1]"
  "list_all (\<lambda>op. case op of RcSent n h ec \<Rightarrow> \<not> failed ec | _ \<Rightarrow> True) (seenAll plainTraits 0 ackedOps plainSession)"
  "list_ex (\<lambda>op. case op of RcPacket now p \<Rightarrow> pkt_type p = Ack | _ \<Rightarrow> False) (seenAll plainTraits 0 ackedOps plainSession)"
  by code_simp+

text \<open>So the two sessions are in an exchange, in which the receiver waits for number 0.\<close>

lemma lossy_exchange:
  obtains sA a sB b esA where "exchange plainTraits plainTraits 0 plainSession plainSession ackedOps lossyOps sA esA sB lossyEffects"
    and "ss_channels sA ! unat (0 :: u8) = OrderedVar a" and "ss_channels sB ! unat (0 :: u8) = OrderedVar b"
    and "rc_expectedRecvSeq b = 0" and "\<forall>p. Some p \<in> set (rc_sentPackets a) \<longrightarrow> sp_nextRetx p \<le> 300000000"
proof -
  obtain b where b: "orderedAt 0 plainTraits lossyOps plainSession = Some b" "rc_expectedRecvSeq b = 0"
    using lossy_facts(1) by auto
  obtain a where a: "orderedAt 0 plainTraits ackedOps plainSession = Some a"
    "list_all (case_option True (\<lambda>p. sp_nextRetx p \<le> 300000000)) (rc_sentPackets a)"
    using lossy_facts(2) by auto
  obtain sA esA where A: "runPartial (ss_step plainTraits) ackedOps plainSession = Some (sA, esA)" "\<not> ss_closed sA"
    "ss_channels sA ! unat (0 :: u8) = OrderedVar a" by (rule orderedAtE [OF a(1)])
  obtain sB esB where B: "runPartial (ss_step plainTraits) lossyOps plainSession = Some (sB, esB)" "\<not> ss_closed sB"
    "ss_channels sB ! unat (0 :: u8) = OrderedVar b" by (rule orderedAtE [OF b(1)])
  have eB: "esB = lossyEffects" using B(1) by (simp add: lossyEffects_def)
  obtain s1 es2 where "runPartial (ss_step plainTraits) senderOps plainSession = Some (s1, senderEffects)" "esA = senderEffects @ es2"
    using runPartial_prefix [OF A(1) [unfolded ackedOps_def]] by (auto simp: senderEffects_def)
  moreover have "carried plainTraits 0 Data lossyOps plainSession senderEffects" by (rule carriedI) code_simp
  ultimately have "carried plainTraits 0 Data lossyOps plainSession esA"
    unfolding carried_def by (metis Un_iff datagrams_append set_append)
  moreover have "carried plainTraits 0 Ack ackedOps plainSession lossyEffects" by (rule carriedI) code_simp
  moreover have "length (sendsOn 0 ackedOps) \<le> 32768" by (simp add: ackedOps_def senderOps_def)
  ultimately have "exchange plainTraits plainTraits 0 plainSession plainSession ackedOps lossyOps sA esA sB lossyEffects"
    using A B eB lossy_facts(3-5) by (fastforce simp: exchange_def list_all_iff)
  then show ?thesis using that A(3) B(3) b(2) a(2) by (fastforce simp: list_all_iff)
qed




end
