(* ===== verification/Rude_SessionStall.thy ===== *)
theory Rude_SessionStall
  imports Rude_SessionProgress
begin

text \<open>
  A send that is refused after its number was taken: no later packet of the channel can fill the gap, so
  the peer of a reliable ordered channel delivers nothing beyond it, whatever both sides do from then on.
\<close>

section \<open>Numbers along a run\<close>

context packet_codec
begin

lemma sentLog_split:
  "rc_nextSeq c = of_nat k \<Longrightarrow> runPartial (rc_step cc codec ordered) xs (c, st) = Some ((c1, st1), es) \<Longrightarrow>
    \<exists>k1. rc_nextSeq c1 = of_nat k1 \<and> k \<le> k1 \<and> k1 \<le> k + length (rcSends xs)
      \<and> sentLog cc codec ordered (xs @ ys) k (c, st) = sentLog cc codec ordered xs k (c, st) @ sentLog cc codec ordered ys k1 (c1, st1)
      \<and> (\<forall>e \<in> set (sentLog cc codec ordered xs k (c, st)). fst e < k1)"
proof (induction xs arbitrary: c st k es)
  case (Cons op xs)
  from Cons.prems(2) obtain r es1 es2 where step: "rc_step cc codec ordered op (c, st) = Some (r, es1)"
    and run: "runPartial (rc_step cc codec ordered) xs r = Some ((c1, st1), es2)"
    by (rule runPartial_Cons_SomeE)
  obtain c2 st2 where r: "r = (c2, st2)" by fastforce
  from step_log [OF step [unfolded r] Cons.prems(1)] obtain d where
    d: "d \<le> 1" "rc_nextSeq c2 = of_nat (k + d)" "unat (rc_nextSeq c2 - rc_nextSeq c) = d" "length (logEntry op k es1) \<le> d"
    and e: "\<forall>(i, m, bs) \<in> set (logEntry op k es1). i = k \<and> carries codec i m bs" by blast
  from Cons.IH [OF d(2) run [unfolded r]] obtain k1 where k1: "rc_nextSeq c1 = of_nat k1" "k + d \<le> k1" "k1 \<le> k + d + length (rcSends xs)"
    "sentLog cc codec ordered (xs @ ys) (k + d) (c2, st2)
      = sentLog cc codec ordered xs (k + d) (c2, st2) @ sentLog cc codec ordered ys k1 (c1, st1)"
    "\<forall>e \<in> set (sentLog cc codec ordered xs (k + d) (c2, st2)). fst e < k1" by blast
  have "d + length (rcSends xs) \<le> length (rcSends (op # xs))"
  proof (cases "\<exists>now m ep h. op = RcSend now m ep h")
    case False
    then show ?thesis using other_number [OF step [unfolded r]] d(3) by (cases op) auto
  qed (use d(1) in auto)
  moreover have "\<forall>e \<in> set (logEntry op k es1). fst e < k1"
    using d(4) e k1(2) by (cases "logEntry op k es1") fastforce+
  ultimately show ?case using k1 step r d(3) by (intro exI [of _ k1]) auto
qed auto

text \<open>A refused send takes its number out of the log for good.\<close>

lemma refused_gap:
  assumes n: "rc_nextSeq c = of_nat 0" and run: "runPartial (rc_step cc codec ordered) xs (c, st) = Some ((c1, st1), es)"
    and few: "length (rcSends xs) < 65536"
    and s: "rc_asyncSend cc codec now m ep h c1 st1 = (c2, st2, es2)" and q: "datagrams es2 = []"
    and up: "rc_nextSeq c2 \<noteq> rc_nextSeq c1"
  shows "unat (rc_nextSeq c1) \<notin> fst ` set (sentLog cc codec ordered (xs @ RcSend now m ep h # ys) 0 (c, st))"
proof -
  from sentLog_split [OF n run, of "RcSend now m ep h # ys"] obtain k1 where
    k1: "rc_nextSeq c1 = of_nat k1" "k1 \<le> length (rcSends xs)"
      "sentLog cc codec ordered (xs @ RcSend now m ep h # ys) 0 (c, st)
        = sentLog cc codec ordered xs 0 (c, st) @ sentLog cc codec ordered (RcSend now m ep h # ys) k1 (c1, st1)"
      "\<forall>e \<in> set (sentLog cc codec ordered xs 0 (c, st)). fst e < k1" by auto
  have c2: "rc_nextSeq c2 = of_nat (k1 + 1)" using send_number [OF s] up k1(1) by (simp add: add.commute)
  then have l: "sentLog cc codec ordered (RcSend now m ep h # ys) k1 (c1, st1) = sentLog cc codec ordered ys (k1 + 1) (c2, st2)"
    using s q k1(1) by simp
  have "\<forall>e \<in> set (sentLog cc codec ordered ys (k1 + 1) (c2, st2)). k1 < fst e"
    using run_log [of "(c2, st2)" "k1 + 1"] c2 by fastforce
  moreover have "unat (rc_nextSeq c1) = k1" using k1(1,2) few by (simp add: unat_of_nat)
  ultimately show ?thesis using k1(4) unfolding k1(3) l by force
qed

end

lemma asyncSend_any_stats:
  assumes "rc_asyncSend cc codec now m ep h c st = (c', st', es)"
  obtains st2' where "rc_asyncSend cc codec now m ep h c st2 = (c', st2', es)"
  using assms by (auto simp: rc_asyncSend_def Let_def split: prod.splits if_splits)

section \<open>The peer stalls\<close>

text \<open>The send of a session that changes its channel is a send of the channel.\<close>

lemma session_send_channel:
  assumes o: "opened i s" "sized s" and c: "ss_channels s ! unat i = OrderedVar c1" "ss_channels s' ! unat i = OrderedVar c2"
    and s: "ss_asyncSend T now i m h s = (s', es)" and up: "rc_nextSeq c2 \<noteq> rc_nextSeq c1"
  shows "seen T i (SsSend now i m h) s = [RcSend now m (ss_remote s) h]
    \<and> (\<exists>st'. rc_asyncSend (tr_ordered T) (tr_codec T) now m (ss_remote s) h c1 st = (c2, st', es))"
proof -
  have len: "unat i < length (ss_channels s)" using o by (simp add: opened_def sized_def)
  have g: "\<not> ss_closed s" "\<not> unusable i s" "length m + cdc_maxOverhead (tr_codec T) \<le> sc_mtu (ss_config s)"
    using s c up by (auto simp: ss_asyncSend_def split: if_splits)
  obtain c' st' es' where a: "rc_asyncSend (tr_ordered T) (tr_codec T) now m (ss_remote s) h c1 (ss_stats s) = (c', st', es')"
    by (metis surj_pair)
  have "c' = c2" "es' = es" using s g a c len by (auto simp: ss_asyncSend_def)
  then show ?thesis using g a asyncSend_any_stats by (metis seen.simps(1))
qed

lemma session_refused_gap:
  assumes T: "tr_codec T = DefaultCodec" and s0: "s0 = newSession ko ku ep cfg" and o: "opened i s0"
    and mode: "\<forall>cc\<in>set (sc_channels cfg). cfg_id cc = i \<longrightarrow> cfg_mode cc = ReliableOrdered"
    and run: "runPartial (ss_step T) ops s0 = Some (s1, es1)" and few: "length (sendsOn i ops) < 65536"
    and c: "ss_channels s1 ! unat i = OrderedVar c1" "ss_channels s2 ! unat i = OrderedVar c2"
    and s: "ss_asyncSend T now i m h s1 = (s2, [CompleteSend h ec])" and up: "rc_nextSeq c2 \<noteq> rc_nextSeq c1"
  shows "unat (rc_nextSeq c1) \<notin> set (sentNumbers T i (ops @ SsSend now i m h # ops') s0)"
proof -
  obtain cc c1' st1 where c0: "ss_channels s0 ! unat i = OrderedVar (newReliableChannel (reliableOptions cc) ko)"
    and f1: "ss_channels s1 ! unat i = OrderedVar c1'"
    and r1: "runPartial (rc_step (tr_ordered T) DefaultCodec True) (seenAll T i ops s0)
      (newReliableChannel (reliableOptions cc) ko, newSocketStats) = Some ((c1', st1), channelEffects T i ops s0)"
    using ordered_run [OF T o [unfolded s0] mode run [unfolded s0]] unfolding s0 by metis
  have c1: "c1' = c1" using f1 c(1) by simp
  have reach: "opened i s1" "sized s1"
    using ordered_reached [OF T o [unfolded s0] mode run [unfolded s0] c(1)] by simp_all
  obtain st2 where a: "rc_asyncSend (tr_ordered T) DefaultCodec now m (ss_remote s1) h c1 st1 = (c2, st2, [CompleteSend h ec])"
    and sn: "seen T i (SsSend now i m h) s1 = [RcSend now m (ss_remote s1) h]"
    using session_send_channel [OF reach c s up, of st1] T by auto
  have "length (rcSends (seenAll T i ops s0)) < 65536" using few list_emb_length [OF seenAll_sends [of T i ops s0]] by simp
  from default_codec.refused_gap [OF newReliableChannel_next r1 [unfolded c1] this a _ up, of "seenAll T i ops' s2"]
  have "unat (rc_nextSeq c1) \<notin> fst ` set (sentLog (tr_ordered T) DefaultCodec True
      (seenAll T i ops s0 @ RcSend now m (ss_remote s1) h # seenAll T i ops' s2) 0 (newReliableChannel (reliableOptions cc) ko, newSocketStats))"
    by simp
  moreover have "seenAll T i (ops @ SsSend now i m h # ops') s0
      = seenAll T i ops s0 @ RcSend now m (ss_remote s1) h # seenAll T i ops' s2"
    using seenAll_append [OF run] sn s by simp
  ultimately show ?thesis using c0 T by (simp add: sentNumbers_def)
qed

text \<open>
  C39: a refused send can stall the peer for good. Let a session, in the setting of the end-to-end property,
  answer a send on a reliable ordered channel at once with an error, but after the channel took the next number \<open>g\<close> for it
  (as \<open>ReliableChannel\<close> does when the slot of that number is still taken). Then, whatever the sending application sends
  afterwards, whatever is retransmitted and acknowledged, and whatever the network and the receiver do, the messages
  handed to the receivers and queued for them are never more than the first \<open>g\<close> accepted ones: every
  later message, although accepted, is never delivered.
\<close>

theorem refused_send_stalls_peer:
  assumes "ordered_link TA TB i sA0 sB0"
    and "runPartial (ss_step TA) opsA sA0 = Some (sA1, es1)" and "ss_asyncSend TA now i m h sA1 = (sA2, [CompleteSend h ec])"
    and "ss_channels sA1 ! unat i = OrderedVar a1" and "ss_channels sA2 ! unat i = OrderedVar a2"
    and "rc_nextSeq a2 \<noteq> rc_nextSeq a1"
    and "runPartial (ss_step TA) (opsA @ SsSend now i m h # opsA') sA0 = Some (sA, esA)"
    and "runPartial (ss_step TB) opsB sB0 = Some (sB, esB)"
    and "length (sendsOn i (opsA @ SsSend now i m h # opsA')) \<le> 32768" and "carried TB i Data opsB sB0 esA"
  shows "\<exists>c n ms. ss_channels sB ! unat i = OrderedVar c \<and> handedOut (channelEffects TB i opsB sB0) ms
    \<and> ms @ rq_queued (rc_recvQueue c) = take n (acceptedSends TA i (opsA @ SsSend now i m h # opsA') sA0)
    \<and> n \<le> unat (rc_nextSeq a1)"
proof -
  obtain ko ku ep cfg where s0: "sA0 = newSession ko ku ep cfg" and T: "tr_codec TA = DefaultCodec" and o: "opened i sA0"
    and mode: "\<forall>cc\<in>set (sc_channels cfg). cfg_id cc = i \<longrightarrow> cfg_mode cc = ReliableOrdered"
    using assms(1) unfolding ordered_link_def by blast
  have few: "length (sendsOn i opsA) < 65536" using assms(9) by (simp add: sendsOn_append)
  have gap: "unat (rc_nextSeq a1) \<notin> set (sentNumbers TA i (opsA @ SsSend now i m h # opsA') sA0)"
    by (rule session_refused_gap [OF T s0 o mode assms(2) few assms(4,5,3,6)])
  obtain c n ms where d: "ss_channels sB ! unat i = OrderedVar c" "handedOut (channelEffects TB i opsB sB0) ms"
      "ms @ rq_queued (rc_recvQueue c) = take n (acceptedSends TA i (opsA @ SsSend now i m h # opsA') sA0)"
    and n: "{0..<n} \<subseteq> set (sentNumbers TA i (opsA @ SsSend now i m h # opsA') sA0)"
    by (rule ordered_link_delivery [OF assms(1,7-10)])
  have "n \<le> unat (rc_nextSeq a1)" using gap n by (meson atLeastLessThan_iff not_le subsetD zero_le)
  then show ?thesis using d by blast
qed

text \<open>
  A window of four: the sender sends four messages, the first one is lost, and the three others are
  acknowledged. The fifth message takes number 4, whose slot is that of number 0, and is refused; the sixth one
  is accepted with number 5. Then the lost packet and the last one arrive.
\<close>

definition gapWire :: "bytes list" where
  "gapWire =
    [[16, 0, 0, 0, 0, 0, 0, 0, 0, 0, 0, 71, 242, 34, 15],
     [16, 1, 0, 0, 0, 0, 0, 0, 0, 0, 1, 81, 53, 155, 183],
     [16, 2, 0, 0, 0, 0, 0, 0, 0, 0, 2, 15, 114, 19, 92],
     [16, 3, 0, 0, 0, 0, 0, 0, 0, 0, 3, 101, 187, 139, 8],
     [16, 5, 0, 0, 0, 0, 0, 0, 0, 0, 5, 225, 52, 124, 81]]"

definition gapAck :: bytes where
  "gapAck = [17, 0, 0, 3, 0, 3, 0, 0, 0, 0, 28, 14, 74, 57]"

definition gapOps :: "nat ss_op list" where
  "gapOps = [SsStart 1000 9, SsSend 2000 0 [0] 0, SsSend 2001 0 [1] 1, SsSend 2002 0 [2] 2, SsSend 2003 0 [3] 3,
     SsRecvDone 4000 NoError 9 gapAck]"

definition stalledOps :: "nat ss_op list" where
  "stalledOps = map (\<lambda>j. SsRecvDone (4500 + int j) NoError 8 (gapWire ! j)) [1, 2, 3, 0, 4]"

lemma gap_facts:
  "case runPartial (ss_step plainTraits) gapOps plainSession of None \<Rightarrow> False
   | Some (s1, es1) \<Rightarrow> (case ss_asyncSend plainTraits 5000 0 [4] 4 s1 of (s2, es2) \<Rightarrow>
       es2 = [CompleteSend 4 (makeErrorCode SendWindowFull)]
       \<and> (case (ss_channels s1 ! 0, ss_channels s2 ! 0) of
            (OrderedVar a1, OrderedVar a2) \<Rightarrow> rc_nextSeq a1 = 4 \<and> rc_nextSeq a2 = 5 | _ \<Rightarrow> False))"
  by code_simp

lemma gap_datagrams:
  "map_option (\<lambda>(s, es). map fst (datagrams es))
    (runPartial (ss_step plainTraits) (gapOps @ [SsSend 5000 0 [4] 4, SsSend 5001 0 [5] 5]) plainSession) = Some gapWire"
  by code_simp

lemma gap_accepted:
  "acceptedSends plainTraits 0 (gapOps @ [SsSend 5000 0 [4] 4, SsSend 5001 0 [5] 5]) plainSession = [[0], [1], [2], [3], [5]]"
  by code_simp

lemma gapAck_genuine:
  "map_option (\<lambda>(s, es). gapAck \<in> set (map fst (datagrams es)))
    (runPartial (ss_step plainTraits) (SsStart 1000 8 # stalledOps) plainSession) = Some True"
  by code_simp

lemma stall_network:
  assumes "map fst (datagrams es) = gapWire"
  shows "carried plainTraits 0 Data (SsStart 1000 8 # stalledOps) plainSession es"
proof -
  have "\<exists>ep q. (bs, ep, q) \<in> set (datagrams es)" if "bs \<in> set gapWire" for bs
    using that unfolding assms [symmetric] by (clarsimp simp del: split_paired_Ex) blast
  then have "\<forall>op \<in> set stalledOps. relays 8 es op" by (auto simp: stalledOps_def gapWire_def)
  moreover have "tr_codec plainTraits = DefaultCodec" by (simp add: plainTraits_def)
  ultimately show ?thesis unfolding carried_def using relay_seenAll by (fastforce split: option.splits prod.splits)
qed

theorem refused_send_stalls_peer_witness:
  "\<exists>sB esB c n ms. runPartial (ss_step plainTraits) (SsStart 1000 8 # stalledOps) plainSession = Some (sB, esB)
    \<and> gapAck \<in> set (map fst (datagrams esB)) \<and> ss_channels sB ! 0 = OrderedVar c
    \<and> handedOut (channelEffects plainTraits 0 (SsStart 1000 8 # stalledOps) plainSession) ms
    \<and> ms @ rq_queued (rc_recvQueue c) = take n [[0], [1], [2], [3], [5]] \<and> n \<le> 4"
proof -
  obtain s1 es1 s2 a1 a2 where r1: "runPartial (ss_step plainTraits) gapOps plainSession = Some (s1, es1)"
    and s: "ss_asyncSend plainTraits 5000 0 [4] 4 s1 = (s2, [CompleteSend 4 (makeErrorCode SendWindowFull)])"
    and c: "ss_channels s1 ! unat (0 :: u8) = OrderedVar a1" "ss_channels s2 ! unat (0 :: u8) = OrderedVar a2"
    and n: "rc_nextSeq a1 = 4" "rc_nextSeq a2 = 5"
    using gap_facts by (auto split: option.splits prod.splits ChannelVar.splits)
  obtain sA esA where rA: "runPartial (ss_step plainTraits) (gapOps @ [SsSend 5000 0 [4] 4, SsSend 5001 0 [5] 5]) plainSession = Some (sA, esA)"
    and wire: "map fst (datagrams esA) = gapWire"
    using gap_datagrams by auto
  obtain sB esB where rB: "runPartial (ss_step plainTraits) (SsStart 1000 8 # stalledOps) plainSession = Some (sB, esB)"
    and ack: "gapAck \<in> set (map fst (datagrams esB))"
    using gapAck_genuine by auto
  have few: "length (sendsOn 0 (gapOps @ [SsSend 5000 0 [4] 4, SsSend 5001 0 [5] 5])) \<le> 32768" by (simp add: gapOps_def)
  have up: "rc_nextSeq a2 \<noteq> rc_nextSeq a1" using n by simp
  from refused_send_stalls_peer [OF plain_link r1 s c up rA rB few stall_network [OF wire]]
  show ?thesis using rB ack n(1) by (simp add: gap_accepted del: set_map)
qed

end
