(* ===== verification/Rude_Statistics.thy ===== *)
theory Rude_Statistics
  imports Rude_SendProperties
begin

text \<open>
  What the counters of \<^verbatim>\<open>session/SocketStats.hpp\<close> say about the traffic of a reliable channel:
  the numbers a snapshot shows after a run, from the datagrams that the run emitted.
\<close>

section \<open>Counted datagrams\<close>

text \<open>First transmissions and retransmissions are counted, flushed datagrams are not.\<close>

definition counted :: "'ep effect list \<Rightarrow> (bytes \<times> 'ep \<times> send_cont) list" where
  "counted es = filter (\<lambda>(bs, ep, k). k \<noteq> SendFlush) (datagrams es)"

definition repeats :: "'ep effect list \<Rightarrow> (bytes \<times> 'ep \<times> send_cont) list" where
  "repeats es = filter (\<lambda>(bs, ep, k). k = SendDiscard) (datagrams es)"

definition bytesOf :: "(bytes \<times> 'ep \<times> send_cont) list \<Rightarrow> nat" where
  "bytesOf ds = sum_list (map (\<lambda>(bs, ep, k). length bs) ds)"

lemma counts_simps [simp]:
  "counted [] = []" "counted (es @ fs) = counted es @ counted fs"
  "repeats [] = []" "repeats (es @ fs) = repeats es @ repeats fs"
  "counted (SendTo bs ep SendDiscard # es) = (bs, ep, SendDiscard) # counted es"
  "repeats (SendTo bs ep SendDiscard # es) = (bs, ep, SendDiscard) # repeats es"
  "bytesOf [] = 0" "bytesOf (ds @ ds') = bytesOf ds + bytesOf ds'"
  "bytesOf ((bs, ep, k) # ds) = length bs + bytesOf ds"
  by (simp_all add: counted_def repeats_def bytesOf_def)

lemma counts_quiet: "datagrams es = [] \<Longrightarrow> counted es = [] \<and> repeats es = []"
  by (simp add: counted_def repeats_def)

lemma counts_flush: "counted (flushLoop ep sps) = [] \<and> repeats (flushLoop ep sps) = []"
  by (induction ep sps rule: flushLoop.induct) (simp_all add: counted_def repeats_def)

text \<open>
  The account of one step: what it adds to the counters of sent traffic, and that the window gauge
  follows the counter of packets in flight.
\<close>

definition accounts ::
  "'cc ReliableChannel \<times> SocketStats \<Rightarrow> 'cc ReliableChannel \<times> SocketStats \<Rightarrow> 'ep effect list \<Rightarrow> bool" where
  "accounts s s' es \<longleftrightarrow>
     st_packetsSent (snd s') = st_packetsSent (snd s) + of_nat (length (counted es))
     \<and> st_bytesSent (snd s') = st_bytesSent (snd s) + of_nat (bytesOf (counted es))
     \<and> st_packetsLost (snd s') = st_packetsLost (snd s) + of_nat (length (repeats es))
     \<and> (st_sendWindowUsed (snd s) = rc_inFlightCount (fst s) \<longrightarrow>
          st_sendWindowUsed (snd s') = rc_inFlightCount (fst s'))"

lemma accounts_trans: "accounts s s1 es \<Longrightarrow> accounts s1 s2 fs \<Longrightarrow> accounts s s2 (es @ fs)"
  by (simp add: accounts_def)

lemma tickLoop_stats:
  "st_packetsSent (fst (snd (snd (tickLoop cc now rto ep sps k st))))
     = st_packetsSent st + of_nat (length (counted (snd (snd (snd (tickLoop cc now rto ep sps k st))))))"
  "st_bytesSent (fst (snd (snd (tickLoop cc now rto ep sps k st))))
     = st_bytesSent st + of_nat (bytesOf (counted (snd (snd (snd (tickLoop cc now rto ep sps k st))))))"
  "st_packetsLost (fst (snd (snd (tickLoop cc now rto ep sps k st))))
     = st_packetsLost st + of_nat (length (repeats (snd (snd (snd (tickLoop cc now rto ep sps k st))))))"
  "st_sendWindowUsed (fst (snd (snd (tickLoop cc now rto ep sps k st)))) = st_sendWindowUsed st"
  by (induction cc now rto ep sps k st rule: tickLoop.induct)
    (simp_all add: Let_def case_prod_beta countSent_def)

lemma updateRttEstimate_stats [simp]:
  "st_packetsSent (updateRttEstimate x st) = st_packetsSent st"
  "st_bytesSent (updateRttEstimate x st) = st_bytesSent st"
  "st_packetsLost (updateRttEstimate x st) = st_packetsLost st"
  by (simp_all add: updateRttEstimate_def Let_def)

lemma ackLoop_stats:
  "st_packetsSent (snd (snd (snd (ackLoop cc now ack bits sps n k st)))) = st_packetsSent st"
  "st_bytesSent (snd (snd (snd (ackLoop cc now ack bits sps n k st)))) = st_bytesSent st"
  "st_packetsLost (snd (snd (snd (ackLoop cc now ack bits sps n k st)))) = st_packetsLost st"
  by (induction cc now ack bits sps n k st rule: ackLoop.induct)
    (simp_all add: Let_def case_prod_beta)

lemma drain_stats:
  assumes "drainReadyPackets c st = (c', st', es)"
  shows "accounts (c, st) (c', st') es"
  using assms
proof (induction rule: drain_induct)
  case (finished c st)
  then show ?case by (simp add: accounts_def)
next
  case (ready c st b q es c' st' fs)
  have "accounts (c, st) (advanced q c, countRecv (length (bp_payload b)) st) es"
    using counts_quiet [OF rq_quiet(1) [OF ready.hyps(2)]] by (simp add: accounts_def advanced_def countRecv_def)
  then show ?case using ready.IH by (rule accounts_trans)
qed

lemma receive_accounts:
  fixes es :: "'ep effect list"
  assumes "rc_onRecv cc ordered now p c st = Some (c', st', es)"
  shows "accounts (c, st) (c', st') es"
proof -
  have ack: "accounts (c, st) (c', st') ([] :: 'ep effect list)"
    if "processAck cc now a b c st = (c', st')" for a b
    using that by (auto simp: processAck_def accounts_def Let_def case_prod_beta ackLoop_stats)
  have ord: "accounts (c, st) (c', st') es" if "receiveOrdered p c st = Some (c', st', es)"
    using that by (auto simp: receiveOrdered_def bind_eq_Some_conv Let_def accounts_def split: if_splits
        dest!: drain_stats)
  obtain q fs where q: "rq_deliver (pkt_payload p) (rc_recvQueue c) = (q, fs :: 'ep effect list)" by fastforce
  have unord: "accounts (c, st) (c', st') es" if "receiveUnordered p c st = Some (c', st', es)"
    using that q counts_quiet [OF rq_quiet(1) [OF q]]
    by (auto simp: receiveUnordered_def bind_eq_Some_conv Let_def accounts_def countRecv_def split: if_splits)
  show ?thesis
    using assms ack ord unord by (auto simp: rc_onRecv_def accounts_def split: if_splits prod.splits)
qed

lemma send_accounts:
  assumes "rc_asyncSend cc codec now m ep h c st = (c', st', es)"
  shows "accounts (c, st) (c', st') es"
proof -
  obtain w k where w: "effectiveSendWindow cc now c = (w, c\<lparr>rc_cc := k\<rparr>)"
    using effectiveSendWindow_channel by (metis surj_pair)
  show ?thesis
    using assms unfolding rc_asyncSend_def w
    by (auto simp: Let_def storeSentPacket_def accounts_def countSent_def counted_def repeats_def bytesOf_def
        split: if_splits)
qed

lemma step_accounts:
  assumes "rc_step cc codec ordered op s = Some (s', es)"
  shows "accounts s s' es"
proof -
  obtain c st c' st' where s: "s = (c, st)" "s' = (c', st')" by fastforce
  show ?thesis
    unfolding s
  proof (cases op)
    case (RcSend now m ep h)
    then show "accounts (c, st) (c', st') es" using assms s send_accounts by (auto split: prod.splits)
  next
    case (RcSent sq h ec)
    then show "accounts (c, st) (c', st') es" using assms s
      by (auto simp: rc_onSent_def eraseSentPacket_def accounts_def Let_def counted_def repeats_def
          split: prod.splits if_splits option.splits)
  next
    case (RcRecv n h)
    then show "accounts (c, st) (c', st') es" using assms s rq_quiet(2) counts_quiet
      by (fastforce simp: rc_asyncRecv_def accounts_def Let_def split: prod.splits)
  next
    case (RcTick now ep)
    then show "accounts (c, st) (c', st') es" using assms s
      by (auto simp: rc_onTick_def accounts_def Let_def case_prod_beta tickLoop_stats)
  next
    case (RcPacket now p)
    then show "accounts (c, st) (c', st') es" using assms s by (auto dest: receive_accounts)
  next
    case (RcFlush ep)
    then show "accounts (c, st) (c', st') es" using assms s
      by (auto simp: rc_flush_def accounts_def counts_flush)
  next
    case (RcClose ec)
    then show "accounts (c, st) (c', st') es" using assms s rq_quiet(3) counts_quiet
      by (fastforce simp: rc_close_def accounts_def Let_def split: prod.splits)
  qed
qed

lemma run_accounts:
  "runPartial (rc_step cc codec ordered) ops s = Some (s', es) \<Longrightarrow> accounts s s' es"
proof (induction ops arbitrary: s es)
  case (Cons op ops)
  from Cons.prems obtain s1 es1 es2 where step: "rc_step cc codec ordered op s = Some (s1, es1)"
    and run: "runPartial (rc_step cc codec ordered) ops s1 = Some (s', es2)" and "es = es1 @ es2"
    by (rule runPartial_Cons_SomeE)
  then show ?case using accounts_trans [OF step_accounts [OF step] Cons.IH [OF run]] by simp
qed (simp add: accounts_def)

section \<open>Property\<close>



end
