(* ===== verification/Spec2Isabelle.thy ===== *)
theory Spec2Isabelle
  imports Rude_RecvProperties Rude_SendProperties Rude_Inline Rude_Accepting Rude_SendGuard Rude_Windows Rude_SessionStall Rude_Statistics
begin

text \<open>
  A verification development of \<open>rude\<close>, a header-only reliable-UDP library in C++23. Paths below are
  relative to \<^verbatim>\<open>src/src/rude\<close>.

  \<^bold>\<open>The program.\<close> A \<open>BasicSession\<close> owns a UDP socket, a strand, two timers and up to eight channels. A
  channel is reliable ordered, reliable unordered or unreliable sequenced; it frames messages with a
  packet codec, keeps what it needs to repeat or reorder them, and completes the handlers of its
  callers. A reliable channel asks a congestion controller for its window. A connector runs the client
  side of a two-packet handshake on the socket of a new session, an acceptor answers initial frames from
  the sockets of new sessions. All handlers of a session run on its strand, one at a time.

  \<^bold>\<open>How it is modelled.\<close> Every class is a record, every member function a definition from the state to
  the new state and a list of effects. An effect is what the code asks of its surroundings: a datagram,
  a receive, a timer, a completed handler, a policy callback. Completion lambdas and timer handlers are
  definitions of their own, so that an interleaving is a list of calls and completions, and a property of
  all interleavings is a property of all lists. Fixed-width integers are words of their width; sequence
  numbers wrap. Times are nanoseconds as integers; doubles are real numbers. Undefined behaviour (the shift
  by 32 in \<open>markReceived\<close>) is \<open>None\<close>. The codec and the controller are records of operations, with the
  laws that the code relies on in locales that are interpreted on the default codec and on all three
  controllers.

  \<^bold>\<open>The theories.\<close>
  \<^item> \<open>Rude_Prelude\<close>: shared types, effects, facts on words and lists, and runs of operations.
  \<^item> \<open>Rude_Protocol\<close>: \<^verbatim>\<open>core/Error.hpp\<close>, \<^verbatim>\<open>protocol/Types.hpp\<close>, \<^verbatim>\<open>protocol/Packet.hpp\<close>.
  \<^item> \<open>Rude_Codec\<close>: \<^verbatim>\<open>detail/DefaultCodec.hpp\<close>, byte for byte, and the concept
    \<^verbatim>\<open>concepts/PacketCodec.hpp\<close>. Round trips in both directions, and every corruption of a single byte is
    rejected.
  \<^item> \<open>Rude_ChannelCommon\<close>: \<^verbatim>\<open>detail/channel/ChannelCommon.hpp\<close>. The receive queue is first in first out
    and completes every receive once; serial numbers order indices within half their space; the
    acknowledgement tracker holds the exact history of 32 numbers, and is undefined exactly on a jump of 32.
  \<^item> \<open>Rude_Config\<close>: \<^verbatim>\<open>session/ChannelConfig.hpp\<close>, \<^verbatim>\<open>session/SessionConfig.hpp\<close>,
    \<^verbatim>\<open>session/SocketStats.hpp\<close>.
  \<^item> \<open>Rude_Congestion\<close>: \<^verbatim>\<open>concepts/CongestionControl.hpp\<close> and the controllers under
    \<^verbatim>\<open>detail/congestion\<close>, with their invariants.
  \<^item> \<open>Rude_ReliableChannel\<close>: \<^verbatim>\<open>detail/channel/ReliableChannel.hpp\<close>, every operation and completion.
    \<open>Rude_ReliableSend\<close> and \<open>Rude_SendProperties\<close> hold the sending side (invariant of the slots, outcome of
    every branch of a send, retransmission, acknowledgements), \<open>Rude_ReliableRecv\<close> and
    \<open>Rude_RecvProperties\<close> the receiving side (in-order delivery, at-most-once delivery, what is
    acknowledged is kept, definedness).
  \<^item> \<open>Rude_Inline\<close>: receive handlers that run in place and receive again, in the middle of a drain, see what they
    would see if they received afterwards.
  \<^item> \<open>Rude_Reorder\<close>: \<^verbatim>\<open>detail/ReorderBuffer.hpp\<close>, which restores the order of a stream.
  \<^item> \<open>Rude_UnreliableChannel\<close>: \<^verbatim>\<open>detail/channel/UnreliableChannel.hpp\<close>, which delivers the new maxima.
  \<^item> \<open>Rude_Channels\<close>: \<^verbatim>\<open>detail/channel/ChannelVariant.hpp\<close> and the visits that the session makes.
  \<^item> \<open>Rude_Session\<close>: \<^verbatim>\<open>session/BasicSession.hpp\<close>, every operation, completion and timer handler.
    \<open>Rude_SessionInvariant\<close> and \<open>Rude_SessionProperties\<close> show, for every interleaving, that each handler is
    called exactly once, the life cycle of socket, timers and callbacks, silence after close, and the
    destination of datagrams; \<open>Rude_SessionBehaviour\<close> the MTU check, keepalive, junk, the retransmission tick
    and the answer to data.
  \<^item> \<open>Rude_Handshake\<close>: \<^verbatim>\<open>detail/Handshake.hpp\<close> as a step relation in which socket and timer complete in
    any order: the handler is called once, and the handshake ends.
  \<^item> \<open>Rude_Endpoints\<close>: \<^verbatim>\<open>endpoint/Connector.hpp\<close> and \<^verbatim>\<open>endpoint/Acceptor.hpp\<close>: the handshake connects both
    ends, what a cancelled attempt reports. \<open>Rude_Accepting\<close>: the accepts of an acceptor, whose receive buffer
    they share, as a step relation: each completes once, and one at a time they serve the right clients.
  \<^item> \<open>Rude_Link\<close>: two reliable channels and the network between them. What the receiving application gets
    is a prefix of what the sending one sent; the packet that a receiver waits for is always taken and
    acknowledged; the history of 32 starves the sender of a packet that is further behind.
  \<^item> \<open>Rude_SessionRefinement\<close>: a session is the independent composition of its channels: what each channel goes
    through in a run of the session is a run of that channel alone, and the session's data packets with its
    number are those of that run. \<open>Rude_SessionLink\<close> composes this with \<open>Rude_Link\<close>: two sessions, end to end.
    \<open>Rude_SessionRecovery\<close>: between two sessions, one timer expiry and two datagrams that get through bring the
    packet that the receiver waits for to its application and release it at the sender.
    \<open>Rude_SessionProgress\<close>: the acknowledgements of a session are those of its channels, a receiver keeps what it
    acknowledged, and a sender lets go only what was acknowledged; so the packet that a receiver waits for
    is always held, and from every reachable state some schedule without new work of the applications delivers
    everything that was accepted. \<open>Rude_SessionStall\<close>: the case that this leaves out, a send refused after its number
    was taken, after which the peer delivers nothing more.
  \<^item> \<open>Rude_Statistics\<close>: the counters of a reliable channel against the datagrams of a run.
  \<^item> \<open>Rude_SendGuard\<close>, \<open>Rude_Windows\<close>: \<^verbatim>\<open>detail/SendGuard.hpp\<close>, \<^verbatim>\<open>detail/AckedSet.hpp\<close> and
    \<^verbatim>\<open>detail/SlidingWindow.hpp\<close>, structures that the channels do not use (yet).

  \<^bold>\<open>Bounds.\<close> No definition has fuel. The drain loops end because each round empties an occupied slot, the
  mask loop because each round clears a bit, and the other loops are structural. Properties that speak of
  a stream identify sequence numbers with unbounded indices and assume that every arrival is within half
  the number space of the number expected next; a window that divides 65536 gives each number of a
  window its own slot. Both are stated as hypotheses, and the properties on slot collisions and on the
  acknowledgement history show what happens without them. Between two sessions the first one follows from at
  most 32768 sends on the channel. Progress between two sessions also assumes a receiving window of at
  most 32, that no datagram of the channel failed in the sender's own socket and that no number was lost to a refused send:
  a channel forgets a packet that it could not send, and never uses its number again.

  \<^bold>\<open>Not modelled.\<close> \<^verbatim>\<open>detail/UdpSocket.hpp\<close> and \<^verbatim>\<open>core/Executor.hpp\<close> wrap or name Boost.Asio objects: their
  calls are the effects. User policies (\<^verbatim>\<open>concepts/SessionPolicy.hpp\<close>) and completion handlers are effects too: a call that one of
  them makes back into its session is a step after the one that ran it, not nested inside it;
  \<open>Rude_Inline\<close> shows for receives that this makes no difference to a channel. The memory
  order of the counters and the rounding of doubles are not modelled.
  Object lifetimes (shared and weak pointers) appear only where an operation asks for them.
\<close>

end
